(* ===== verification/Prelude.thy ===== *)
theory Prelude
  imports Main "HOL-Library.Word" "HOL-Library.Monad_Syntax"
begin

text \<open>
  Shared vocabulary of the Seaweed development: the machine integers of the 32-bit target
  (\<^verbatim>\<open>gcc -m32\<close>: \<open>int\<close>, \<open>long\<close>, \<open>size_t\<close> and pointers are 32 bits wide, \<open>char\<close> is a
  signed byte), byte arrays as lists with checked access, and the facts about lists and
  options that the components share.

  A computation that the C standard leaves undefined (an access outside an array, a signed
  overflow) has the value \<^const>\<open>None\<close>; a defined one has the value \<open>Some\<close> of its result.
  A theorem that an operation returns \<open>Some\<close> is therefore a memory-safety statement.
  Return codes of the C functions are ordinary values inside the \<open>Some\<close>.
\<close>

unbundle bit_operations_syntax

type_synonym u8 = "8 word"
type_synonym u16 = "16 word"
type_synonym u32 = "32 word"

text \<open>A block of bytes: a \<open>char\<close> array, or what a \<open>char *\<close> points at up to the end of its array.\<close>

type_synonym bytes = "u8 list"

named_theorems c_access \<open>equations of the checked array operations\<close>
named_theorems kernel_defs \<open>definitions of the small operations that proofs unfold\<close>

subsection \<open>Checked arrays\<close>

definition aget :: "'a list \<Rightarrow> nat \<Rightarrow> 'a option" where
  "aget xs i = (if i < length xs then Some (xs ! i) else None)"

definition aset :: "'a list \<Rightarrow> nat \<Rightarrow> 'a \<Rightarrow> 'a list option" where
  "aset xs i v = (if i < length xs then Some (xs[i := v]) else None)"

text \<open>Storing a run of elements at an offset, as a copy loop does.\<close>

definition awrite :: "'a list \<Rightarrow> nat \<Rightarrow> 'a list \<Rightarrow> 'a list option" where
  "awrite xs k ys =
     (if k + length ys \<le> length xs
      then Some (take k xs @ ys @ drop (k + length ys) xs) else None)"

lemma aget_in [c_access]: "i < length xs \<Longrightarrow> aget xs i = Some (xs ! i)"
  by (simp add: aget_def)

lemma aset_in [c_access]: "i < length xs \<Longrightarrow> aset xs i v = Some (xs[i := v])"
  by (simp add: aset_def)

lemma awrite_in [c_access]:
  "k + length ys \<le> length xs \<Longrightarrow>
   awrite xs k ys = Some (take k xs @ ys @ drop (k + length ys) xs)"
  by (simp add: awrite_def)

lemma aget_SomeD: "aget xs i = Some v \<Longrightarrow> i < length xs \<and> v = xs ! i"
  by (simp add: aget_def split: if_splits)

lemma aset_SomeD: "aset xs i v = Some ys \<Longrightarrow> i < length xs \<and> ys = xs[i := v]"
  by (simp add: aset_def split: if_splits)

lemma awrite_length: "awrite xs k ys = Some zs \<Longrightarrow> length zs = length xs"
  by (auto simp: awrite_def split: if_splits)

subsection \<open>Lists\<close>

lemma nth_drop_Cons: "i < length xs \<Longrightarrow> drop i xs = xs ! i # drop (Suc i) xs"
  by (rule Cons_nth_drop_Suc [symmetric])

lemma take_drop_split: "k + n \<le> length xs \<Longrightarrow> take k xs @ take n (drop k xs) @ drop (k + n) xs = xs"
  by (metis append_take_drop_id drop_drop add.commute)

lemma list_update_append_mid:
  "length us = k \<Longrightarrow> (us @ x # vs)[k := y] = us @ y # vs"
  by auto

lemma takeWhile_all_append:
  "(\<And>x. x \<in> set xs \<Longrightarrow> P x) \<Longrightarrow> \<not> P y \<Longrightarrow> takeWhile P (xs @ y # ys) = xs"
  by (induction xs) auto

subsection \<open>Words\<close>

lemma uint_pos_iff: "0 < uint x \<longleftrightarrow> x \<noteq> 0"
  by (simp add: order_less_le uint_0_iff)

lemma unat_u32: "unat (x :: u32) < 4294967296"
  by (rule unsigned_less [THEN order_less_le_trans]) simp

lemma unat_u8: "unat (x :: u8) < 256"
  by (rule unsigned_less [THEN order_less_le_trans]) simp

lemma unat_less_sub: "x < (y :: 'a::len word) \<Longrightarrow> unat (y - x) = unat y - unat x"
  by (simp add: unat_sub)

lemma and_not_7: "(x :: u32) AND NOT 7 = (x div 8) * 8"
proof -
  have "x AND NOT (mask 3) = push_bit 3 (drop_bit 3 x)"
    by (rule bit_word_eqI) (auto simp: bit_simps)
  then show ?thesis
    by (simp add: mask_eq_exp_minus_1 push_bit_eq_mult drop_bit_eq_div)
qed

subsection \<open>Words in memory, low byte first\<close>

definition le16 :: "u16 \<Rightarrow> bytes" where
  "le16 v = [ucast v, ucast (drop_bit 8 v)]"

definition le32 :: "u32 \<Rightarrow> bytes" where
  "le32 v = [ucast v, ucast (drop_bit 8 v), ucast (drop_bit 16 v), ucast (drop_bit 24 v)]"

definition un_le16 :: "u8 \<Rightarrow> u8 \<Rightarrow> u16" where
  "un_le16 a b = ucast a OR push_bit 8 (ucast b)"

definition un_le32 :: "u8 \<Rightarrow> u8 \<Rightarrow> u8 \<Rightarrow> u8 \<Rightarrow> u32" where
  "un_le32 a b c d = ucast a OR push_bit 8 (ucast b) OR push_bit 16 (ucast c) OR push_bit 24 (ucast d)"

lemma length_le16 [simp]: "length (le16 v) = 2"
  by (simp add: le16_def)

lemma length_le32 [simp]: "length (le32 v) = 4"
  by (simp add: le32_def)

lemma un_le16_le16 [simp]: "un_le16 (ucast v) (ucast (drop_bit 8 v)) = v"
proof (rule bit_word_eqI)
  fix n assume "n < LENGTH(16)"
  then consider "n < 8" | "8 \<le> n" "n < 16" by fastforce
  then show "bit (un_le16 (ucast v) (ucast (drop_bit 8 v))) n \<longleftrightarrow> bit v n"
    by cases (auto simp: un_le16_def bit_or_iff bit_push_bit_iff bit_unsigned_iff bit_drop_bit_eq)
qed

lemma un_le32_le32 [simp]:
  "un_le32 (ucast v) (ucast (drop_bit 8 v)) (ucast (drop_bit 16 v)) (ucast (drop_bit 24 v)) = v"
  (is "?l = v")
proof (rule bit_word_eqI)
  fix n assume "n < LENGTH(32)"
  then consider "n < 8" | "8 \<le> n" "n < 16" | "16 \<le> n" "n < 24" | "24 \<le> n" "n < 32" by fastforce
  then show "bit ?l n \<longleftrightarrow> bit v n"
    by cases (auto simp: un_le32_def bit_or_iff bit_push_bit_iff bit_unsigned_iff bit_drop_bit_eq)
qed

lemma le16_un_le16 [simp]: "le16 (un_le16 a b) = [a, b]"
  unfolding le16_def list.inject
  by (intro conjI refl bit_word_eqI)
     (auto simp: un_le16_def bit_or_iff bit_push_bit_iff bit_unsigned_iff bit_drop_bit_eq
       dest: bit_imp_le_length)

lemma le32_un_le32 [simp]: "le32 (un_le32 a b c d) = [a, b, c, d]"
  unfolding le32_def list.inject
  by (intro conjI refl bit_word_eqI)
     (auto simp: un_le32_def bit_or_iff bit_push_bit_iff bit_unsigned_iff bit_drop_bit_eq
       dest: bit_imp_le_length)

subsection \<open>Characters\<close>

text \<open>The bytes of a string, and the array of a C string literal with its terminator.\<close>

definition byte_of :: "char \<Rightarrow> u8" where
  "byte_of c = of_char c"

definition bytes_of :: "string \<Rightarrow> bytes" where
  "bytes_of s = map byte_of s"

definition literal :: "string \<Rightarrow> bytes" where
  "literal s = bytes_of s @ [0]"

lemma byte_of_Char [simp]:
  "byte_of (Char b0 b1 b2 b3 b4 b5 b6 b7) =
   of_bool b0 + 2 * (of_bool b1 + 2 * (of_bool b2 + 2 * (of_bool b3 +
   2 * (of_bool b4 + 2 * (of_bool b5 + 2 * (of_bool b6 + 2 * of_bool b7))))))"
  by (simp add: byte_of_def of_char_def)

lemma bytes_of_Nil [simp]: "bytes_of [] = []"
  by (simp add: bytes_of_def)

lemma bytes_of_Cons [simp]: "bytes_of (c # s) = byte_of c # bytes_of s"
  by (simp add: bytes_of_def)

lemma length_bytes_of [simp]: "length (bytes_of s) = length s"
  by (simp add: bytes_of_def)

text \<open>The comparison \<open>c <= ' '\<close> on a signed \<open>char\<close>: true of blanks, controls and bytes above 127.\<close>

definition blank_or_control :: "u8 \<Rightarrow> bool" where
  "blank_or_control c \<longleftrightarrow> sint c \<le> 32"

text \<open>A decimal digit, as \<open>c >= '0' && c <= '9'\<close> on a signed \<open>char\<close>.\<close>

definition is_digit :: "u8 \<Rightarrow> bool" where
  "is_digit c \<longleftrightarrow> 48 \<le> sint c \<and> sint c \<le> 57"

lemma not_blank_nonzero: "\<not> blank_or_control c \<Longrightarrow> c \<noteq> 0"
  by (auto simp: blank_or_control_def)

end
