(* ===== verification/CString.thy ===== *)
theory CString
  imports Prelude
begin

text \<open>
  \<^verbatim>\<open>lib/string.c\<close> as its callers see it. A \<open>const char *\<close> is the list of bytes from the
  pointer to the end of the array it points into, so a read past the array is \<^const>\<open>None\<close>.
  The same functions over the flat 32-bit memory, where source and destination may overlap,
  are in the theory \<open>CMemory\<close>, which shows that they agree with the ones here.
\<close>

subsection \<open>Reading strings\<close>

fun strlen :: "bytes \<Rightarrow> nat option" where
  "strlen [] = None"
| "strlen (c # s) = (if c \<noteq> 0 then map_option Suc (strlen s) else Some 0)"

fun strcmp :: "bytes \<Rightarrow> bytes \<Rightarrow> int option" where
  "strcmp (x # a) (y # b) = (if x \<noteq> 0 \<and> x = y then strcmp a b else Some (uint x - uint y))"
| "strcmp _ _ = None"

text \<open>\<open>strncmp\<close>: \<open>count\<close> is checked before either string is read.\<close>

fun strncmp :: "bytes \<Rightarrow> bytes \<Rightarrow> nat \<Rightarrow> int option" where
  "strncmp a b 0 = Some 0"
| "strncmp (x # a) (y # b) (Suc n) =
     (if x \<noteq> 0 \<and> x = y then strncmp a b n else Some (uint x - uint y))"
| "strncmp _ _ _ = None"

fun memcmp :: "bytes \<Rightarrow> bytes \<Rightarrow> nat \<Rightarrow> int option" where
  "memcmp a b 0 = Some 0"
| "memcmp (x # a) (y # b) (Suc n) =
     (if x \<noteq> y then Some (uint x - uint y) else memcmp a b n)"
| "memcmp _ _ _ = None"

subsection \<open>Writing arrays\<close>

text \<open>The destination is the array \<open>d\<close> from offset \<open>k\<close>; it is distinct from the source.\<close>

definition memset :: "bytes \<Rightarrow> nat \<Rightarrow> u8 \<Rightarrow> nat \<Rightarrow> bytes option" where
  "memset d k v n = awrite d k (replicate n v)"

definition memcpy :: "bytes \<Rightarrow> nat \<Rightarrow> bytes \<Rightarrow> nat \<Rightarrow> bytes option" where
  "memcpy d k s n = (if n \<le> length s then awrite d k (take n s) else None)"

definition strcpy :: "bytes \<Rightarrow> bytes \<Rightarrow> bytes option" where
  "strcpy d s = do { n \<leftarrow> strlen s; memcpy d 0 s (Suc n) }"

subsection \<open>Numbers\<close>

text \<open>The table \<open>digits\<close> of \<open>utoa\<close>.\<close>

definition digits :: bytes where
  "digits = bytes_of ''0123456789abcdef''"

text \<open>The digits of a positive value in the order the loop produces them: ones first.\<close>

function utoa_digits :: "u32 \<Rightarrow> u32 \<Rightarrow> bytes" where
  "utoa_digits value base =
     (if value > 0 \<and> base > 1
      then (digits ! unat (value mod base)) # utoa_digits (value div base) base
      else [])"
  by pat_completeness auto
termination
proof (relation "measure (\<lambda>(v, b). unat v)")
  fix v b :: u32
  assume *: "v > 0 \<and> b > 1"
  then have "unat v > 0" "unat b > 1"
    by (simp_all add: word_less_nat_alt unat_gt_0)
  then show "((v div b, b), (v, b)) \<in> measure (\<lambda>(v, b). unat v)"
    by (simp add: unat_div)
qed simp

declare utoa_digits.simps [simp del]

text \<open>The text \<open>utoa\<close> leaves in its buffer, without the terminator.\<close>

definition utoa_text :: "u32 \<Rightarrow> int \<Rightarrow> bytes" where
  "utoa_text value base =
     (if base < 2 \<or> base > 16 then []
      else if value = 0 then [48]
      else rev (utoa_digits value (word_of_int base)))"

definition utoa :: "u32 \<Rightarrow> bytes \<Rightarrow> int \<Rightarrow> bytes option" where
  "utoa value buffer base = awrite buffer 0 (utoa_text value base @ [0])"

text \<open>
  \<open>itoa\<close>: the negation is done in \<open>long\<close>, which has 32 bits on this target, so it is
  undefined for the least value.
\<close>

definition neg_long :: "u32 \<Rightarrow> u32 option" where
  "neg_long v = (if sint v = - (2 ^ 31) then None else Some (- v))"

definition itoa :: "u32 \<Rightarrow> bytes \<Rightarrow> int \<Rightarrow> bytes option" where
  "itoa value buffer base =
     (if base = 10 \<and> sint value < 0
      then do {
        buffer \<leftarrow> aset buffer 0 45;
        v \<leftarrow> neg_long value;
        rest \<leftarrow> utoa v (drop 1 buffer) base;
        Some (take 1 buffer @ rest) }
      else utoa value buffer base)"

subsection \<open>What a string holds\<close>

text \<open>A string is terminated when its array holds a zero byte; its text is what precedes it.\<close>

definition terminated :: "bytes \<Rightarrow> bool" where
  "terminated s \<longleftrightarrow> 0 \<in> set s"

definition text_of :: "bytes \<Rightarrow> bytes" where
  "text_of s = takeWhile (\<lambda>c. c \<noteq> 0) s"

lemma terminated_simps [simp]:
  "\<not> terminated []"
  "terminated (c # s) \<longleftrightarrow> c = 0 \<or> terminated s"
  by (auto simp: terminated_def)

lemma text_of_simps [simp]:
  "text_of [] = []"
  "text_of (c # s) = (if c = 0 then [] else c # text_of s)"
  by (auto simp: text_of_def)

lemma text_of_nonzero: "0 \<notin> set (text_of s)"
  by (induction s) auto

lemma terminated_append [simp]: "terminated (s @ t) \<longleftrightarrow> terminated s \<or> terminated t"
  by (auto simp: terminated_def)

lemma text_of_append_zero: "0 \<notin> set s \<Longrightarrow> text_of (s @ 0 # t) = s"
  by (induction s) auto

lemma terminated_split: "terminated s \<Longrightarrow> \<exists>t. s = text_of s @ 0 # t"
  by (induction s) auto

lemma length_text_of: "length (text_of s) \<le> length s"
  by (simp add: text_of_def length_takeWhile_le)

lemma text_of_less: "terminated s \<Longrightarrow> length (text_of s) < length s"
  by (induction s) auto

lemma text_of_id: "0 \<notin> set s \<Longrightarrow> text_of s = s"
  by (induction s) auto

lemma literal_terminated [simp]: "terminated (literal s)"
  by (simp add: literal_def)

lemma strlen_eq: "strlen s = (if terminated s then Some (length (text_of s)) else None)"
  by (induction s) auto

lemma strcmp_terminated:
  "terminated a \<Longrightarrow> terminated b \<Longrightarrow> \<exists>r. strcmp a b = Some r"
  by (induction a b rule: strcmp.induct) auto

lemma strcmp_zero_iff:
  "strcmp a b = Some r \<Longrightarrow> terminated a \<Longrightarrow> terminated b \<Longrightarrow> r = 0 \<longleftrightarrow> text_of a = text_of b"
  by (induction a b rule: strcmp.induct)
     (auto simp: uint_0_iff simp flip: word_uint_eq_iff split: if_splits)

text \<open>The two facts in the form the callers use: the comparison with zero.\<close>

definition str_eq :: "bytes \<Rightarrow> bytes \<Rightarrow> bool option" where
  "str_eq a b = map_option (\<lambda>r. r = 0) (strcmp a b)"

lemma str_eq_terminated:
  "terminated a \<Longrightarrow> terminated b \<Longrightarrow> str_eq a b = Some (text_of a = text_of b)"
  using strcmp_terminated [of a b] strcmp_zero_iff [of a b] by (auto simp: str_eq_def)

text \<open>The sign of \<open>strcmp\<close> is the lexicographic order of the texts as unsigned bytes.\<close>

lemma strcmp_less_iff:
  "strcmp a b = Some r \<Longrightarrow> terminated a \<Longrightarrow> terminated b \<Longrightarrow>
   r < 0 \<longleftrightarrow> (text_of a, text_of b) \<in> lexord {(x, y). x < y}"
proof (induction a b rule: strcmp.induct)
  case (1 x a y b)
  show ?case
  proof (cases "x \<noteq> 0 \<and> x = y")
    case True
    with "1.prems" "1.IH" show ?thesis by (cases "y = 0") simp_all
  next
    case False
    with "1.prems" show ?thesis by (auto simp: word_less_def uint_0_iff uint_pos_iff)
  qed
qed simp_all

lemma take_text_of: "terminated s \<Longrightarrow> take (Suc (length (text_of s))) s = text_of s @ [0]"
  by (induction s) auto

lemma strcpy_eq:
  assumes "terminated s" "length (text_of s) < length d"
  shows "strcpy d s = Some (text_of s @ 0 # drop (Suc (length (text_of s))) d)"
proof -
  have "Suc (length (text_of s)) \<le> length s"
    using text_of_less [OF assms(1)] by simp
  with assms show ?thesis
    by (simp add: strcpy_def strlen_eq memcpy_def awrite_def take_text_of min_def)
qed

lemma text_of_strcpy:
  "strcpy d s = Some d' \<Longrightarrow> terminated s \<Longrightarrow> length (text_of s) < length d \<Longrightarrow>
   text_of d' = text_of s \<and> terminated d' \<and> length d' = length d"
  by (auto simp: strcpy_eq text_of_append_zero text_of_nonzero)

subsection \<open>What the number routines print\<close>

text \<open>The value of one digit of the table, and of a numeral read from the left.\<close>

definition digit_value :: "u8 \<Rightarrow> nat" where
  "digit_value c = (if c \<le> 57 then unat c - 48 else unat c - 87)"

definition numeral_value :: "nat \<Rightarrow> bytes \<Rightarrow> nat" where
  "numeral_value base = foldl (\<lambda>n c. n * base + digit_value c) 0"

lemma numeral_value_snoc [simp]:
  "numeral_value base (s @ [c]) = numeral_value base s * base + digit_value c"
  by (simp add: numeral_value_def)

lemma numeral_value_Nil [simp]: "numeral_value base [] = 0"
  by (simp add: numeral_value_def)

lemma digits_eq:
  "digits = [48, 49, 50, 51, 52, 53, 54, 55, 56, 57, 97, 98, 99, 100, 101, 102]"
  by (simp add: digits_def)

lemma length_digits [simp]: "length digits = 16"
  by (simp add: digits_def)

lemma digits_table:
  "list_all (\<lambda>n. digit_value (digits ! n) = n \<and> (digits ! n = 48 \<longleftrightarrow> n = 0)) [0..<16]"
  by code_simp

lemma digit_value_nth: "n < 16 \<Longrightarrow> digit_value (digits ! n) = n"
  using digits_table by (simp add: list_all_iff)

lemma digit_zero_iff: "n < 16 \<Longrightarrow> digits ! n = 48 \<longleftrightarrow> n = 0"
  using digits_table by (simp add: list_all_iff)

lemma utoa_digits_0 [simp]: "utoa_digits 0 base = []"
  by (simp add: utoa_digits.simps)

lemma utoa_digits_step:
  "value > 0 \<Longrightarrow> base > 1 \<Longrightarrow>
   utoa_digits value base = digits ! unat (value mod base) # utoa_digits (value div base) base"
  by (subst utoa_digits.simps) simp

lemma base_unat:
  fixes b :: u32
  shows "b > 1 \<Longrightarrow> b \<le> 16 \<Longrightarrow> 1 < unat b \<and> unat b \<le> 16"
  using word_le_nat_alt [of b 16] by (simp add: word_less_nat_alt)

lemma unat_mod_base:
  fixes v b :: u32
  assumes "b > 1" "b \<le> 16"
  shows "unat (v mod b) < 16"
proof -
  have "unat v mod unat b < unat b" using base_unat [OF assms] by (intro mod_less_divisor) simp
  with base_unat [OF assms] have "unat v mod unat b < 16" by linarith
  then show ?thesis by (simp add: unat_mod)
qed

lemma utoa_digits_value:
  "base > 1 \<Longrightarrow> base \<le> 16 \<Longrightarrow> numeral_value (unat base) (rev (utoa_digits v base)) = unat v"
proof (induction v base rule: utoa_digits.induct)
  case (1 v b)
  show ?case
  proof (cases "v > 0")
    case True
    with 1 show ?thesis
      by (simp add: utoa_digits_step digit_value_nth unat_mod_base) (simp add: unat_div unat_mod)
  next
    case False
    then show ?thesis by (simp add: word_gt_0)
  qed
qed

lemma utoa_digits_length:
  "base > 1 \<Longrightarrow> base \<le> 16 \<Longrightarrow> unat v < unat base ^ n \<Longrightarrow> length (utoa_digits v base) \<le> n"
proof (induction n arbitrary: v)
  case 0
  then show ?case by (simp add: unat_eq_zero)
next
  case (Suc n)
  show ?case
  proof (cases "v > 0")
    case True
    have "unat (v div base) < unat base ^ n"
      using Suc.prems by (simp add: unat_div less_mult_imp_div_less mult.commute)
    with Suc True show ?thesis by (simp add: utoa_digits_step)
  next
    case False
    then show ?thesis by (simp add: word_gt_0)
  qed
qed

lemma utoa_digits_set:
  "base > 1 \<Longrightarrow> base \<le> 16 \<Longrightarrow> set (utoa_digits v base) \<subseteq> set (take (unat base) digits)"
proof (induction v base rule: utoa_digits.induct)
  case (1 v b)
  have "unat (v mod b) < unat b"
    using base_unat [OF "1.prems"] by (simp add: unat_mod)
  then have "digits ! unat (v mod b) \<in> set (take (unat b) digits)"
    using base_unat [OF "1.prems"] by (auto simp: in_set_conv_nth intro!: exI [of _ "unat (v mod b)"])
  with 1 show ?case by (cases "v > 0") (auto simp: utoa_digits_step word_gt_0)
qed

lemma utoa_digits_last:
  "base > 1 \<Longrightarrow> base \<le> 16 \<Longrightarrow> v > 0 \<Longrightarrow> last (utoa_digits v base) \<noteq> 48"
proof (induction v base rule: utoa_digits.induct)
  case (1 v b)
  note b = base_unat [OF "1.prems"(1,2)]
  show ?case
  proof (cases "v div b > 0")
    case True
    then have "utoa_digits (v div b) b \<noteq> []" using 1 by (simp add: utoa_digits_step)
    with 1 True show ?thesis by (simp add: utoa_digits_step [of v])
  next
    case False
    then have z: "v div b = 0" by (simp add: word_gt_0)
    then have "unat v div unat b = 0" by (simp add: unat_div [symmetric] word_gt_0)
    then have "unat v < unat b" using b by (simp add: div_eq_0_iff)
    then have m: "unat (v mod b) = unat v" "unat v < 16" using b by (simp_all add: unat_mod)
    have "unat v \<noteq> 0" using "1.prems" by (simp add: word_gt_0 unat_eq_zero)
    with 1 m z show ?thesis by (simp add: utoa_digits_step [of v] digit_zero_iff)
  qed
qed

lemma word_base:
  assumes "2 \<le> base" "base \<le> 16"
  shows "unat (word_of_int base :: u32) = nat base"
    and "(word_of_int base :: u32) > 1" and "(word_of_int base :: u32) \<le> 16"
proof -
  have "uint (word_of_int base :: u32) = base"
    using assms by (simp add: uint_word_of_int)
  with assms show "unat (word_of_int base :: u32) = nat base"
    and "(word_of_int base :: u32) > 1" and "(word_of_int base :: u32) \<le> 16"
    by (simp_all add: word_less_def word_le_def flip: nat_uint_eq)
qed

lemmas word_base_unat = word_base(1)
lemmas word_base_gt = word_base(2)
lemmas word_base_le = word_base(3)

lemma utoa_text_value:
  assumes "2 \<le> base" "base \<le> 16"
  shows "numeral_value (nat base) (utoa_text v base) = unat v"
  using utoa_digits_value [OF word_base_gt [OF assms] word_base_le [OF assms], of v] assms
  by (auto simp: utoa_text_def word_base_unat numeral_value_def digit_value_def)

lemma utoa_text_length:
  assumes "2 \<le> base" "base \<le> 16" "unat v < nat base ^ n" "0 < n"
  shows "length (utoa_text v base) \<le> n"
  using utoa_digits_length [OF word_base_gt [OF assms(1,2)] word_base_le [OF assms(1,2)], of v n] assms
  by (auto simp: utoa_text_def word_base_unat)

lemma utoa_text_set:
  assumes "2 \<le> base" "base \<le> 16"
  shows "set (utoa_text v base) \<subseteq> set (take (nat base) digits)"
proof -
  have "48 \<in> set (take (nat base) digits)"
    using assms by (auto simp: digits_eq take_Cons' )
  with utoa_digits_set [OF word_base_gt [OF assms] word_base_le [OF assms], of v] assms show ?thesis
    by (auto simp: utoa_text_def word_base_unat)
qed

lemma utoa_text_nonzero: "0 \<notin> set (utoa_text v base)"
proof (cases "2 \<le> base \<and> base \<le> 16")
  case True
  then have "set (utoa_text v base) \<subseteq> set digits"
    by (intro order_trans [OF utoa_text_set set_take_subset]) auto
  then show ?thesis by (auto simp: digits_eq)
next
  case False
  then show ?thesis by (auto simp: utoa_text_def)
qed

lemma utoa_text_hd:
  assumes "2 \<le> base" "base \<le> 16" "v \<noteq> 0"
  shows "utoa_text v base \<noteq> [] \<and> hd (utoa_text v base) \<noteq> 48"
proof -
  note b = word_base_gt [OF assms(1,2)] word_base_le [OF assms(1,2)]
  have "utoa_digits v (word_of_int base) \<noteq> []"
    using utoa_digits_step [OF _ b(1), of v] assms(3) by (simp add: word_gt_0)
  moreover have "last (utoa_digits v (word_of_int base)) \<noteq> 48"
    using utoa_digits_last [OF b, of v] assms(3) by (simp add: word_gt_0)
  ultimately show ?thesis using assms by (simp add: utoa_text_def hd_rev)
qed

lemma utoa_text_length_10: "length (utoa_text v 10) \<le> 10"
  using utoa_text_length [of 10 v 10] unat_u32 [of v] by simp

lemma utoa_text_length_any:
  assumes "2 \<le> base" "base \<le> 16"
  shows "length (utoa_text v base) \<le> 32"
proof -
  have "(2::nat) ^ 32 \<le> nat base ^ 32" using assms by (intro power_mono) auto
  with unat_u32 [of v] have "unat v < nat base ^ 32" by simp
  with assms show ?thesis by (intro utoa_text_length) auto
qed

lemma utoa_fits:
  "length (utoa_text v base) < length buffer \<Longrightarrow>
   utoa v buffer base =
     Some (utoa_text v base @ 0 # drop (Suc (length (utoa_text v base))) buffer)"
  by (simp add: utoa_def awrite_def)

lemma utoa_10 [c_access]:
  "12 \<le> length buffer \<Longrightarrow>
   \<exists>b. utoa v buffer 10 = Some b \<and> text_of b = utoa_text v 10 \<and> terminated b \<and>
       length b = length buffer"
  using utoa_text_length_10 [of v]
  by (subst utoa_fits) (auto simp: text_of_append_zero utoa_text_nonzero)

end
