(* ===== verification/CMemory.thy ===== *)
theory CMemory
  imports CString
begin

text \<open>
  \<^verbatim>\<open>lib/string.c\<close> over the memory of the machine. The kernel runs without paging in a flat
  4 GiB address space, so memory is a total function from 32-bit addresses to bytes and pointer
  arithmetic wraps. Source and destination may overlap. Loops over \<open>count\<close> recurse on its
  value; loops that look for a terminator are partial functions, \<^const>\<open>None\<close> when
  they run for ever.
\<close>

type_synonym mem = "u32 \<Rightarrow> u8"

subsection \<open>The routines\<close>

fun set_loop :: "mem \<Rightarrow> u32 \<Rightarrow> u8 \<Rightarrow> nat \<Rightarrow> mem" where
  "set_loop m p v 0 = m"
| "set_loop m p v (Suc n) = set_loop (m(p := v)) (p + 1) v n"

definition mem_set :: "mem \<Rightarrow> u32 \<Rightarrow> u32 \<Rightarrow> u32 \<Rightarrow> mem" where
  "mem_set m dest v count = set_loop m dest (ucast v) (unat count)"

fun copy_up :: "mem \<Rightarrow> u32 \<Rightarrow> u32 \<Rightarrow> nat \<Rightarrow> mem" where
  "copy_up m d s 0 = m"
| "copy_up m d s (Suc n) = copy_up (m(d := m s)) (d + 1) (s + 1) n"

fun copy_down :: "mem \<Rightarrow> u32 \<Rightarrow> u32 \<Rightarrow> nat \<Rightarrow> mem" where
  "copy_down m d s 0 = m"
| "copy_down m d s (Suc n) = copy_down (m(d - 1 := m (s - 1))) (d - 1) (s - 1) n"

definition mem_cpy :: "mem \<Rightarrow> u32 \<Rightarrow> u32 \<Rightarrow> u32 \<Rightarrow> mem" where
  "mem_cpy m dest src count = copy_up m dest src (unat count)"

definition mem_move :: "mem \<Rightarrow> u32 \<Rightarrow> u32 \<Rightarrow> u32 \<Rightarrow> mem" where
  "mem_move m dest src count =
     (if dest < src then copy_up m dest src (unat count)
      else copy_down m (dest + count) (src + count) (unat count))"

fun cmp_loop :: "mem \<Rightarrow> u32 \<Rightarrow> u32 \<Rightarrow> nat \<Rightarrow> int" where
  "cmp_loop m p q 0 = 0"
| "cmp_loop m p q (Suc n) =
     (if m p \<noteq> m q then uint (m p) - uint (m q) else cmp_loop m (p + 1) (q + 1) n)"

definition mem_cmp :: "mem \<Rightarrow> u32 \<Rightarrow> u32 \<Rightarrow> u32 \<Rightarrow> int" where
  "mem_cmp m a b count = cmp_loop m a b (unat count)"

partial_function (option) strlen_loop :: "mem \<Rightarrow> u32 \<Rightarrow> u32 \<Rightarrow> u32 option" where
  "strlen_loop m s n = (if m (s + n) \<noteq> 0 then strlen_loop m s (n + 1) else Some n)"

definition mem_strlen :: "mem \<Rightarrow> u32 \<Rightarrow> u32 option" where
  "mem_strlen m s = strlen_loop m s 0"

partial_function (option) mem_strcmp :: "mem \<Rightarrow> u32 \<Rightarrow> u32 \<Rightarrow> int option" where
  "mem_strcmp m a b =
     (if m a \<noteq> 0 \<and> m a = m b then mem_strcmp m (a + 1) (b + 1)
      else Some (uint (m a) - uint (m b)))"

fun strncmp_loop :: "mem \<Rightarrow> u32 \<Rightarrow> u32 \<Rightarrow> nat \<Rightarrow> int" where
  "strncmp_loop m a b 0 = 0"
| "strncmp_loop m a b (Suc n) =
     (if m a \<noteq> 0 \<and> m a = m b then strncmp_loop m (a + 1) (b + 1) n
      else uint (m a) - uint (m b))"

definition mem_strncmp :: "mem \<Rightarrow> u32 \<Rightarrow> u32 \<Rightarrow> u32 \<Rightarrow> int" where
  "mem_strncmp m a b count = strncmp_loop m a b (unat count)"

partial_function (option) mem_strcpy :: "mem \<Rightarrow> u32 \<Rightarrow> u32 \<Rightarrow> mem option" where
  "mem_strcpy m d s =
     (if m s \<noteq> 0 then mem_strcpy (m(d := m s)) (d + 1) (s + 1) else Some (m(d := m s)))"

text \<open>\<open>utoa\<close>: the digits are stored ones first, then the two ends are swapped inwards.\<close>

function store_digits :: "mem \<Rightarrow> u32 \<Rightarrow> u32 \<Rightarrow> u32 \<Rightarrow> u32 \<Rightarrow> mem \<times> u32" where
  "store_digits m buffer len v base =
     (if v > 0 \<and> base > 1
      then store_digits (m(buffer + len := digits ! unat (v mod base))) buffer (len + 1)
             (v div base) base
      else (m, len))"
  by pat_completeness auto
termination
proof (relation "measure (\<lambda>(m, buffer, len, v, b). unat v)")
  fix m :: mem and buffer len v b :: u32
  assume "v > 0 \<and> b > 1"
  then have "unat v > 0" "unat b > 1"
    by (simp_all add: word_less_nat_alt unat_gt_0)
  then show "((m(buffer + len := digits ! unat (v mod b)), buffer, len + 1, v div b, b),
      (m, buffer, len, v, b)) \<in> measure (\<lambda>(m, buffer, len, v, b). unat v)"
    by (simp add: unat_div)
qed simp

declare store_digits.simps [simp del]

fun swap_ends :: "mem \<Rightarrow> u32 \<Rightarrow> u32 \<Rightarrow> u32 \<Rightarrow> nat \<Rightarrow> mem" where
  "swap_ends m buffer len i 0 = m"
| "swap_ends m buffer len i (Suc n) =
     swap_ends (m(buffer + i := m (buffer + (len - 1 - i)),
                  buffer + (len - 1 - i) := m (buffer + i))) buffer len (i + 1) n"

definition mem_utoa :: "mem \<Rightarrow> u32 \<Rightarrow> u32 \<Rightarrow> int \<Rightarrow> mem" where
  "mem_utoa m v buffer base =
     (if base < 2 \<or> base > 16 then m(buffer := 0)
      else if v = 0 then m(buffer := 48, buffer + 1 := 0)
      else (let (m, len) = store_digits m buffer 0 v (word_of_int base);
                m = m(buffer + len := 0)
            in swap_ends m buffer len 0 (unat (len div 2))))"

definition mem_itoa :: "mem \<Rightarrow> u32 \<Rightarrow> u32 \<Rightarrow> int \<Rightarrow> mem option" where
  "mem_itoa m v buffer base =
     (if base = 10 \<and> sint v < 0
      then map_option (\<lambda>n. mem_utoa (m(buffer := 45)) n (buffer + 1) base) (neg_long v)
      else Some (mem_utoa m v buffer base))"

subsection \<open>Regions of memory\<close>

text \<open>The \<open>n\<close> bytes from \<open>p\<close>, and the test whether an address is one of them.\<close>

fun bytes_at :: "mem \<Rightarrow> u32 \<Rightarrow> nat \<Rightarrow> bytes" where
  "bytes_at m p 0 = []"
| "bytes_at m p (Suc n) = m p # bytes_at m (p + 1) n"

definition within :: "u32 \<Rightarrow> u32 \<Rightarrow> nat \<Rightarrow> bool" where
  "within a p n \<longleftrightarrow> unat (a - p) < n"

lemma length_bytes_at [simp]: "length (bytes_at m p n) = n"
  by (induction n arbitrary: p) auto

lemma bytes_at_nth: "i < n \<Longrightarrow> bytes_at m p n ! i = m (p + of_nat i)"
  by (induction n arbitrary: p i) (auto simp: nth_Cons algebra_simps split: nat.splits)

lemma bytes_at_add: "bytes_at m p (k + n) = bytes_at m p k @ bytes_at m (p + of_nat k) n"
  by (induction k arbitrary: p) (simp_all add: algebra_simps)

lemma unat_offset: "i < 4294967296 \<Longrightarrow> unat (of_nat i :: u32) = i"
  by (simp add: unat_of_nat)

lemma unat_neg_offset:
  assumes "0 < c" "c < 4294967296"
  shows "unat (- of_nat c :: u32) = 4294967296 - c"
proof -
  have "(of_nat (4294967296 - c) :: u32) = of_nat 4294967296 - of_nat c"
    using assms by (intro of_nat_diff) simp
  also have "(of_nat 4294967296 :: u32) = 0" by (simp add: word_eq_iff_unsigned unsigned_of_nat)
  finally have "(- of_nat c :: u32) = of_nat (4294967296 - c)" by simp
  then have "unat (- of_nat c :: u32) = unat (of_nat (4294967296 - c) :: u32)" by (rule arg_cong)
  also have "\<dots> = 4294967296 - c" using assms by (intro unat_offset) simp
  finally show ?thesis .
qed

lemma within_offset: "i < n \<Longrightarrow> n \<le> 4294967296 \<Longrightarrow> within (p + of_nat i) p n"
  by (simp add: within_def unat_offset)

lemma withinD: "within a p n \<Longrightarrow> \<exists>i < n. a = p + of_nat i"
  unfolding within_def by (rule exI [of _ "unat (a - p)"]) simp

lemma within_step:
  assumes "\<not> within a p (Suc n)"
  shows "a \<noteq> p \<and> \<not> within a (p + 1) n"
proof -
  have "a \<noteq> p" using assms by (auto simp: within_def)
  then have "a - p \<noteq> 0" by simp
  then have "unat (a - p - 1) = unat (a - p) - 1"
    by (metis unat_minus_one)
  then show ?thesis
    using assms \<open>a \<noteq> p\<close> by (auto simp: within_def diff_diff_eq)
qed

lemma bytes_at_cong:
  "(\<And>a. within a p n \<Longrightarrow> m a = m' a) \<Longrightarrow> n \<le> 4294967296 \<Longrightarrow> bytes_at m p n = bytes_at m' p n"
  by (rule nth_equalityI) (auto simp: bytes_at_nth within_offset)

lemma bytes_at_upd: "\<not> within a p n \<Longrightarrow> n \<le> 4294967296 \<Longrightarrow> bytes_at (m(a := v)) p n = bytes_at m p n"
  by (rule bytes_at_cong) auto

subsection \<open>Filling and copying\<close>

lemma set_loop_other: "\<not> within a p n \<Longrightarrow> set_loop m p v n a = m a"
  by (induction n arbitrary: m p) (auto dest: within_step)

lemma copy_up_other: "\<not> within a d n \<Longrightarrow> copy_up m d s n a = m a"
  by (induction n arbitrary: m d s) (auto dest: within_step)

lemma not_within_before: "n < 4294967296 \<Longrightarrow> \<not> within p (p + 1) n"
  by (simp add: within_def unsigned_minus_1_eq_mask mask_eq_exp_minus_1)

lemma set_loop_bytes: "n \<le> 4294967296 \<Longrightarrow> bytes_at (set_loop m p v n) p n = replicate n v"
  by (induction n arbitrary: m p) (auto simp: set_loop_other not_within_before)

text \<open>Copying upwards is right when no byte is overwritten before it is read.\<close>

lemma copy_up_bytes:
  "n \<le> 4294967296 \<Longrightarrow> (\<And>i j. i < j \<Longrightarrow> j < n \<Longrightarrow> d + of_nat i \<noteq> s + of_nat j) \<Longrightarrow>
   bytes_at (copy_up m d s n) d n = bytes_at m s n"
proof (induction n arbitrary: m d s)
  case 0
  then show ?case by simp
next
  case (Suc n)
  have step: "d + 1 + of_nat i \<noteq> s + 1 + of_nat j" if "i < j" "j < n" for i j
    using Suc.prems(2) [of "Suc i" "Suc j"] that by (simp add: algebra_simps)
  have keep: "\<not> within d (s + 1) n"
  proof
    assume "within d (s + 1) n"
    then obtain j where "j < n" "d = s + 1 + of_nat j" by (auto dest: withinD)
    with Suc.prems(2) [of 0 "Suc j"] show False by (simp add: algebra_simps)
  qed
  have "bytes_at (copy_up (m(d := m s)) (d + 1) (s + 1) n) (d + 1) n
      = bytes_at (m(d := m s)) (s + 1) n"
    using Suc.prems(1) step by (intro Suc.IH) auto
  with keep Suc.prems(1) show ?case
    by (simp add: copy_up_other not_within_before bytes_at_upd)
qed

lemma copy_down_other:
  "\<not> within a d n \<Longrightarrow> copy_down m (d + of_nat n) (s + of_nat n) n a = m a"
proof (induction n arbitrary: m)
  case 0
  then show ?case by simp
next
  case (Suc n)
  have "\<not> within a d n" using Suc.prems by (simp add: within_def)
  moreover have "a \<noteq> d + of_nat n" using Suc.prems
    by (cases "Suc n \<le> 4294967296") (auto simp: within_def unat_of_nat)
  ultimately show ?case using Suc.IH by (simp add: algebra_simps)
qed

lemma copy_down_bytes:
  "n \<le> 4294967296 \<Longrightarrow> (\<And>i j. i < j \<Longrightarrow> j < n \<Longrightarrow> s + of_nat i \<noteq> d + of_nat j) \<Longrightarrow>
   bytes_at (copy_down m (d + of_nat n) (s + of_nat n) n) d n = bytes_at m s n"
proof (induction n arbitrary: m)
  case 0
  then show ?case by simp
next
  case (Suc n)
  let ?m = "m(d + of_nat n := m (s + of_nat n))"
  have last: "\<not> within (d + of_nat n) d n"
    using Suc.prems(1) by (simp add: within_def unat_offset)
  have keep: "\<not> within (d + of_nat n) s n"
    using Suc.prems(2) by (metis lessI withinD)
  have "bytes_at (copy_down ?m (d + of_nat n) (s + of_nat n) n) d n = bytes_at ?m s n"
    using Suc.prems by (intro Suc.IH) auto
  then have "bytes_at (copy_down ?m (d + of_nat n) (s + of_nat n) n) d (n + 1) =
      bytes_at m s (n + 1)"
    unfolding bytes_at_add using keep last Suc.prems(1)
    by (simp add: copy_down_other bytes_at_upd)
  then show ?case by (simp add: algebra_simps)
qed

text \<open>
  Two regions that do not wrap round the end of the address space: \<open>memmove\<close> reads every
  source byte before it overwrites it, however the regions overlap.
\<close>

lemma mem_move_up:
  fixes dest src :: u32
  assumes "dest < src" "unat src + n \<le> 4294967296" "i < j" "j < n"
  shows "dest + of_nat i \<noteq> src + of_nat j"
proof -
  have "unat (dest + of_nat i) = unat dest + i" "unat (src + of_nat j) = unat src + j"
    using assms by (simp_all add: unat_word_ariths unat_of_nat word_less_nat_alt)
  with assms show ?thesis by (auto simp: word_less_nat_alt)
qed

lemma mem_move_down:
  fixes dest src :: u32
  assumes "\<not> dest < src" "unat dest + n \<le> 4294967296" "i < j" "j < n"
  shows "src + of_nat i \<noteq> dest + of_nat j"
proof -
  have "unat (dest + of_nat j) = unat dest + j" "unat (src + of_nat i) = unat src + i"
    using assms by (simp_all add: unat_word_ariths unat_of_nat word_less_nat_alt)
  with assms show ?thesis by (auto simp: word_less_nat_alt)
qed

lemma mem_move_bytes:
  assumes "unat src + unat count \<le> 4294967296" "unat dest + unat count \<le> 4294967296"
  shows "bytes_at (mem_move m dest src count) dest (unat count) = bytes_at m src (unat count)"
proof (cases "dest < src")
  case True
  then show ?thesis
    using copy_up_bytes [of "unat count" dest src m] mem_move_up [OF True assms(1)]
      unat_u32 [of count] by (simp add: mem_move_def)
next
  case False
  have "bytes_at (copy_down m (dest + of_nat (unat count)) (src + of_nat (unat count)) (unat count))
      dest (unat count) = bytes_at m src (unat count)"
    using mem_move_down [OF False assms(2)] unat_u32 [of count]
    by (intro copy_down_bytes) auto
  with False show ?thesis by (simp add: mem_move_def)
qed

lemma mem_move_other:
  assumes "\<not> within a dest (unat count)"
  shows "mem_move m dest src count a = m a"
  using assms copy_down_other [of a dest "unat count" m src]
  by (simp add: mem_move_def copy_up_other)

subsection \<open>Agreement with the routines on arrays\<close>

lemma bytes_at_write:
  assumes "k + n \<le> L" "L \<le> 4294967296" "bytes_at m' (p + of_nat k) n = ys"
    and same: "\<And>a. \<not> within a (p + of_nat k) n \<Longrightarrow> m' a = m a"
  shows "Some (bytes_at m' p L) = awrite (bytes_at m p L) k ys"
proof -
  let ?r = "L - (k + n)"
  have L: "L = k + (n + ?r)" using assms(1) by simp
  have before: "bytes_at m' p k = bytes_at m p k"
  proof (rule bytes_at_cong)
    fix a assume "within a p k"
    then obtain i where i: "i < k" "a = p + of_nat i" by (auto dest: withinD)
    then have "a - (p + of_nat k) = - of_nat (k - i)" by (simp add: of_nat_diff)
    moreover have "unat (- of_nat (k - i) :: u32) = 4294967296 - (k - i)" if "n \<noteq> 0"
      using i that assms(1,2) by (intro unat_neg_offset) auto
    ultimately have "\<not> within a (p + of_nat k) n"
      using i assms(1,2) by (cases "n = 0") (simp_all add: within_def)
    then show "m' a = m a" by (rule same)
  qed (use assms in auto)
  have after: "bytes_at m' (p + of_nat k + of_nat n) ?r = bytes_at m (p + of_nat k + of_nat n) ?r"
  proof (rule bytes_at_cong)
    fix a assume "within a (p + of_nat k + of_nat n) ?r"
    then obtain i where "i < ?r" and "a = p + of_nat k + of_nat (n + i)"
      by (auto dest: withinD simp: algebra_simps)
    moreover have "unat (of_nat (n + i) :: u32) = n + i"
      using \<open>i < ?r\<close> assms(1,2) by (intro unat_offset) simp
    ultimately have "\<not> within a (p + of_nat k) n"
      by (simp add: within_def del: of_nat_add)
    then show "m' a = m a" by (rule same)
  qed (use assms in auto)
  have m': "bytes_at m' p L = bytes_at m p k @ ys @ bytes_at m (p + of_nat k + of_nat n) ?r"
    using before after assms(3) by (subst L) (simp add: bytes_at_add algebra_simps)
  have m: "bytes_at m p L =
      bytes_at m p k @ bytes_at m (p + of_nat k) n @ bytes_at m (p + of_nat k + of_nat n) ?r"
    by (subst L) (simp add: bytes_at_add algebra_simps)
  have "length ys = n" using assms(3) by auto
  with m m' assms(1) show ?thesis by (simp add: awrite_def)
qed

lemma mem_set_refines:
  assumes "k + unat count \<le> L" "L \<le> 4294967296"
  shows "Some (bytes_at (mem_set m (p + of_nat k) v count) p L) =
         memset (bytes_at m p L) k (ucast v) (unat count)"
  unfolding mem_set_def memset_def
  using assms by (intro bytes_at_write) (auto simp: set_loop_bytes set_loop_other)

text \<open>The hypothesis of \<open>memcpy\<close>: no byte of the destination is a byte of the source.\<close>

definition disjoint_regions :: "u32 \<Rightarrow> u32 \<Rightarrow> nat \<Rightarrow> bool" where
  "disjoint_regions d s n \<longleftrightarrow> (\<forall>i < n. \<forall>j < n. d + of_nat i \<noteq> s + of_nat j)"

lemma disjoint_regionsD:
  "disjoint_regions d s n \<Longrightarrow> i < n \<Longrightarrow> j < n \<Longrightarrow> d + of_nat i \<noteq> s + of_nat j"
  by (auto simp: disjoint_regions_def)

lemma copy_up_disjoint:
  "disjoint_regions d s n \<Longrightarrow> n \<le> 4294967296 \<Longrightarrow> bytes_at (copy_up m d s n) d n = bytes_at m s n"
  by (rule copy_up_bytes) (auto simp: disjoint_regions_def)

lemma mem_cpy_refines:
  assumes "k + unat count \<le> L" "L \<le> 4294967296" "unat count \<le> N"
    and "disjoint_regions (p + of_nat k) s (unat count)"
  shows "Some (bytes_at (mem_cpy m (p + of_nat k) s count) p L) =
         memcpy (bytes_at m p L) k (bytes_at m s N) (unat count)"
proof -
  have "take (unat count) (bytes_at m s N) = bytes_at m s (unat count)"
    using bytes_at_add [of m s "unat count" "N - unat count"] assms(3) by simp
  moreover have "Some (bytes_at (copy_up m (p + of_nat k) s (unat count)) p L) =
      awrite (bytes_at m p L) k (bytes_at m s (unat count))"
    using assms by (intro bytes_at_write) (auto simp: copy_up_disjoint copy_up_other)
  ultimately show ?thesis
    using assms(3) by (simp add: memcpy_def mem_cpy_def)
qed

lemma mem_strlen_refines:
  "strlen (bytes_at m p n) = Some k \<Longrightarrow> mem_strlen m p = Some (of_nat k)"
proof -
  have "strlen_loop m s i = Some (i + of_nat k)"
    if "strlen (bytes_at m (s + i) n) = Some k" for s i
    using that
  proof (induction n arbitrary: i k)
    case (Suc n)
    then show ?case
      by (subst strlen_loop.simps) (auto split: if_splits simp: algebra_simps)
  qed simp
  from this [of p 0] show "strlen (bytes_at m p n) = Some k \<Longrightarrow> mem_strlen m p = Some (of_nat k)"
    by (simp add: mem_strlen_def)
qed

lemma mem_strcmp_refines:
  "strcmp (bytes_at m p n) (bytes_at m q k) = Some r \<Longrightarrow> mem_strcmp m p q = Some r"
proof (induction n arbitrary: p q k)
  case (Suc n)
  then obtain k' where "k = Suc k'" by (cases k) auto
  with Suc show ?case by (subst mem_strcmp.simps) (auto split: if_splits)
qed simp

lemma mem_strncmp_refines:
  "strncmp (bytes_at m p n) (bytes_at m q k) (unat count) = Some r \<Longrightarrow>
   mem_strncmp m p q count = r"
proof -
  have "strncmp_loop m p q c = r" if "strncmp (bytes_at m p n) (bytes_at m q k) c = Some r" for p q c
    using that
  proof (induction c arbitrary: p q n k)
    case (Suc c)
    then obtain n' k' where "n = Suc n'" "k = Suc k'" by (cases n; cases k) auto
    with Suc show ?case by (auto split: if_splits)
  qed simp
  then show "strncmp (bytes_at m p n) (bytes_at m q k) (unat count) = Some r \<Longrightarrow>
      mem_strncmp m p q count = r"
    by (simp add: mem_strncmp_def)
qed

lemma mem_cmp_refines:
  "memcmp (bytes_at m p n) (bytes_at m q k) (unat count) = Some r \<Longrightarrow> mem_cmp m p q count = r"
proof -
  have "cmp_loop m p q c = r" if "memcmp (bytes_at m p n) (bytes_at m q k) c = Some r" for p q c
    using that
  proof (induction c arbitrary: p q n k)
    case (Suc c)
    then obtain n' k' where "n = Suc n'" "k = Suc k'" by (cases n; cases k) auto
    with Suc show ?case by (auto split: if_splits)
  qed simp
  then show "memcmp (bytes_at m p n) (bytes_at m q k) (unat count) = Some r \<Longrightarrow>
      mem_cmp m p q count = r"
    by (simp add: mem_cmp_def)
qed

text \<open>\<open>strcpy\<close> copies up to the terminator, provided it does not overwrite it first.\<close>

lemma strlen_bytes_at:
  "strlen (bytes_at m s n) = Some k \<Longrightarrow>
   (\<forall>i < k. m (s + of_nat i) \<noteq> 0) \<and> m (s + of_nat k) = 0 \<and> k < n"
proof (induction n arbitrary: s k)
  case (Suc n)
  show ?case
  proof (cases "m s = 0")
    case True
    with Suc.prems show ?thesis by simp
  next
    case False
    then obtain k' where k: "k = Suc k'" "strlen (bytes_at m (s + 1) n) = Some k'"
      using Suc.prems by auto
    have "m (s + of_nat i) \<noteq> 0" if "i < k" for i
      using that Suc.IH [OF k(2)] False k(1) by (cases i) (auto simp: algebra_simps)
    with Suc.IH [OF k(2)] k(1) show ?thesis by (auto simp: algebra_simps)
  qed
qed simp

lemma mem_strcpy_copy:
  "(\<forall>i < k. m (s + of_nat i) \<noteq> 0) \<Longrightarrow> m (s + of_nat k) = 0 \<Longrightarrow>
   disjoint_regions d s (Suc k) \<Longrightarrow> mem_strcpy m d s = Some (copy_up m d s (Suc k))"
proof (induction k arbitrary: m d s)
  case 0
  then show ?case by (subst mem_strcpy.simps) simp
next
  case (Suc k)
  let ?m = "m(d := m s)"
  have other: "d \<noteq> s + 1 + of_nat j" if "j \<le> k" for j
    using disjoint_regionsD [OF Suc.prems(3), of 0 "Suc j"] that by (simp add: algebra_simps)
  have "disjoint_regions (d + 1) (s + 1) (Suc k)"
    unfolding disjoint_regions_def
  proof (intro allI impI)
    fix i j assume "i < Suc k" "j < Suc k"
    then have "d + of_nat (Suc i) \<noteq> s + of_nat (Suc j)"
      by (intro disjoint_regionsD [OF Suc.prems(3)]) auto
    then show "d + 1 + of_nat i \<noteq> s + 1 + of_nat j" by (simp add: algebra_simps)
  qed
  moreover have "?m (s + 1 + of_nat i) \<noteq> 0" if "i < k" for i
    using Suc.prems(1) that other [of i] by (auto dest!: spec [of _ "Suc i"] simp: algebra_simps)
  moreover have "?m (s + 1 + of_nat k) = 0"
    using Suc.prems(2) other [of k] by (simp add: algebra_simps)
  ultimately have "mem_strcpy ?m (d + 1) (s + 1) = Some (copy_up ?m (d + 1) (s + 1) (Suc k))"
    by (intro Suc.IH) auto
  moreover have "m s \<noteq> 0" using Suc.prems(1) by (auto dest!: spec [of _ 0])
  ultimately show ?case by (subst mem_strcpy.simps) simp
qed

lemma mem_strcpy_refines:
  assumes "strcpy (bytes_at m d L) (bytes_at m s N) = Some xs" "L \<le> 4294967296"
    and "disjoint_regions d s (Suc (length (text_of (bytes_at m s N))))"
  shows "map_option (\<lambda>m'. bytes_at m' d L) (mem_strcpy m d s) = Some xs"
proof -
  let ?k = "length (text_of (bytes_at m s N))"
  from assms(1) obtain k where k: "strlen (bytes_at m s N) = Some k"
    "memcpy (bytes_at m d L) 0 (bytes_at m s N) (Suc k) = Some xs"
    by (auto simp: strcpy_def split: bind_splits)
  then have kk: "k = ?k" by (auto simp: strlen_eq split: if_splits)
  from k(2) have le: "Suc k \<le> L" "Suc k \<le> N"
    by (auto simp: memcpy_def awrite_def min_def split: if_splits)
  have cp: "mem_strcpy m d s = Some (copy_up m d s (Suc k))"
    using strlen_bytes_at [OF k(1)] assms(3) kk by (intro mem_strcpy_copy) auto
  show ?thesis
  proof (cases "Suc k < 4294967296")
    case True
    have "unat (of_nat (Suc k) :: u32) = Suc k" using True by (rule unat_offset)
    with mem_cpy_refines [of 0 "of_nat (Suc k)" L N d s m] le assms(2,3) kk k(2) cp
    show ?thesis by (simp del: of_nat_Suc copy_up.simps add: mem_cpy_def)
  next
    case False
    with le assms(2) have "Suc k = 4294967296" by simp
    with assms(3) kk have "d + of_nat 0 \<noteq> s + of_nat (unat (d - s))"
      using unat_u32 [of "d - s"] by (intro disjoint_regionsD [OF assms(3)]) auto
    then show ?thesis by simp
  qed
qed

text \<open>\<open>utoa\<close>: the digits ones first, then the reversal in place.\<close>

lemma store_digits_simps:
  "v > 0 \<Longrightarrow> base > 1 \<Longrightarrow>
   store_digits m p len v base =
     store_digits (m(p + len := digits ! unat (v mod base))) p (len + 1) (v div base) base"
  "store_digits m p len 0 base = (m, len)"
  by (subst store_digits.simps, simp)+

lemma store_digits_spec:
  "base > 1 \<Longrightarrow> base \<le> 16 \<Longrightarrow> length (utoa_digits v base) \<le> n \<Longrightarrow> n < 4294967296 \<Longrightarrow>
   store_digits m p len v base = (m', len') \<Longrightarrow>
   len' = len + of_nat (length (utoa_digits v base)) \<and>
   bytes_at m' (p + len) (length (utoa_digits v base)) = utoa_digits v base \<and>
   (\<forall>a. \<not> within a (p + len) (length (utoa_digits v base)) \<longrightarrow> m' a = m a)"
proof (induction n arbitrary: m len v)
  case 0
  then have "v = 0" by (cases "v > 0") (simp_all add: utoa_digits_step word_gt_0)
  with 0 show ?case by (simp add: store_digits_simps)
next
  case (Suc n)
  show ?case
  proof (cases "v > 0")
    case False
    then have "v = 0" by (simp add: word_gt_0)
    with Suc.prems show ?thesis by (simp add: store_digits_simps)
  next
    case True
    let ?c = "digits ! unat (v mod base)" and ?ds = "utoa_digits (v div base) base"
    have ds: "utoa_digits v base = ?c # ?ds"
      using True Suc.prems by (simp add: utoa_digits_step)
    have st: "store_digits (m(p + len := ?c)) p (len + 1) (v div base) base = (m', len')"
      using Suc.prems True by (simp add: store_digits_simps)
    have le: "length ?ds \<le> n" using Suc.prems(3) ds by simp
    from Suc.IH [OF Suc.prems(1,2) le _ st] Suc.prems(4)
    have IH: "len' = len + 1 + of_nat (length ?ds)"
      "bytes_at m' (p + len + 1) (length ?ds) = ?ds"
      "\<And>a. \<not> within a (p + len + 1) (length ?ds) \<Longrightarrow> m' a = (m(p + len := ?c)) a"
      by (simp_all add: algebra_simps)
    have "m' (p + len) = ?c"
      using IH(3) [OF not_within_before] le Suc.prems(4) by simp
    moreover have "m' a = m a" if "\<not> within a (p + len) (Suc (length ?ds))" for a
      using within_step [OF that] IH(3) [of a] by simp
    ultimately show ?thesis using IH(1,2) ds by (simp add: algebra_simps)
  qed
qed

lemma of_nat_offset_eq_iff:
  "i < 4294967296 \<Longrightarrow> j < 4294967296 \<Longrightarrow> (of_nat i :: u32) = of_nat j \<longleftrightarrow> i = j"
  by (metis add_left_cancel unat_offset)

lemma swap_index:
  fixes i j n L :: nat
  assumes "2 * (i + Suc n) \<le> L" "j < L"
  defines "x \<equiv> (if Suc i \<le> j \<and> j < Suc i + n \<or> L - Suc i - n \<le> j \<and> j < L - Suc i
      then L - 1 - j else j)"
  shows "(if x = i then L - 1 - i else if x = L - 1 - i then i else x) =
     (if i \<le> j \<and> j < i + Suc n \<or> L - i - Suc n \<le> j \<and> j < L - i then L - 1 - j else j)"
proof -
  consider "j = i" | "j = L - 1 - i" | "j \<noteq> i" "j \<noteq> L - 1 - i" by blast
  then show ?thesis
  proof cases
    case 1
    with assms(1) have "\<not> (Suc i \<le> j \<and> j < Suc i + n \<or> L - Suc i - n \<le> j \<and> j < L - Suc i)"
      by (intro notI, elim disjE conjE) (simp_all add: le_diff_conv less_diff_conv)
    then have "x = i" by (simp only: x_def if_False 1)
    with 1 assms(1,2) show ?thesis by auto
  next
    case 2
    with assms(1) have "\<not> (Suc i \<le> j \<and> j < Suc i + n \<or> L - Suc i - n \<le> j \<and> j < L - Suc i)"
      by (intro notI, elim disjE conjE) (simp_all add: le_diff_conv less_diff_conv)
    then have "x = L - 1 - i" by (simp only: x_def if_False 2)
    with 2 assms(1,2) show ?thesis by auto
  next
    case 3
    have "(Suc i \<le> j \<and> j < Suc i + n) \<longleftrightarrow> (i \<le> j \<and> j < i + Suc n)" using 3 by auto
    moreover have "(L - Suc i - n \<le> j \<and> j < L - Suc i) \<longleftrightarrow> (L - i - Suc n \<le> j \<and> j < L - i)"
      using 3 by auto
    moreover have "x \<noteq> i" "x \<noteq> L - 1 - i" using 3 assms(1,2) by (auto simp: x_def)
    ultimately show ?thesis by (simp only: x_def if_False)
  qed
qed

lemma swap_ends_nth:
  "i + n \<le> L div 2 \<Longrightarrow> L < 4294967296 \<Longrightarrow> j < L \<Longrightarrow>
   swap_ends m p (of_nat L) (of_nat i) n (p + of_nat j) =
     m (p + of_nat (if i \<le> j \<and> j < i + n \<or> L - i - n \<le> j \<and> j < L - i then L - 1 - j else j))"
proof (induction n arbitrary: m i)
  case 0
  then show ?case by auto
next
  case (Suc n)
  let ?k = "L - 1 - i"
  have k: "of_nat L - 1 - of_nat i = (of_nat ?k :: u32)" using Suc.prems by simp
  have ik: "i < L" "?k < L" "i < ?k \<or> Suc i = 0" using Suc.prems by auto
  let ?m = "m(p + of_nat i := m (p + of_nat ?k), p + of_nat ?k := m (p + of_nat i))"
  have at: "?m (p + of_nat x) = m (p + of_nat (if x = i then ?k else if x = ?k then i else x))"
    if "x < L" for x
    using that ik Suc.prems(2) by (auto simp: of_nat_offset_eq_iff simp del: of_nat_diff)
  have "swap_ends m p (of_nat L) (of_nat i) (Suc n) (p + of_nat j) =
      swap_ends ?m p (of_nat L) (of_nat (Suc i)) n (p + of_nat j)"
    unfolding swap_ends.simps k by (simp add: add.commute del: of_nat_diff)
  also have "\<dots> = ?m (p + of_nat (if Suc i \<le> j \<and> j < Suc i + n \<or> L - Suc i - n \<le> j \<and> j < L - Suc i
      then L - 1 - j else j))"
    using Suc.prems by (intro Suc.IH) auto
  also have "\<dots> = m (p + of_nat (let x = (if Suc i \<le> j \<and> j < Suc i + n \<or> L - Suc i - n \<le> j \<and> j < L - Suc i
      then L - 1 - j else j) in if x = i then ?k else if x = ?k then i else x))"
    using Suc.prems by (subst at) (simp_all add: Let_def)
  also have "\<dots> = m (p + of_nat (if i \<le> j \<and> j < i + Suc n \<or> L - i - Suc n \<le> j \<and> j < L - i
      then L - 1 - j else j))"
    unfolding Let_def by (subst swap_index) (use Suc.prems in auto)
  finally show ?case .
qed

lemma swap_ends_other:
  "i + n \<le> L div 2 \<Longrightarrow> L < 4294967296 \<Longrightarrow> \<not> within a p L \<Longrightarrow>
   swap_ends m p (of_nat L) (of_nat i) n a = m a"
proof (induction n arbitrary: m i)
  case (Suc n)
  let ?k = "L - 1 - i"
  have k: "of_nat L - 1 - of_nat i = (of_nat ?k :: u32)" using Suc.prems by simp
  have "a \<noteq> p + of_nat i" "a \<noteq> p + of_nat ?k"
    using Suc.prems within_offset [of _ L p] by (auto simp del: of_nat_diff)
  moreover have "swap_ends m' p (of_nat L) (of_nat (Suc i)) n a = m' a" for m'
    using Suc.prems by (intro Suc.IH) auto
  ultimately show ?case
    unfolding swap_ends.simps k by (simp add: add.commute del: of_nat_diff)
qed simp

lemma swap_ends_bytes:
  assumes "L < 4294967296"
  shows "bytes_at (swap_ends m p (of_nat L) 0 (L div 2)) p L = rev (bytes_at m p L)"
proof (rule nth_equalityI)
  fix j assume "j < length (bytes_at (swap_ends m p (of_nat L) 0 (L div 2)) p L)"
  then have j: "j < L" by simp
  have "(if 0 \<le> j \<and> j < 0 + L div 2 \<or> L - 0 - L div 2 \<le> j \<and> j < L - 0 then L - 1 - j else j)
      = L - 1 - j"
    using j by auto
  then have "swap_ends m p (of_nat L) (of_nat 0) (L div 2) (p + of_nat j) =
      m (p + of_nat (L - 1 - j))"
    using assms j by (subst swap_ends_nth) simp_all
  with j show "bytes_at (swap_ends m p (of_nat L) 0 (L div 2)) p L ! j = rev (bytes_at m p L) ! j"
    by (simp add: bytes_at_nth rev_nth)
qed simp

lemma within_upd_other: "\<not> within a p (Suc n) \<Longrightarrow> n < 4294967296 \<Longrightarrow> a \<noteq> p + of_nat n"
  by (auto simp: within_def unat_offset)

lemma within_Suc: "\<not> within a p (Suc n) \<Longrightarrow> \<not> within a p n"
  by (simp add: within_def)

lemma mem_utoa_bytes:
  "bytes_at (mem_utoa m v p base) p (Suc (length (utoa_text v base))) = utoa_text v base @ [0] \<and>
   (\<forall>a. \<not> within a p (Suc (length (utoa_text v base))) \<longrightarrow> mem_utoa m v p base a = m a)"
proof (cases "base < 2 \<or> base > 16 \<or> v = 0")
  case True
  then show ?thesis by (auto simp: mem_utoa_def utoa_text_def within_def)
next
  case False
  then have b: "2 \<le> base" "base \<le> 16" by auto
  let ?b = "word_of_int base :: u32" and ?ds = "utoa_digits v (word_of_int base)"
  let ?L = "length ?ds"
  have tx: "utoa_text v base = rev ?ds" using False by (simp add: utoa_text_def)
  have len: "?L \<le> 32" using utoa_text_length_any [OF b, of v] by (simp add: tx)
  obtain m1 len1 where sd: "store_digits m p 0 v ?b = (m1, len1)" by (cases "store_digits m p 0 v ?b")
  have spec: "len1 = of_nat ?L" "bytes_at m1 p ?L = ?ds"
    "\<And>a. \<not> within a p ?L \<Longrightarrow> m1 a = m a"
    using store_digits_spec [OF word_base_gt [OF b] word_base_le [OF b] len _ sd] by simp_all
  let ?m = "m1(p + of_nat ?L := 0)"
  have half: "unat (len1 div 2) = ?L div 2"
    using len by (simp add: spec(1) unat_div unat_offset)
  have res: "mem_utoa m v p base = swap_ends ?m p (of_nat ?L) (of_nat 0) (?L div 2)"
    using False sd half by (simp add: mem_utoa_def spec(1))
  have out: "\<not> within (p + of_nat ?L) p ?L" using len by (simp add: within_def unat_offset)
  have keep: "bytes_at ?m p ?L = ?ds" using bytes_at_upd [OF out] spec(2) len by simp
  have "swap_ends ?m p (of_nat ?L) (of_nat 0) (?L div 2) (p + of_nat ?L) = 0"
    using swap_ends_other [OF _ _ out, of 0] len by simp
  with keep have "bytes_at (mem_utoa m v p base) p (?L + 1) = utoa_text v base @ [0]"
    unfolding bytes_at_add res tx using swap_ends_bytes [of ?L ?m p] len by simp
  moreover have "mem_utoa m v p base a = m a" if "\<not> within a p (Suc ?L)" for a
    using len within_upd_other [OF that] within_Suc [OF that]
    unfolding res by (subst swap_ends_other) (simp_all add: spec(3))
  ultimately show ?thesis by (simp add: tx)
qed

lemma mem_utoa_refines:
  assumes "length (utoa_text v base) < L" "L \<le> 4294967296"
  shows "Some (bytes_at (mem_utoa m v p base) p L) = utoa v (bytes_at m p L) base"
  unfolding utoa_def
  using mem_utoa_bytes [of m v p base] assms
    bytes_at_write [of 0 "Suc (length (utoa_text v base))" L "mem_utoa m v p base" p _ m]
  by simp

end
