(* ===== verification/CString_Props.thy ===== *)
theory CString_Props
  imports CMemory
begin

text \<open>The properties of \<^verbatim>\<open>lib/string.c\<close> on the flat memory of the machine.\<close>

text \<open>
  C26: \<open>memmove\<close>. For any two regions that do not run past the end of the address space,
  overlapping in any way, the destination afterwards holds what the source held before, and no
  other byte of memory changes.
\<close>

theorem mem_move_correct:
  assumes "unat src + unat count \<le> 4294967296" "unat dest + unat count \<le> 4294967296"
  shows "bytes_at (mem_move m dest src count) dest (unat count) = bytes_at m src (unat count) \<and>
    (\<forall>a. \<not> within a dest (unat count) \<longrightarrow> mem_move m dest src count a = m a)"
  using mem_move_bytes [OF assms] mem_move_other by blast

theorem mem_move_correct_witness:
  "bytes_at (mem_move (\<lambda>a. ucast a) 12 10 5) 12 5 = [10, 11, 12, 13, 14]"
proof -
  have five: "unat (5 :: u32) = Suc (Suc (Suc (Suc (Suc 0))))" by simp
  have "bytes_at (\<lambda>a. ucast a) (10 :: u32) (unat (5 :: u32)) = [10, 11, 12, 13, 14]"
    unfolding five by simp
  with mem_move_correct [of 10 5 12 "\<lambda>a. ucast a"] show ?thesis by simp
qed

text \<open>
  \<open>strcmp\<close>. On two strings it returns; the result is zero exactly when the texts are equal
  and negative exactly when the first comes before the second in lexicographic order of
  unsigned bytes.
\<close>

theorem mem_strcmp_correct:
  assumes "terminated (bytes_at m a j)" "terminated (bytes_at m b k)"
  shows "\<exists>r. mem_strcmp m a b = Some r \<and>
    (r = 0 \<longleftrightarrow> text_of (bytes_at m a j) = text_of (bytes_at m b k)) \<and>
    (r < 0 \<longleftrightarrow> (text_of (bytes_at m a j), text_of (bytes_at m b k)) \<in> lexord {(x, y). x < y})"
proof -
  from strcmp_terminated [OF assms] obtain r where
    r: "strcmp (bytes_at m a j) (bytes_at m b k) = Some r" by blast
  with mem_strcmp_refines [OF r] strcmp_zero_iff [OF r assms] strcmp_less_iff [OF r assms]
  show ?thesis by blast
qed

theorem mem_strcmp_correct_witness:
  "\<exists>r. mem_strcmp (\<lambda>a. if a = 0 then 200 else if a = 8 then 65 else 0) 0 8 = Some r \<and> \<not> r < 0"
proof -
  let ?m = "\<lambda>a :: u32. if a = 0 then 200 else if a = 8 then 65 else (0 :: u8)"
  have two: "2 = Suc (Suc 0)" by simp
  have t: "bytes_at ?m 0 2 = [200, 0]" "bytes_at ?m 8 2 = [65, 0]" unfolding two by simp_all
  have "terminated (bytes_at ?m 0 2)" "terminated (bytes_at ?m 8 2)" by (simp_all only: t terminated_simps) simp_all
  from mem_strcmp_correct [OF this] show ?thesis by (simp only: t) auto
qed

text \<open>
  C27: \<open>utoa\<close>. For every value and every base from 2 to 16 the buffer holds a numeral of that base,
  terminated: its digits are digits of the base, there is no leading zero, and read back it is
  the value. Only the numeral and its terminator are written, at most 33 bytes.
\<close>

theorem mem_utoa_correct:
  assumes "2 \<le> base" "base \<le> 16"
  shows "\<exists>s. bytes_at (mem_utoa m v p base) p (Suc (length s)) = s @ [0] \<and> 0 \<notin> set s \<and>
    numeral_value (nat base) s = unat v \<and> set s \<subseteq> set (take (nat base) digits) \<and>
    s \<noteq> [] \<and> (v \<noteq> 0 \<longrightarrow> hd s \<noteq> 48) \<and> length s \<le> 32 \<and>
    (\<forall>a. \<not> within a p (Suc (length s)) \<longrightarrow> mem_utoa m v p base a = m a)"
proof (intro exI conjI)
  show "bytes_at (mem_utoa m v p base) p (Suc (length (utoa_text v base))) = utoa_text v base @ [0]"
    "\<forall>a. \<not> within a p (Suc (length (utoa_text v base))) \<longrightarrow> mem_utoa m v p base a = m a"
    using mem_utoa_bytes [of m v p base] by blast+
  show "utoa_text v base \<noteq> []"
    using utoa_text_hd [OF assms, of v] assms by (cases "v = 0") (auto simp: utoa_text_def)
qed (use assms utoa_text_hd [OF assms, of v] in
  \<open>auto simp: utoa_text_nonzero utoa_text_value utoa_text_length_any dest: subsetD [OF utoa_text_set [OF assms]]\<close>)

theorem mem_utoa_correct_witness:
  "\<exists>s. bytes_at (mem_utoa (\<lambda>_. 0xFF) 4294967295 100 10) 100 (Suc (length s)) = s @ [0] \<and>
     numeral_value 10 s = 4294967295"
  using mem_utoa_correct [of 10 "\<lambda>_. 0xFF" 4294967295 100] by auto

text \<open>
  \<open>itoa\<close> in base 10. Every value but the least is printed: a minus sign and the numeral of the
  absolute value, or the numeral. For the least value the negation overflows: \<open>long\<close> is no
  wider than \<open>int\<close> on this target, so the cast that the comment relies on does not help, and
  the call is undefined.
\<close>

theorem mem_itoa_decimal:
  "(sint v = - (2 ^ 31) \<longrightarrow> mem_itoa m v p 10 = None) \<and>
   (- (2 ^ 31) < sint v \<and> sint v < 0 \<longrightarrow>
      (\<exists>m'. mem_itoa m v p 10 = Some m' \<and> m' p = 45 \<and>
        (\<exists>s. bytes_at m' (p + 1) (Suc (length s)) = s @ [0] \<and> int (numeral_value 10 s) = - sint v))) \<and>
   (0 \<le> sint v \<longrightarrow>
      (\<exists>m'. mem_itoa m v p 10 = Some m' \<and>
        (\<exists>s. bytes_at m' p (Suc (length s)) = s @ [0] \<and> int (numeral_value 10 s) = sint v)))"
proof (intro conjI impI)
  show "mem_itoa m v p 10 = None" if "sint v = - (2 ^ 31)"
    using that by (simp add: mem_itoa_def neg_long_def)
next
  assume v: "- (2 ^ 31) < sint v \<and> sint v < 0"
  let ?m = "mem_utoa (m(p := 45)) (- v) (p + 1) 10" and ?s = "utoa_text (- v) 10"
  note b = mem_utoa_bytes [of "m(p := 45)" "- v" "p + 1" 10]
  have "p - (p + 1) = 4294967295" by simp
  then have "\<not> within p (p + 1) (Suc (length ?s))"
    using utoa_text_length_10 [of "- v"] by (simp only: within_def) simp
  with b have "?m p = 45" by simp
  moreover have "int (numeral_value 10 ?s) = - sint v"
  proof -
    have "- v = word_of_int (- sint v)" by simp
    moreover have "uint (word_of_int (- sint v) :: u32) = (- sint v) mod 2 ^ LENGTH(32)"
      by (rule uint_word_of_int)
    ultimately have "uint (- v) = (- sint v) mod 2 ^ LENGTH(32)" by metis
    with v have "uint (- v) = - sint v" by simp
    then show ?thesis using utoa_text_value [of 10 "- v"] by simp
  qed
  ultimately show "\<exists>m'. mem_itoa m v p 10 = Some m' \<and> m' p = 45 \<and>
      (\<exists>s. bytes_at m' (p + 1) (Suc (length s)) = s @ [0] \<and> int (numeral_value 10 s) = - sint v)"
    using v b by (auto simp: mem_itoa_def neg_long_def)
next
  assume v: "0 \<le> sint v"
  then have "int (numeral_value 10 (utoa_text v 10)) = sint v"
  proof -
    have "v = word_of_int (sint v)" by simp
    moreover have "uint (word_of_int (sint v) :: u32) = sint v mod 2 ^ LENGTH(32)"
      by (rule uint_word_of_int)
    ultimately have "uint v = sint v mod 2 ^ LENGTH(32)" by metis
    then have "uint v = sint v" using v sint_lt [of v] by simp
    then show ?thesis using utoa_text_value [of 10 v] by simp
  qed
  with v mem_utoa_bytes [of m v p 10]
  show "\<exists>m'. mem_itoa m v p 10 = Some m' \<and>
      (\<exists>s. bytes_at m' p (Suc (length s)) = s @ [0] \<and> int (numeral_value 10 s) = sint v)"
    by (auto simp: mem_itoa_def)
qed

theorem mem_itoa_decimal_witness: "mem_itoa (\<lambda>_. 0) 0x80000000 100 10 = None"
  using mem_itoa_decimal [of "0x80000000" "\<lambda>_. 0" 100] by simp

end
