(* ===== verification/Allocator.thy ===== *)
theory Allocator
  imports Prelude
begin

text \<open>
  The contract of a memory allocator, as \<^verbatim>\<open>include/heap.h\<close> gives it to the kernel: the client
  calls \<open>alloc\<close> and \<open>free\<close>, and \<open>holds h B\<close> says that in allocator state \<open>h\<close> exactly the blocks
  of \<open>B\<close> (address and usable size) are handed out. A client that frees only what it holds is
  served for ever, and the regions it holds never overlap.
\<close>

datatype request = Alloc u32 | Free nat

text \<open>
  A client: it allocates, keeps what it was given together with the size it asked for, and
  frees one of the regions it holds (by position; a position it does not have is no request).
\<close>

fun serve ::
  "('h \<Rightarrow> u32 \<Rightarrow> (u32 \<times> 'h) option) \<Rightarrow> ('h \<Rightarrow> u32 \<Rightarrow> 'h option) \<Rightarrow>
   request list \<Rightarrow> 'h \<times> (u32 \<times> u32) list \<Rightarrow> ('h \<times> (u32 \<times> u32) list) option" where
  "serve alloc free [] st = Some st"
| "serve alloc free (Alloc n # rs) (h, held) = do {
     (p, h) \<leftarrow> alloc h n;
     serve alloc free rs (h, if p = 0 then held else (p, n) # held) }"
| "serve alloc free (Free i # rs) (h, held) =
     (if i < length held
      then do { h \<leftarrow> free h (fst (held ! i));
                serve alloc free rs (h, take i held @ drop (Suc i) held) }
      else serve alloc free rs (h, held))"

text \<open>The largest request that rounding up does not wrap.\<close>

definition moderate :: "request \<Rightarrow> bool" where
  "moderate r \<longleftrightarrow> (case r of Alloc n \<Rightarrow> unat n \<le> 4294967288 | Free i \<Rightarrow> True)"

text \<open>Two regions, address and length, with no byte in common.\<close>

definition apart :: "u32 \<times> u32 \<Rightarrow> u32 \<times> u32 \<Rightarrow> bool" where
  "apart r s \<longleftrightarrow> unat (fst r) + unat (snd r) \<le> unat (fst s) \<or>
                 unat (fst s) + unat (snd s) \<le> unat (fst r)"

text \<open>Every region held lies in a block of its own among those handed out.\<close>

definition backed :: "(nat \<times> nat) set \<Rightarrow> (u32 \<times> u32) list \<Rightarrow> bool" where
  "backed B held \<longleftrightarrow> distinct (map fst held) \<and>
     (\<forall>(p, n) \<in> set held. \<exists>k \<ge> unat n. (unat p, k) \<in> B)"

lemma backedD: "backed B held \<Longrightarrow> (p, n) \<in> set held \<Longrightarrow> \<exists>k \<ge> unat n. (unat p, k) \<in> B"
  by (auto simp: backed_def)

lemma backed_remove:
  assumes "backed B (us @ (p, n) # vs)"
  shows "\<exists>k \<ge> unat n. (unat p, k) \<in> B \<and> backed (B - {(unat p, k)}) (us @ vs)"
proof -
  obtain k where k: "unat n \<le> k" "(unat p, k) \<in> B"
    using backedD [OF assms, of p n] by auto
  have dist: "distinct (map fst (us @ vs))" "p \<notin> fst ` set (us @ vs)"
    using assms by (auto simp: backed_def)
  have "\<exists>l \<ge> unat m. (unat q, l) \<in> B - {(unat p, k)}" if "(q, m) \<in> set (us @ vs)" for q m
  proof -
    have "q \<noteq> p" using that dist(2) by force
    then have "unat q \<noteq> unat p" using word_unat_eq_iff [of q p] by simp
    moreover have "(q, m) \<in> set (us @ (p, n) # vs)" using that by auto
    then obtain l where "unat m \<le> l" "(unat q, l) \<in> B"
      using backedD [OF assms] by blast
    ultimately show ?thesis by auto
  qed
  with dist(1) have "backed (B - {(unat p, k)}) (us @ vs)"
    unfolding backed_def by blast
  with k show ?thesis by blast
qed

lemma backed_insert:
  "backed B held \<Longrightarrow> unat p \<notin> fst ` B \<Longrightarrow> unat n \<le> k \<Longrightarrow>
   backed (insert (unat p, k) B) ((p, n) # held)"
  unfolding backed_def by (fastforce simp: rev_image_eqI)

locale allocator =
  fixes alloc :: "'h \<Rightarrow> u32 \<Rightarrow> (u32 \<times> 'h) option"
    and free :: "'h \<Rightarrow> u32 \<Rightarrow> 'h option"
    and holds :: "'h \<Rightarrow> (nat \<times> nat) set \<Rightarrow> bool"
    and lo hi :: nat
  assumes alloc_law: "holds h B \<Longrightarrow> unat n \<le> 4294967288 \<Longrightarrow>
      \<exists>p h'. alloc h n = Some (p, h') \<and>
        (p = 0 \<and> holds h' B \<or>
         p \<noteq> 0 \<and> unat p \<notin> fst ` B \<and> (\<exists>k \<ge> unat n. holds h' (insert (unat p, k) B)))"
    and free_law: "holds h B \<Longrightarrow> (unat p, k) \<in> B \<Longrightarrow>
      \<exists>h'. free h p = Some h' \<and> holds h' (B - {(unat p, k)})"
    and separate: "holds h B \<Longrightarrow> (a, k) \<in> B \<Longrightarrow> (b, l) \<in> B \<Longrightarrow>
      (a, k) = (b, l) \<or> a + k \<le> b \<or> b + l \<le> a"
    and inside: "holds h B \<Longrightarrow> (a, k) \<in> B \<Longrightarrow> lo \<le> a \<and> a + k \<le> hi"
begin

lemma serve_total:
  "holds h B \<Longrightarrow> backed B held \<Longrightarrow> list_all moderate rs \<Longrightarrow>
   \<exists>h' held' B'. serve alloc free rs (h, held) = Some (h', held') \<and> holds h' B' \<and> backed B' held'"
proof (induction rs arbitrary: h held B)
  case Nil
  then show ?case by auto
next
  case (Cons r rs)
  show ?case
  proof (cases r)
    case (Alloc n)
    then have small: "unat n \<le> 4294967288" using Cons.prems(3) by (simp add: moderate_def)
    from alloc_law [OF Cons.prems(1) small] obtain p h' where a: "alloc h n = Some (p, h')"
      "p = 0 \<and> holds h' B \<or>
       p \<noteq> 0 \<and> unat p \<notin> fst ` B \<and> (\<exists>k \<ge> unat n. holds h' (insert (unat p, k) B))" by (elim exE conjE) rule
    show ?thesis
    proof (cases "p = 0")
      case True
      with Cons Alloc a show ?thesis by simp
    next
      case False
      with a obtain k where k: "unat p \<notin> fst ` B" "unat n \<le> k" "holds h' (insert (unat p, k) B)"
        by auto
      have "backed (insert (unat p, k) B) ((p, n) # held)"
        using Cons.prems(2) k(1,2) by (rule backed_insert)
      from Cons.IH [OF k(3) this] Cons.prems(3) Alloc a(1) False show ?thesis by simp
    qed
  next
    case (Free i)
    show ?thesis
    proof (cases "i < length held")
      case False
      with Cons Free show ?thesis by simp
    next
      case True
      obtain p n where pn: "held ! i = (p, n)" by (cases "held ! i")
      then have "backed B (take i held @ (p, n) # drop (Suc i) held)"
        using Cons.prems(2) True id_take_nth_drop [OF True] by simp
      from backed_remove [OF this] obtain k where k: "(unat p, k) \<in> B"
        "backed (B - {(unat p, k)}) (take i held @ drop (Suc i) held)" by blast
      from free_law [OF Cons.prems(1) k(1)] obtain h' where h': "free h p = Some h'"
        "holds h' (B - {(unat p, k)})" by blast
      from Cons.IH [OF h'(2) k(2)] Cons.prems(3) Free True pn h'(1) show ?thesis by simp
    qed
  qed
qed

lemma backed_apart:
  assumes "holds h B" "backed B held" "i < j" "j < length held"
  shows "apart (held ! i) (held ! j)"
proof -
  obtain p n q m where pq: "held ! i = (p, n)" "held ! j = (q, m)"
    by (cases "held ! i", cases "held ! j")
  have mem: "(p, n) \<in> set held" "(q, m) \<in> set held"
    using pq assms(3,4) by (metis nth_mem order.strict_trans)+
  have "map fst held ! i \<noteq> map fst held ! j"
    using assms by (subst nth_eq_iff_index_eq) (auto simp: backed_def)
  then have ne: "unat p \<noteq> unat q" using assms(3,4) pq word_unat_eq_iff [of p q] by simp
  obtain k l where "unat n \<le> k" "(unat p, k) \<in> B" "unat m \<le> l" "(unat q, l) \<in> B"
    using backedD [OF assms(2) mem(1)] backedD [OF assms(2) mem(2)] by blast
  with separate [OF assms(1), of "unat p" k "unat q" l] ne pq show ?thesis
    by (auto simp: apart_def)
qed

lemma backed_inside:
  assumes "holds h B" "backed B held" "(p, n) \<in> set held"
  shows "lo \<le> unat p \<and> unat p + unat n \<le> hi"
proof -
  from assms(2,3) obtain k where "unat n \<le> k" "(unat p, k) \<in> B"
    by (auto simp: backed_def)
  with inside [OF assms(1)] show ?thesis by fastforce
qed

text \<open>The client's guarantee: it is always served, within bounds, and never twice the same byte.\<close>

lemma serve_safe:
  assumes "holds h {}" "list_all moderate rs"
  shows "\<exists>h' held. serve alloc free rs (h, []) = Some (h', held) \<and>
    (\<forall>i j. i < j \<longrightarrow> j < length held \<longrightarrow> apart (held ! i) (held ! j)) \<and>
    (\<forall>(p, n) \<in> set held. lo \<le> unat p \<and> unat p + unat n \<le> hi)"
proof -
  have "backed {} []" by (simp add: backed_def)
  from serve_total [OF assms(1) this assms(2)] obtain h' held B where
    s: "serve alloc free rs (h, []) = Some (h', held)" "holds h' B" "backed B held" by blast
  then show ?thesis
    using backed_apart [OF s(2,3)] backed_inside [OF s(2,3)] by blast
qed

end

end
