(* ===== verification/Heap.thy ===== *)
theory Heap
  imports CMemory Allocator
begin

text \<open>
  \<^verbatim>\<open>kernel/heap.c\<close>: the first-fit heap. A block header (\<open>struct block\<close>, 12 bytes on this
  target) is kept in a store indexed by its address; reading a header where none was ever
  written is undefined behaviour (\<^const>\<open>None\<close>). Stale headers that a merge swallowed stay in
  the store, as they do in memory. The loops over the linked list are partial functions: a
  cyclic list would make them run for ever, and the theorems show that they return.

  The abstract heap is the list of the blocks from the start of the arena, each with its size
  and whether it is free; the linked list in memory is related to it by \<open>chained\<close>.
\<close>

subsection \<open>Headers and the operations\<close>

record block =
  bsize :: u32
  bfree :: u32
  bnext :: u32

record heap =
  headers :: "u32 \<rightharpoonup> block"
  first :: u32

definition HEAP_SIZE :: u32 where "HEAP_SIZE = 256 * 1024"

definition ALIGNMENT :: u32 where "ALIGNMENT = 8"

definition HEADER :: u32 where "HEADER = 12"  \<comment> \<open>\<open>sizeof(struct block)\<close>: three 4-byte fields\<close>

lemmas heap_consts = HEAP_SIZE_def ALIGNMENT_def HEADER_def

definition align_up :: "u32 \<Rightarrow> u32" where
  "align_up v = (v + (ALIGNMENT - 1)) AND NOT (ALIGNMENT - 1)"

text \<open>The address of the arena is the linker's choice, a parameter.\<close>

definition heap_init :: "u32 \<Rightarrow> heap \<Rightarrow> heap" where
  "heap_init arena h =
     h\<lparr>first := arena,
       headers := (headers h)(arena \<mapsto> \<lparr>bsize = HEAP_SIZE - HEADER, bfree = 1, bnext = 0\<rparr>)\<rparr>"

definition payload :: "u32 \<Rightarrow> u32" where
  "payload b = b + HEADER"

definition split_block :: "heap \<Rightarrow> u32 \<Rightarrow> u32 \<Rightarrow> heap option" where
  "split_block h b wanted = do {
     blk \<leftarrow> headers h b;
     if bsize blk < wanted + HEADER + ALIGNMENT then Some h
     else (let rest = payload b + wanted
           in Some (h\<lparr>headers := (headers h)
                (rest \<mapsto> \<lparr>bsize = bsize blk - wanted - HEADER, bfree = 1, bnext = bnext blk\<rparr>,
                 b \<mapsto> blk\<lparr>bsize := wanted, bnext := rest\<rparr>)\<rparr>)) }"

definition mark :: "heap \<Rightarrow> u32 \<Rightarrow> u32 \<Rightarrow> heap option" where
  "mark h b v = do {
     blk \<leftarrow> headers h b;
     Some (h\<lparr>headers := (headers h)(b \<mapsto> blk\<lparr>bfree := v\<rparr>)\<rparr>) }"

partial_function (option) kmalloc_from :: "heap \<Rightarrow> u32 \<Rightarrow> u32 \<Rightarrow> (u32 \<times> heap) option" where
  "kmalloc_from h b wanted =
     (if b = 0 then Some (0, h)
      else do {
        blk \<leftarrow> headers h b;
        if bfree blk \<noteq> 0 \<and> bsize blk \<ge> wanted
        then do { h \<leftarrow> split_block h b wanted; h \<leftarrow> mark h b 0; Some (payload b, h) }
        else kmalloc_from h (bnext blk) wanted })"

definition kmalloc :: "heap \<Rightarrow> u32 \<Rightarrow> (u32 \<times> heap) option" where
  "kmalloc h wanted =
     (if wanted = 0 then Some (0, h) else kmalloc_from h (first h) (align_up wanted))"

text \<open>\<open>kcalloc\<close> also writes the memory the new block stands for.\<close>

definition kcalloc :: "heap \<Rightarrow> mem \<Rightarrow> u32 \<Rightarrow> u32 \<Rightarrow> (u32 \<times> heap \<times> mem) option" where
  "kcalloc h m count elem =
     (let total = count * elem
      in if count \<noteq> 0 \<and> total div count \<noteq> elem then Some (0, h, m)
         else do {
           (p, h) \<leftarrow> kmalloc h total;
           Some (p, h, if p \<noteq> 0 then mem_set m p 0 total else m) })"

partial_function (option) coalesce_from :: "heap \<Rightarrow> u32 \<Rightarrow> heap option" where
  "coalesce_from h b =
     (if b = 0 then Some h
      else do {
        blk \<leftarrow> headers h b;
        if bnext blk = 0 then Some h
        else do {
          nxt \<leftarrow> headers h (bnext blk);
          if bfree blk \<noteq> 0 \<and> bfree nxt \<noteq> 0
          then coalesce_from
                 (h\<lparr>headers := (headers h)
                    (b \<mapsto> blk\<lparr>bsize := bsize blk + (HEADER + bsize nxt), bnext := bnext nxt\<rparr>)\<rparr>) b
          else coalesce_from h (bnext blk) } })"

definition coalesce :: "heap \<Rightarrow> heap option" where
  "coalesce h = coalesce_from h (first h)"

definition kfree :: "heap \<Rightarrow> u32 \<Rightarrow> heap option" where
  "kfree h p = (if p = 0 then Some h else do { h \<leftarrow> mark h (p - HEADER) 1; coalesce h })"

partial_function (option) stats_from ::
    "heap \<Rightarrow> u32 \<Rightarrow> u32 \<Rightarrow> u32 \<Rightarrow> u32 \<Rightarrow> (u32 \<times> u32 \<times> u32) option" where
  "stats_from h b used available blocks =
     (if b = 0 then Some (used, available, blocks)
      else do {
        blk \<leftarrow> headers h b;
        if bfree blk \<noteq> 0 then stats_from h (bnext blk) used (available + bsize blk) (blocks + 1)
        else stats_from h (bnext blk) (used + bsize blk) available (blocks + 1) })"

definition heap_stats :: "heap \<Rightarrow> (u32 \<times> u32 \<times> u32) option" where
  "heap_stats h = stats_from h (first h) 0 0 0"

subsection \<open>The abstract heap\<close>

type_synonym cells = "(nat \<times> bool) list"  \<comment> \<open>size and whether free, in address order\<close>

text \<open>The header list from address \<open>a\<close> to the end \<open>e\<close> of the arena holds these blocks, tiling it.\<close>

fun chained :: "(u32 \<rightharpoonup> block) \<Rightarrow> nat \<Rightarrow> nat \<Rightarrow> cells \<Rightarrow> bool" where
  "chained hs a e [] \<longleftrightarrow> a = e"
| "chained hs a e ((n, f) # bs) \<longleftrightarrow>
     (\<exists>blk. hs (of_nat a) = Some blk \<and> unat (bsize blk) = n \<and> (bfree blk \<noteq> 0) = f \<and>
        bnext blk = (if bs = [] then 0 else of_nat (a + 12 + n))) \<and>
     chained hs (a + 12 + n) e bs"

definition arena_ok :: "nat \<Rightarrow> bool" where
  "arena_ok a \<longleftrightarrow> 0 < a \<and> a + 262144 < 4294967296"

definition heap_abs :: "nat \<Rightarrow> heap \<Rightarrow> cells \<Rightarrow> bool" where
  "heap_abs a h bs \<longleftrightarrow>
     first h = of_nat a \<and> bs \<noteq> [] \<and> chained (headers h) a (a + 262144) bs"

text \<open>First fit, release and merging on the abstract heap.\<close>

fun first_fit :: "nat \<Rightarrow> nat \<Rightarrow> cells \<Rightarrow> (nat \<times> cells) option" where
  "first_fit a w [] = None"
| "first_fit a w ((n, f) # bs) =
     (if f \<and> w \<le> n
      then Some (a + 12, if n < w + 20 then (n, False) # bs
                         else (w, False) # (n - w - 12, True) # bs)
      else map_option (\<lambda>(p, bs'). (p, (n, f) # bs')) (first_fit (a + 12 + n) w bs))"

fun merge :: "cells \<Rightarrow> cells" where
  "merge ((n, f) # (k, g) # bs) =
     (if f \<and> g then merge ((n + 12 + k, f) # bs) else (n, f) # merge ((k, g) # bs))"
| "merge bs = bs"

fun release :: "nat \<Rightarrow> nat \<Rightarrow> cells \<Rightarrow> cells" where
  "release a p [] = []"
| "release a p ((n, f) # bs) =
     (if p = a + 12 then (n, True) # bs else (n, f) # release (a + 12 + n) p bs)"

fun placed :: "nat \<Rightarrow> cells \<Rightarrow> (nat \<times> nat \<times> bool) list" where
  "placed a [] = []"
| "placed a ((n, f) # bs) = (a + 12, n, f) # placed (a + 12 + n) bs"

text \<open>The allocated blocks: address of the payload and usable size.\<close>

definition live :: "nat \<Rightarrow> cells \<Rightarrow> (nat \<times> nat) set" where
  "live a bs = {(p, n). (p, n, False) \<in> set (placed a bs)}"

subsection \<open>The list in memory implements the abstract heap\<close>

lemma chained_le: "chained hs a e bs \<Longrightarrow> a + length bs * 12 \<le> e"
  by (induction bs arbitrary: a) fastforce+

lemma chained_total: "chained hs a e bs \<Longrightarrow> a + (\<Sum>(n, f) \<leftarrow> bs. 12 + n) = e"
  by (induction bs arbitrary: a) fastforce+

text \<open>The chain reads only headers between its ends.\<close>

lemma chained_cong:
  "chained hs a e bs \<Longrightarrow> (\<And>x. a \<le> x \<Longrightarrow> x < e \<Longrightarrow> hs' (of_nat x) = hs (of_nat x)) \<Longrightarrow>
   chained hs' a e bs"
proof (induction bs arbitrary: a)
  case (Cons b bs)
  obtain n f where b: "b = (n, f)" by (cases b)
  have le: "a + 12 + n \<le> e" using Cons.prems(1) chained_le [of hs "a + 12 + n" e bs] by (simp add: b)
  have "chained hs' (a + 12 + n) e bs"
    using Cons.prems b by (intro Cons.IH) auto
  moreover have "hs' (of_nat a) = hs (of_nat a)" using le by (intro Cons.prems(2)) auto
  ultimately show ?case using Cons.prems(1) by (simp add: b)
qed simp

lemma chained_upd:
  assumes "chained hs a e bs" "x < a" "e < 4294967296"
  shows "chained (hs(of_nat x := v)) a e bs"
  using assms by (intro chained_cong [OF assms(1)]) (auto simp: of_nat_offset_eq_iff)

lemma of_nat_zero_iff: "x < 4294967296 \<Longrightarrow> (of_nat x :: u32) = 0 \<longleftrightarrow> x = 0"
  using of_nat_offset_eq_iff [of x 0] by simp

lemma chained_ConsE:
  assumes "chained hs a e ((n, f) # bs)" "0 < a" "e < 4294967296"
  obtains blk where "hs (of_nat a) = Some blk" "unat (bsize blk) = n" "(bfree blk \<noteq> 0) = f"
    "bnext blk = (if bs = [] then 0 else of_nat (a + 12 + n))"
    "chained hs (a + 12 + n) e bs" "a + 12 + n \<le> e" "(of_nat a :: u32) \<noteq> 0"
    "bs \<noteq> [] \<Longrightarrow> a + 24 + n \<le> e"
proof -
  from assms(1) obtain blk where b: "hs (of_nat a) = Some blk" "unat (bsize blk) = n"
    "(bfree blk \<noteq> 0) = f" "bnext blk = (if bs = [] then 0 else of_nat (a + 12 + n))"
    "chained hs (a + 12 + n) e bs" by auto
  have le: "a + 12 + n + length bs * 12 \<le> e" using chained_le [OF b(5)] .
  have "(of_nat a :: u32) \<noteq> 0" using assms le by (subst of_nat_zero_iff) auto
  moreover have "a + 24 + n \<le> e" if "bs \<noteq> []" using that le by (cases bs) auto
  ultimately show thesis using b le by (intro that) auto
qed

lemma payload_of_nat: "payload (of_nat a) = of_nat (a + 12)"
  by (simp add: payload_def HEADER_def)

text \<open>Handing out the block at \<open>a\<close>: the two header writes of \<open>split\<close> and the mark.\<close>

lemma take_block:
  assumes ch: "chained (headers h) a e ((n, True) # bs)" and a: "0 < a" "e < 4294967296"
    and w: "unat wanted \<le> n" "n < 4294967000"
  obtains h' where "split_block h (of_nat a) wanted \<bind> (\<lambda>h. mark h (of_nat a) 0) = Some h'"
    and "first h' = first h"
    and "chained (headers h') a e (if n < unat wanted + 20 then (n, False) # bs
           else (unat wanted, False) # (n - unat wanted - 12, True) # bs)"
    and "\<And>x. x < a \<Longrightarrow> headers h' (of_nat x) = headers h (of_nat x)"
proof -
  obtain blk where b: "headers h (of_nat a) = Some blk" "unat (bsize blk) = n"
    "bnext blk = (if bs = [] then 0 else of_nat (a + 12 + n))"
    "chained (headers h) (a + 12 + n) e bs" "a + 12 + n \<le> e"
    using ch a by (rule chained_ConsE)
  have sum: "unat (wanted + HEADER + ALIGNMENT) = unat wanted + 20"
    using w by (simp add: HEADER_def ALIGNMENT_def add.assoc unat_word_ariths)
  have small: "bsize blk < wanted + HEADER + ALIGNMENT \<longleftrightarrow> n < unat wanted + 20"
    by (simp add: word_less_nat_alt sum b(2))
  show thesis
  proof (cases "n < unat wanted + 20")
    case True
    let ?h = "h\<lparr>headers := (headers h)(of_nat a \<mapsto> blk\<lparr>bfree := 0\<rparr>)\<rparr>"
    have "split_block h (of_nat a) wanted \<bind> (\<lambda>h. mark h (of_nat a) 0) = Some ?h"
      using True by (simp add: split_block_def mark_def b(1) small)
    moreover have "chained (headers ?h) a e ((n, False) # bs)"
      using b a by (auto intro: chained_upd)
    ultimately show thesis
      using True b(5) a by (intro that [of ?h]) (simp_all add: of_nat_offset_eq_iff)
  next
    case False
    let ?r = "a + 12 + unat wanted"
    let ?rest = "\<lparr>bsize = bsize blk - wanted - HEADER, bfree = 1, bnext = bnext blk\<rparr>"
    let ?h = "h\<lparr>headers := (headers h)(of_nat ?r \<mapsto> ?rest,
        of_nat a \<mapsto> blk\<lparr>bsize := wanted, bnext := of_nat ?r, bfree := 0\<rparr>)\<rparr>"
    have r: "payload (of_nat a) + wanted = of_nat ?r"
      by (simp add: payload_of_nat)
    have res: "split_block h (of_nat a) wanted \<bind> (\<lambda>h. mark h (of_nat a) 0) = Some ?h"
      using False by (simp add: split_block_def mark_def b(1) small r Let_def)
    have size: "unat (bsize blk - wanted - HEADER) = n - unat wanted - 12"
    proof -
      have "wanted \<le> bsize blk" using w b(2) by (simp add: word_le_nat_alt)
      then have 1: "unat (bsize blk - wanted) = n - unat wanted" by (simp add: unat_sub b(2))
      then have "HEADER \<le> bsize blk - wanted" using False by (simp add: word_le_nat_alt HEADER_def)
      then show ?thesis using 1 by (simp add: unat_sub) (simp add: HEADER_def)
    qed
    have ne: "(of_nat ?r :: u32) \<noteq> of_nat a"
      using b(5) a False by (subst of_nat_offset_eq_iff) auto
    have nxt: "?r + 12 + (n - unat wanted - 12) = a + 12 + n" using False w by simp
    have "chained (headers ?h) (a + 12 + n) e bs"
      using b(4,5) a False
      by (intro chained_cong [OF b(4)]) (auto simp: of_nat_offset_eq_iff simp del: of_nat_add)
    then have two: "chained (headers ?h) a e ((unat wanted, False) # (n - unat wanted - 12, True) # bs)"
      unfolding chained.simps nxt using size ne b(3) by (simp del: of_nat_add)
    show thesis
    proof (rule that [of ?h])
      show "chained (headers ?h) a e (if n < unat wanted + 20 then (n, False) # bs
          else (unat wanted, False) # (n - unat wanted - 12, True) # bs)"
        using two False by (simp only: if_False)
      show "headers ?h (of_nat x) = headers h (of_nat x)" if "x < a" for x
        using that b(5) a False by (simp add: of_nat_offset_eq_iff del: of_nat_add)
    qed (use res in simp_all)
  qed
qed

lemma first_fit_nonempty: "first_fit a w bs = Some (p, bs') \<Longrightarrow> bs' \<noteq> []"
  by (cases bs) (auto split: if_splits)

lemma kmalloc_from_fit:
  assumes "chained (headers h) a e bs" "0 < a" "e < 4294967296" "e - a < 4294967000" "bs \<noteq> []"
  shows "case first_fit a (unat wanted) bs of
      None \<Rightarrow> kmalloc_from h (of_nat a) wanted = Some (0, h)
    | Some (p, bs') \<Rightarrow> \<exists>h'. kmalloc_from h (of_nat a) wanted = Some (of_nat p, h') \<and>
        first h' = first h \<and> chained (headers h') a e bs' \<and>
        (\<forall>x < a. headers h' (of_nat x) = headers h (of_nat x))"
  using assms
proof (induction bs arbitrary: a)
  case (Cons b bs)
  obtain n f where nf: "b = (n, f)" by (cases b)
  have ch: "chained (headers h) a e ((n, f) # bs)" using Cons.prems nf by simp
  from ch obtain blk where b: "headers h (of_nat a) = Some blk" "unat (bsize blk) = n"
    "(bfree blk \<noteq> 0) = f" "bnext blk = (if bs = [] then 0 else of_nat (a + 12 + n))"
    "chained (headers h) (a + 12 + n) e bs" "a + 12 + n \<le> e" "(of_nat a :: u32) \<noteq> 0"
    using Cons.prems(2,3) by (rule chained_ConsE)
  have fits: "bsize blk \<ge> wanted \<longleftrightarrow> unat wanted \<le> n" by (simp add: word_le_nat_alt b(2))
  show ?case
  proof (cases "f \<and> unat wanted \<le> n")
    case True
    then have ch': "chained (headers h) a e ((n, True) # bs)" using ch by simp
    have "n < 4294967000" using b(6) Cons.prems(4) by simp
    with True obtain h' where h': "split_block h (of_nat a) wanted \<bind> (\<lambda>h. mark h (of_nat a) 0) = Some h'"
      "first h' = first h"
      "chained (headers h') a e (if n < unat wanted + 20 then (n, False) # bs
           else (unat wanted, False) # (n - unat wanted - 12, True) # bs)"
      "\<And>x. x < a \<Longrightarrow> headers h' (of_nat x) = headers h (of_nat x)"
      using take_block [OF ch' Cons.prems(2,3)] by metis
    have "kmalloc_from h (of_nat a) wanted = Some (of_nat (a + 12), h')"
      using True b(1,3,7) fits h'(1)
      by (subst kmalloc_from.simps) (auto simp: payload_of_nat split: bind_splits)
    with True nf h' show ?thesis by auto
  next
    case False
    then have rec: "kmalloc_from h (of_nat a) wanted = kmalloc_from h (bnext blk) wanted"
      using b(1,3,7) fits by (subst kmalloc_from.simps) auto
    show ?thesis
    proof (cases "bs = []")
      case True
      then have "kmalloc_from h (bnext blk) wanted = Some (0, h)"
        using b(4) by (subst kmalloc_from.simps) simp
      with False nf rec True show ?thesis by auto
    next
      case nonempty: False
      have "case first_fit (a + 12 + n) (unat wanted) bs of
          None \<Rightarrow> kmalloc_from h (of_nat (a + 12 + n)) wanted = Some (0, h)
        | Some (p, bs') \<Rightarrow> \<exists>h'. kmalloc_from h (of_nat (a + 12 + n)) wanted = Some (of_nat p, h') \<and>
            first h' = first h \<and> chained (headers h') (a + 12 + n) e bs' \<and>
            (\<forall>x < a + 12 + n. headers h' (of_nat x) = headers h (of_nat x))"
        using Cons.prems b nonempty by (intro Cons.IH) auto
      with False nf rec b nonempty show ?thesis
        by (auto simp del: of_nat_add dest!: first_fit_nonempty split: option.splits prod.splits)
    qed
  qed
qed simp

lemma merge_nonempty: "merge bs = [] \<longleftrightarrow> bs = []"
  by (induction bs rule: merge.induct) auto

lemma coalesce_last:
  assumes "chained (headers h) a e [b]" "0 < a" "e < 4294967296"
  shows "coalesce_from h (of_nat a) = Some h"
proof -
  obtain n f where "b = (n, f)" by (cases b)
  with assms have "chained (headers h) a e ((n, f) # [])" by simp
  then obtain blk where "headers h (of_nat a) = Some blk" "bnext blk = 0"
    using assms(2,3) by (rule chained_ConsE) simp
  then show ?thesis by (subst coalesce_from.simps) simp
qed

lemma coalesce_from_merge:
  "chained (headers h) a e bs \<Longrightarrow> bs \<noteq> [] \<Longrightarrow> 0 < a \<Longrightarrow> e < 4294967296 \<Longrightarrow>
   \<exists>h'. coalesce_from h (of_nat a) = Some h' \<and> first h' = first h \<and>
     chained (headers h') a e (merge bs) \<and> (\<forall>x < a. headers h' (of_nat x) = headers h (of_nat x))"
proof (induction bs arbitrary: a h rule: merge.induct)
  case (1 n f k g bs)
  from "1.prems"(1,3,4) obtain blk where b: "headers h (of_nat a) = Some blk" "unat (bsize blk) = n"
    "(bfree blk \<noteq> 0) = f" "bnext blk = of_nat (a + 12 + n)"
    "chained (headers h) (a + 12 + n) e ((k, g) # bs)" "a + 12 + n \<le> e" "(of_nat a :: u32) \<noteq> 0"
    by (elim chained_ConsE) auto
  from b(5) "1.prems"(4) obtain nx where c: "headers h (of_nat (a + 12 + n)) = Some nx"
    "unat (bsize nx) = k" "(bfree nx \<noteq> 0) = g"
    "bnext nx = (if bs = [] then 0 else of_nat (a + 12 + n + 12 + k))"
    "chained (headers h) (a + 12 + n + 12 + k) e bs" "a + 12 + n + 12 + k \<le> e"
    "(of_nat (a + 12 + n) :: u32) \<noteq> 0"
    by (elim chained_ConsE) auto
  show ?case
  proof (cases "f \<and> g")
    case True
    let ?blk = "blk\<lparr>bsize := bsize blk + (HEADER + bsize nx), bnext := bnext nx\<rparr>"
    let ?h = "h\<lparr>headers := (headers h)(of_nat a \<mapsto> ?blk)\<rparr>"
    have size: "unat (bsize blk + (HEADER + bsize nx)) = n + 12 + k"
      using c(6) "1.prems"(3,4) b(2) c(2) by (simp add: HEADER_def unat_word_ariths)
    have end_eq: "a + 12 + (n + 12 + k) = a + 12 + n + 12 + k" by simp
    have "chained (headers ?h) (a + 12 + n + 12 + k) e bs"
      using c(5) "1.prems"(4) by (simp add: chained_upd)
    then have "chained (headers ?h) a e ((n + 12 + k, f) # bs)"
      unfolding chained.simps end_eq using size b(3) c(4) by (simp del: of_nat_add)
    with "1.IH"(1) [OF True] "1.prems"(3,4) obtain h' where h': "coalesce_from ?h (of_nat a) = Some h'"
      "first h' = first ?h" "chained (headers h') a e (merge ((n + 12 + k, f) # bs))"
      "\<forall>x < a. headers h' (of_nat x) = headers ?h (of_nat x)"
      by blast
    have "coalesce_from h (of_nat a) = Some h'"
      using b c True h'(1) by (subst coalesce_from.simps) simp
    moreover have "headers h' (of_nat x) = headers h (of_nat x)" if "x < a" for x
      using that h'(4) b(6) "1.prems"(4) by (simp add: of_nat_offset_eq_iff)
    ultimately show ?thesis using h' True by auto
  next
    case False
    from "1.IH"(2) [OF False b(5)] "1.prems"(4) obtain h' where
      h': "coalesce_from h (of_nat (a + 12 + n)) = Some h'"
      "first h' = first h" "chained (headers h') (a + 12 + n) e (merge ((k, g) # bs))"
      "\<forall>x < a + 12 + n. headers h' (of_nat x) = headers h (of_nat x)"
      by auto
    have "coalesce_from h (of_nat a) = Some h'"
      using b c False h'(1) by (subst coalesce_from.simps) (auto simp del: of_nat_add)
    moreover have "chained (headers h') a e ((n, f) # merge ((k, g) # bs))"
      using h'(3,4) b by (simp del: of_nat_add merge.simps add: merge_nonempty)
    ultimately show ?thesis using h' False by auto
  qed
next
  case "2_2"
  then show ?case by (auto simp: coalesce_last)
qed simp

lemma placed_bounds:
  "chained hs a e bs \<Longrightarrow> (p, n, f) \<in> set (placed a bs) \<Longrightarrow> a + 12 \<le> p \<and> p + n \<le> e"
  by (induction bs arbitrary: a) (fastforce dest: chained_le)+

lemma release_Nil: "release a p bs = [] \<longleftrightarrow> bs = []"
  by (cases "(a, p, bs)" rule: release.cases) auto

lemma mark_release:
  "chained hs a e bs \<Longrightarrow> (p, n, f) \<in> set (placed a bs) \<Longrightarrow> e < 4294967296 \<Longrightarrow>
   \<exists>blk. hs (of_nat (p - 12)) = Some blk \<and>
     chained (hs(of_nat (p - 12) \<mapsto> blk\<lparr>bfree := 1\<rparr>)) a e (release a p bs)"
proof (induction bs arbitrary: a)
  case (Cons b bs)
  obtain k g where b: "b = (k, g)" by (cases b)
  show ?case
  proof (cases "p = a + 12")
    case True
    from Cons.prems(1) b obtain blk where blk: "hs (of_nat a) = Some blk" "unat (bsize blk) = k"
      "bnext blk = (if bs = [] then 0 else of_nat (a + 12 + k))" "chained hs (a + 12 + k) e bs"
      by auto
    have "chained (hs(of_nat a \<mapsto> blk\<lparr>bfree := 1\<rparr>)) (a + 12 + k) e bs"
      using blk(4) Cons.prems(3) by (intro chained_upd) auto
    with blk True b show ?thesis by (simp del: fun_upd_apply) simp
  next
    case False
    with Cons.prems b have pl: "(p, n, f) \<in> set (placed (a + 12 + k) bs)" by auto
    from Cons.prems(1) b have ch: "chained hs (a + 12 + k) e bs" by auto
    from placed_bounds [OF ch pl] have le: "a + 12 + k + 12 \<le> p" "p + n \<le> e" by auto
    from Cons.IH [OF ch pl Cons.prems(3)] obtain blk where blk: "hs (of_nat (p - 12)) = Some blk"
      "chained (hs(of_nat (p - 12) \<mapsto> blk\<lparr>bfree := 1\<rparr>)) (a + 12 + k) e (release (a + 12 + k) p bs)"
      by blast
    have "(of_nat (p - 12) :: u32) \<noteq> of_nat a"
      using le Cons.prems(3) by (subst of_nat_offset_eq_iff) auto
    then have "chained (hs(of_nat (p - 12) \<mapsto> blk\<lparr>bfree := 1\<rparr>)) a e
        ((k, g) # release (a + 12 + k) p bs)"
      using Cons.prems(1) b blk(2) by (auto simp: release_Nil simp del: of_nat_add of_nat_diff)
    moreover have "release a p (b # bs) = (k, g) # release (a + 12 + k) p bs"
      using b False by simp
    ultimately show ?thesis using blk(1) by metis
  qed
qed simp

subsection \<open>Rounding up\<close>

lemma align_up_eq: "align_up v = (v + 7) div 8 * 8"
proof -
  have "(8::u32) - 1 = 7" by simp
  then show ?thesis unfolding align_up_def ALIGNMENT_def by (simp only: and_not_7)
qed

lemma align_up_nat:
  "unat v \<le> 4294967288 \<Longrightarrow> unat (align_up v) = (unat v + 7) div 8 * 8"
proof -
  assume v: "unat v \<le> 4294967288"
  have "unat (v + 7) = unat v + 7" using v by (simp add: unat_word_ariths)
  moreover have "(unat v + 7) div 8 * 8 < 4294967296" using v by linarith
  ultimately show ?thesis
    by (simp add: align_up_eq unat_word_ariths unat_div)
qed

text \<open>A request within seven bytes of the largest \<open>size_t\<close> wraps round to nothing.\<close>

lemma align_up_wraps: "unat v > 4294967288 \<Longrightarrow> align_up v = 0"
proof -
  assume v: "unat v > 4294967288"
  have "unat (v + 7) = unat v + 7 - 4294967296"
    using v unat_u32 [of v] by (simp add: unat_word_ariths mod_if)
  then have "unat (v + 7) < 8" using unat_u32 [of v] by simp
  then have "unat ((v + 7) div 8) = 0" by (simp add: unat_div)
  then have "(v + 7) div 8 = 0" by (simp only: unat_eq_zero)
  then show ?thesis by (simp add: align_up_eq)
qed

lemma align_up_bounds:
  assumes "unat v \<le> 4294967288"
  shows "unat v \<le> unat (align_up v)" "unat (align_up v) < unat v + 8" "8 dvd unat (align_up v)"
  using assms by (simp_all add: align_up_nat)

subsection \<open>The operations refine the abstract heap\<close>

lemma heap_init_abs: "arena_ok a \<Longrightarrow> heap_abs a (heap_init (of_nat a) h) [(262132, True)]"
  by (simp add: heap_abs_def heap_init_def heap_consts)

lemma kmalloc_abs:
  assumes "arena_ok a" "heap_abs a h bs" "n \<noteq> 0"
  shows "case first_fit a (unat (align_up n)) bs of
      None \<Rightarrow> kmalloc h n = Some (0, h)
    | Some (p, bs') \<Rightarrow> \<exists>h'. kmalloc h n = Some (of_nat p, h') \<and> heap_abs a h' bs'"
  using kmalloc_from_fit [of h a "a + 262144" bs "align_up n"] assms
  by (auto simp: heap_abs_def arena_ok_def kmalloc_def dest: first_fit_nonempty split: option.splits)

lemma kfree_abs:
  assumes "arena_ok a" "heap_abs a h bs" "(p, n) \<in> live a bs"
  shows "\<exists>h'. kfree h (of_nat p) = Some h' \<and> heap_abs a h' (merge (release a p bs))"
proof -
  have ch: "chained (headers h) a (a + 262144) bs" and e: "a + 262144 < 4294967296" "0 < a"
    using assms(1,2) by (auto simp: heap_abs_def arena_ok_def)
  have pl: "(p, n, False) \<in> set (placed a bs)" using assms(3) by (simp add: live_def)
  from placed_bounds [OF ch pl] have p: "a + 12 \<le> p" "p < 4294967296" using e by auto
  from mark_release [OF ch pl e(1)] obtain blk where blk: "headers h (of_nat (p - 12)) = Some blk"
    "chained ((headers h)(of_nat (p - 12) \<mapsto> blk\<lparr>bfree := 1\<rparr>)) a (a + 262144) (release a p bs)"
    by blast
  have sub: "of_nat p - HEADER = (of_nat (p - 12) :: u32)" using p by (simp add: HEADER_def)
  let ?h = "h\<lparr>headers := (headers h)(of_nat (p - 12) \<mapsto> blk\<lparr>bfree := 1\<rparr>)\<rparr>"
  have "release a p bs \<noteq> []" using assms(2) by (simp add: release_Nil heap_abs_def)
  with coalesce_from_merge [of ?h a "a + 262144" "release a p bs"] blk(2) e obtain h' where
    "coalesce_from ?h (of_nat a) = Some h'" "first h' = first h"
    "chained (headers h') a (a + 262144) (merge (release a p bs))"
    by auto
  moreover have "(of_nat p :: u32) \<noteq> 0" using p by (subst of_nat_zero_iff) auto
  ultimately show ?thesis
    using assms(2) \<open>release a p bs \<noteq> []\<close> blk(1)
    by (auto simp: kfree_def sub mark_def coalesce_def heap_abs_def merge_nonempty simp del: of_nat_diff)
qed

subsection \<open>The abstract heap: live blocks\<close>

lemma live_simps:
  "live a [] = {}"
  "live a ((n, f) # bs) = (if f then live (a + 12 + n) bs else insert (a + 12, n) (live (a + 12 + n) bs))"
  by (auto simp: live_def)

lemma placed_ge: "(p, n, f) \<in> set (placed a bs) \<Longrightarrow> a + 12 \<le> p"
  by (induction bs arbitrary: a) fastforce+

lemma live_ge: "(p, n) \<in> live a bs \<Longrightarrow> a + 12 \<le> p"
  by (auto simp: live_def dest: placed_ge)

lemma live_separate:
  "(p, n) \<in> live a bs \<Longrightarrow> (q, k) \<in> live a bs \<Longrightarrow> (p, n) = (q, k) \<or> p + n + 12 \<le> q \<or> q + k + 12 \<le> p"
proof (induction bs arbitrary: a)
  case (Cons b bs)
  then show ?case
    by (cases b) (fastforce simp: live_simps dest: live_ge split: if_splits)
qed (simp add: live_simps)

lemma first_fit_live:
  "first_fit a w bs = Some (p, bs') \<Longrightarrow>
   \<exists>n \<ge> w. live a bs' = insert (p, n) (live a bs) \<and> p \<notin> fst ` live a bs \<and> n < w + 20 \<and>
     a + 12 \<le> p"
proof (induction bs arbitrary: a p bs')
  case (Cons b bs)
  obtain n f where b: "b = (n, f)" by (cases b)
  show ?case
  proof (cases "f \<and> w \<le> n")
    case True
    have fresh: "a + 12 \<notin> fst ` live (a + 12 + n) bs" by (auto dest: live_ge)
    have p: "p = a + 12" using Cons.prems True b by (simp split: if_splits)
    show ?thesis
    proof (cases "n < w + 20")
      case small: True
      with Cons.prems True b fresh p show ?thesis
        by (intro exI [of _ n]) (auto simp: live_simps)
    next
      case False
      then have end_eq: "a + 12 + w + 12 + (n - w - 12) = a + 12 + n" by simp
      have "bs' = (w, False) # (n - w - 12, True) # bs"
        using Cons.prems True b False by simp
      then have "live a bs' = insert (a + 12, w) (live (a + 12 + n) bs)"
        by (simp only: live_simps if_True if_False end_eq)
      with True b fresh p show ?thesis
        by (intro exI [of _ w]) (simp add: live_simps)
    qed
  next
    case False
    with Cons.prems b obtain bs1 where bs1: "first_fit (a + 12 + n) w bs = Some (p, bs1)"
      "bs' = (n, f) # bs1" by (auto split: if_splits)
    from Cons.IH [OF bs1(1)] show ?thesis
      by (auto simp: b bs1(2) live_simps)
  qed
qed simp

lemma first_fit_None: "first_fit a w bs = None \<longleftrightarrow> (\<forall>(n, f) \<in> set bs. f \<longrightarrow> n < w)"
  by (induction a w bs rule: first_fit.induct) auto

lemma live_merge: "live a (merge bs) = live a bs"
  by (induction bs arbitrary: a rule: merge.induct) (auto simp: live_simps add.assoc)

lemma live_release: "(p, n) \<in> live a bs \<Longrightarrow> live a (release a p bs) = live a bs - {(p, n)}"
proof (induction bs arbitrary: a)
  case (Cons b bs)
  then show ?case
    by (cases b) (fastforce simp: live_simps dest: live_ge split: if_splits)
qed (simp add: live_simps)

text \<open>No two neighbours are both free: what \<open>coalesce\<close> establishes and \<open>kmalloc\<close> keeps.\<close>

fun coalesced :: "cells \<Rightarrow> bool" where
  "coalesced ((n, f) # (k, g) # bs) \<longleftrightarrow> \<not> (f \<and> g) \<and> coalesced ((k, g) # bs)"
| "coalesced bs \<longleftrightarrow> True"

lemma merge_hd_free: "bs \<noteq> [] \<Longrightarrow> snd (hd (merge bs)) = snd (hd bs)"
  by (induction bs rule: merge.induct) auto

lemma coalesced_Cons:
  "coalesced ((n, f) # bs) \<longleftrightarrow> (bs \<noteq> [] \<longrightarrow> \<not> (f \<and> snd (hd bs))) \<and> coalesced bs"
  by (cases bs) auto

lemma coalesced_merge: "coalesced (merge bs)"
  by (induction bs rule: merge.induct)
     (auto simp: coalesced_Cons merge_hd_free simp del: coalesced.simps(1) merge.simps(1)
        simp add: merge.simps(1) split: if_splits)

lemma first_fit_hd: "first_fit a w bs = Some (p, bs') \<Longrightarrow> snd (hd bs') \<Longrightarrow> snd (hd bs)"
  by (cases bs) (auto split: if_splits)

lemma coalesced_first_fit:
  "first_fit a w bs = Some (p, bs') \<Longrightarrow> coalesced bs \<Longrightarrow> coalesced bs'"
proof (induction a w bs arbitrary: p bs' rule: first_fit.induct)
  case (2 a w n f bs)
  then show ?case
    by (auto simp: coalesced_Cons simp del: coalesced.simps(1) dest: first_fit_hd split: if_splits)
qed simp

lemma merge_id: "coalesced bs \<Longrightarrow> merge bs = bs"
  by (induction bs rule: merge.induct) auto

lemma merge_Cons_used: "merge ((n, False) # bs) = (n, False) # merge bs"
  by (cases bs) auto

text \<open>Taking a block and giving it back leaves a coalesced heap as it was.\<close>

lemma merge_release_first_fit:
  "first_fit a w bs = Some (p, bs') \<Longrightarrow> coalesced bs \<Longrightarrow> merge (release a p bs') = bs"
proof (induction bs arbitrary: a p bs')
  case (Cons b bs)
  obtain n f where b: "b = (n, f)" by (cases b)
  show ?case
  proof (cases "f \<and> w \<le> n")
    case True
    have "merge ((n, True) # bs) = (n, True) # bs"
      using Cons.prems(2) True b by (intro merge_id) simp
    moreover have "n = w + 12 + (n - w - 12)" if "\<not> n < w + 20" using that by simp
    ultimately show ?thesis using Cons.prems(1) True b by (auto split: if_splits)
  next
    case False
    with Cons.prems b obtain bs1 where bs1: "first_fit (a + 12 + n) w bs = Some (p, bs1)"
      "bs' = (n, f) # bs1" by (auto split: if_splits)
    have p: "p \<noteq> a + 12" using first_fit_live [OF bs1(1)] by auto
    have co: "coalesced bs" using Cons.prems(2) b by (cases bs) auto
    have IH: "merge (release (a + 12 + n) p bs1) = bs" by (rule Cons.IH [OF bs1(1) co])
    have ne: "release (a + 12 + n) p bs1 \<noteq> []"
      using first_fit_nonempty [OF bs1(1)] by (simp add: release_Nil)
    then have "snd (hd bs) = snd (hd (release (a + 12 + n) p bs1))"
      using merge_hd_free [OF ne] IH by simp
    moreover have "bs \<noteq> []" using ne IH merge_nonempty by metis
    ultimately have "merge ((n, f) # release (a + 12 + n) p bs1) = (n, f) # bs"
      using ne IH Cons.prems(2) b by (cases "release (a + 12 + n) p bs1") (auto simp: coalesced_Cons)
    with p b bs1(2) show ?thesis by simp
  qed
qed simp

subsection \<open>Accounting\<close>

fun used_bytes :: "cells \<Rightarrow> nat" where
  "used_bytes [] = 0"
| "used_bytes ((n, f) # bs) = (if f then 0 else n) + used_bytes bs"

fun free_bytes :: "cells \<Rightarrow> nat" where
  "free_bytes [] = 0"
| "free_bytes ((n, f) # bs) = (if f then n else 0) + free_bytes bs"

lemma bytes_total:
  "chained hs a e bs \<Longrightarrow> a + used_bytes bs + free_bytes bs + 12 * length bs = e"
  by (induction bs arbitrary: a) fastforce+

lemma stats_from_chain:
  "chained (headers h) a e bs \<Longrightarrow> bs \<noteq> [] \<Longrightarrow> 0 < a \<Longrightarrow> e < 4294967296 \<Longrightarrow>
   stats_from h (of_nat a) u v k =
     Some (u + of_nat (used_bytes bs), v + of_nat (free_bytes bs), k + of_nat (length bs))"
proof (induction bs arbitrary: a u v k)
  case (Cons b bs)
  obtain n f where b: "b = (n, f)" by (cases b)
  from Cons.prems(1) b have ch: "chained (headers h) a e ((n, f) # bs)" by simp
  obtain blk where blk: "headers h (of_nat a) = Some blk" "unat (bsize blk) = n"
    "(bfree blk \<noteq> 0) = f" "bnext blk = (if bs = [] then 0 else of_nat (a + 12 + n))"
    "chained (headers h) (a + 12 + n) e bs" "(of_nat a :: u32) \<noteq> 0"
    using ch Cons.prems(3,4) by (rule chained_ConsE)
  have n: "bsize blk = of_nat n" using blk(2) by auto
  have last: "stats_from h 0 u v k = Some (u, v, k)" for u v k
    by (subst stats_from.simps) simp
  have IH: "stats_from h (bnext blk) u v k = Some (u + of_nat (used_bytes bs),
      v + of_nat (free_bytes bs), k + of_nat (length bs))" for u v k
  proof (cases "bs = []")
    case True
    then show ?thesis by (simp add: blk(4) last)
  next
    case False
    then show ?thesis using Cons.IH [OF blk(5) False _ Cons.prems(4)] blk(4) by simp
  qed
  show ?case
    using blk b IH by (subst stats_from.simps) (auto simp: n algebra_simps)
qed simp

subsection \<open>The heap as an allocator\<close>

text \<open>The contract's view of the heap: some abstract heap holds exactly these blocks.\<close>

definition heap_holds :: "nat \<Rightarrow> heap \<Rightarrow> (nat \<times> nat) set \<Rightarrow> bool" where
  "heap_holds a h B \<longleftrightarrow> (\<exists>bs. arena_ok a \<and> heap_abs a h bs \<and> coalesced bs \<and> B = live a bs)"

lemma live_bounds:
  assumes "heap_abs a h bs" "(p, n) \<in> live a bs"
  shows "a + 12 \<le> p \<and> p + n \<le> a + 262144"
  using placed_bounds [of "headers h" a "a + 262144" bs p n False] assms
  by (auto simp: heap_abs_def live_def)

lemma live_word:
  assumes "arena_ok a" "heap_abs a h bs" "(p, n) \<in> live a bs"
  shows "unat (of_nat p :: u32) = p"
  using live_bounds [OF assms(2,3)] assms(1) by (intro unat_offset) (simp add: arena_ok_def)

lemma kmalloc_holds:
  assumes "heap_holds a h B" "unat n \<le> 4294967288"
  shows "\<exists>p h'. kmalloc h n = Some (p, h') \<and>
    (p = 0 \<and> heap_holds a h' B \<or>
     p \<noteq> 0 \<and> unat p \<notin> fst ` B \<and> (\<exists>k \<ge> unat n. heap_holds a h' (insert (unat p, k) B)))"
proof (cases "n = 0")
  case True
  with assms(1) show ?thesis by (simp add: kmalloc_def)
next
  case False
  from assms(1) obtain bs where bs: "arena_ok a" "heap_abs a h bs" "coalesced bs" "B = live a bs"
    by (auto simp: heap_holds_def)
  show ?thesis
  proof (cases "first_fit a (unat (align_up n)) bs")
    case None
    with kmalloc_abs [OF bs(1,2) False] assms(1) show ?thesis by simp
  next
    case (Some r)
    then obtain p bs' where ff: "first_fit a (unat (align_up n)) bs = Some (p, bs')" by (cases r) auto
    with kmalloc_abs [OF bs(1,2) False] obtain h' where h': "kmalloc h n = Some (of_nat p, h')"
      "heap_abs a h' bs'" by auto
    from first_fit_live [OF ff] obtain k where k: "unat (align_up n) \<le> k"
      "live a bs' = insert (p, k) (live a bs)" "p \<notin> fst ` live a bs" by blast
    have w: "unat (of_nat p :: u32) = p" using live_word [OF bs(1) h'(2), of p k] k(2) by simp
    have "heap_holds a h' (insert (p, k) B)"
      using bs h'(2) k(2) coalesced_first_fit [OF ff bs(3)] by (auto simp: heap_holds_def)
    moreover have "(of_nat p :: u32) \<noteq> 0"
      using live_bounds [OF h'(2), of p k] k(2) w by auto
    moreover have "unat n \<le> k" using align_up_bounds(1) [OF assms(2)] k(1) by simp
    ultimately show ?thesis using h'(1) k(3) bs(4) by (auto simp: w)
  qed
qed

lemma kfree_holds:
  assumes "heap_holds a h B" "(unat p, k) \<in> B"
  shows "\<exists>h'. kfree h p = Some h' \<and> heap_holds a h' (B - {(unat p, k)})"
proof -
  from assms(1) obtain bs where bs: "arena_ok a" "heap_abs a h bs" "B = live a bs"
    by (auto simp: heap_holds_def)
  from kfree_abs [OF bs(1,2)] assms(2) bs(3) obtain h' where
    "kfree h p = Some h'" "heap_abs a h' (merge (release a (unat p) bs))" by fastforce
  then show ?thesis
    using bs assms(2) by (auto simp: heap_holds_def live_merge live_release coalesced_merge)
qed

interpretation kernel_heap: allocator kmalloc kfree "heap_holds a" "a + 12" "a + 262144" for a
proof
  fix h B and n :: u32 assume "heap_holds a h B" "unat n \<le> 4294967288"
  then show "\<exists>p h'. kmalloc h n = Some (p, h') \<and>
    (p = 0 \<and> heap_holds a h' B \<or>
     p \<noteq> 0 \<and> unat p \<notin> fst ` B \<and> (\<exists>k \<ge> unat n. heap_holds a h' (insert (unat p, k) B)))"
    by (rule kmalloc_holds)
next
  fix h B k and p :: u32 assume "heap_holds a h B" "(unat p, k) \<in> B"
  then show "\<exists>h'. kfree h p = Some h' \<and> heap_holds a h' (B - {(unat p, k)})"
    by (rule kfree_holds)
next
  fix h B p k q l assume "heap_holds a h B" "(p, k) \<in> B" "(q, l) \<in> B"
  then show "(p, k) = (q, l) \<or> p + k \<le> q \<or> q + l \<le> p"
    using live_separate by (fastforce simp: heap_holds_def)
next
  fix h B p k assume "heap_holds a h B" "(p, k) \<in> B"
  then show "a + 12 \<le> p \<and> p + k \<le> a + 262144"
    using live_bounds by (auto simp: heap_holds_def)
qed

subsection \<open>Properties\<close>

lemma live_finite: "finite (live a bs)"
  by (induction bs arbitrary: a) (auto simp: live_simps split: prod.splits)

lemma live_sum: "(\<Sum>r \<in> live a bs. snd r) = used_bytes bs"
proof (induction bs arbitrary: a)
  case (Cons b bs)
  have "(a + 12, fst b) \<notin> live (a + 12 + fst b) bs" by (auto dest: live_ge)
  with Cons show ?case by (cases b) (auto simp: live_simps live_finite)
qed (simp add: live_simps)

lemma heap_init_holds: "arena_ok a \<Longrightarrow> heap_holds a (heap_init (of_nat a) h) {}"
  using heap_init_abs by (fastforce simp: heap_holds_def live_simps)

definition fresh_heap :: heap where
  "fresh_heap = \<lparr>headers = Map.empty, first = 0\<rparr>"

text \<open>
  C8: \<open>kmalloc\<close> and \<open>kfree\<close> are first fit with merging. On a heap whose header list tiles the arena: the pointer \<open>kmalloc\<close> returns
  and the header list it leaves are those of the abstract first-fit search for the request rounded up to a multiple of eight;
  it returns \<open>NULL\<close>, changing nothing, for a request of 0 and exactly when no free block is that large. Requests above
  2^32 - 8 are rounded to 0, since \<open>align_up\<close> wraps. \<open>kfree\<close> of a block that is handed out gives the list in which
  that block is free and all neighbouring free blocks are merged, so that the others stay handed out and no two free blocks are adjacent;
  of \<open>NULL\<close> it does nothing.
\<close>

theorem heap_refines_first_fit:
  assumes "arena_ok a" "heap_abs a h bs"
  shows "(let w = if unat n \<le> 4294967288 then (unat n + 7) div 8 * 8 else 0 in
      if n = 0 then kmalloc h n = Some (0, h)
      else case first_fit a w bs of
        None \<Rightarrow> kmalloc h n = Some (0, h) \<and> (\<forall>(k, f) \<in> set bs. f \<longrightarrow> k < w)
      | Some (p, bs') \<Rightarrow> \<exists>h'. kmalloc h n = Some (of_nat p, h') \<and> p < 2 ^ 32 \<and> heap_abs a h' bs') \<and>
    (\<forall>(p, k) \<in> live a bs. let bs' = merge (release a p bs) in
      (\<exists>h'. kfree h (of_nat p) = Some h' \<and> heap_abs a h' bs') \<and> live a bs' = live a bs - {(p, k)} \<and> coalesced bs') \<and>
    kfree h 0 = Some h"
proof (intro conjI)
  have w: "unat (align_up n) = (if unat n \<le> 4294967288 then (unat n + 7) div 8 * 8 else 0)"
    by (simp add: align_up_nat align_up_wraps)
  show "let w = if unat n \<le> 4294967288 then (unat n + 7) div 8 * 8 else 0 in
      if n = 0 then kmalloc h n = Some (0, h)
      else case first_fit a w bs of
        None \<Rightarrow> kmalloc h n = Some (0, h) \<and> (\<forall>(k, f) \<in> set bs. f \<longrightarrow> k < w)
      | Some (p, bs') \<Rightarrow> \<exists>h'. kmalloc h n = Some (of_nat p, h') \<and> p < 2 ^ 32 \<and> heap_abs a h' bs'"
  proof (cases "n = 0")
    case True
    then show ?thesis by (simp add: kmalloc_def)
  next
    case False
    have "p < 2 ^ 32" if "first_fit a v bs = Some (p, bs')" "heap_abs a h' bs'" for v p bs' h'
    proof -
      from first_fit_live [OF that(1)] obtain k where "(p, k) \<in> live a bs'" by auto
      with live_bounds [OF that(2)] assms(1) show ?thesis by (fastforce simp: arena_ok_def)
    qed
    then show ?thesis
      using kmalloc_abs [OF assms False] first_fit_None [of a "unat (align_up n)" bs] False
      unfolding w [symmetric] Let_def by (auto split: option.splits)
  qed
  show "\<forall>(p, k) \<in> live a bs. let bs' = merge (release a p bs) in
      (\<exists>h'. kfree h (of_nat p) = Some h' \<and> heap_abs a h' bs') \<and> live a bs' = live a bs - {(p, k)} \<and> coalesced bs'"
    using kfree_abs [OF assms] by (auto simp: live_merge live_release coalesced_merge)
  show "kfree h 0 = Some h" by (simp add: kfree_def)
qed

theorem heap_refines_first_fit_witness:
  "\<exists>h' h''. kmalloc (heap_init 1048576 fresh_heap) 100 = Some (1048588, h') \<and>
    heap_abs 1048576 h' [(104, False), (262016, True)] \<and>
    kfree h' 1048588 = Some h'' \<and> heap_abs 1048576 h'' [(262132, True)]"
proof -
  have ok: "arena_ok 1048576" by (simp add: arena_ok_def)
  have abs: "heap_abs 1048576 (heap_init 1048576 fresh_heap) [(262132, True)]"
    using heap_init_abs [OF ok, of fresh_heap] by simp
  from heap_refines_first_fit [OF ok abs, of 100] obtain h' where
    h': "kmalloc (heap_init 1048576 fresh_heap) 100 = Some (1048588, h')" "heap_abs 1048576 h' [(104, False), (262016, True)]"
    by auto
  from heap_refines_first_fit [OF ok h'(2), of 1] h' show ?thesis by (auto simp: live_simps)
qed

text \<open>
  C25: round trip. On a coalesced heap, giving back what \<open>kmalloc\<close> has just handed out restores
  the heap exactly: the block that was split is whole again.
\<close>

theorem kmalloc_kfree_restores:
  assumes "arena_ok a" "heap_abs a h bs" "coalesced bs" "kmalloc h n = Some (p, h')" "p \<noteq> 0"
  shows "\<exists>h''. kfree h' p = Some h'' \<and> heap_abs a h'' bs"
proof -
  have n: "n \<noteq> 0" using assms(4,5) by (auto simp: kmalloc_def)
  from kmalloc_abs [OF assms(1,2) n] assms(4,5) obtain q bs' where
    ff: "first_fit a (unat (align_up n)) bs = Some (q, bs')" and p: "p = of_nat q"
    and abs': "heap_abs a h' bs'"
    by (auto split: option.splits)
  from first_fit_live [OF ff] obtain k where "(q, k) \<in> live a bs'" by auto
  from kfree_abs [OF assms(1) abs' this] merge_release_first_fit [OF ff assms(3)] p
  show ?thesis by auto
qed

theorem kmalloc_kfree_restores_witness:
  "\<exists>h' h''. kmalloc (heap_init 1048576 fresh_heap) 100 = Some (1048588, h') \<and>
     kfree h' 1048588 = Some h'' \<and> heap_abs 1048576 h'' [(262132, True)]"
proof -
  have ok: "arena_ok 1048576" by (simp add: arena_ok_def)
  have abs: "heap_abs 1048576 (heap_init 1048576 fresh_heap) [(262132, True)]"
    using heap_init_abs [OF ok, of fresh_heap] by simp
  obtain h' where h': "kmalloc (heap_init 1048576 fresh_heap) 100 = Some (1048588, h')"
    using kmalloc_abs [OF ok abs, of 100] by (auto simp: align_up_nat)
  show ?thesis
    using kmalloc_kfree_restores [OF ok abs _ h'] h' by auto
qed

text \<open>
  C9: memory safety of the whole heap. From \<open>heap_init\<close>, any sequence of requests by a client that frees only what
  it holds and asks for at most 2^32 - 8 bytes at a time (\<open>moderate\<close>: above that \<open>align_up\<close> wraps, and \<open>kmalloc\<close> grants an
  empty block instead of refusing) is served without undefined behaviour and without an endless loop; the regions it
  holds at the end, each as long as it asked for, are pairwise disjoint and inside the arena.
\<close>

theorem heap_client_safe:
  assumes "arena_ok a" "list_all moderate rs"
  shows "\<exists>h' held. serve kmalloc kfree rs (heap_init (of_nat a) h, []) = Some (h', held) \<and>
    (\<forall>i j. i < j \<longrightarrow> j < length held \<longrightarrow> apart (held ! i) (held ! j)) \<and>
    (\<forall>(p, n) \<in> set held. a + 12 \<le> unat p \<and> unat p + unat n \<le> a + 262144)"
  using kernel_heap.serve_safe [OF heap_init_holds [OF assms(1)] assms(2)] .

theorem heap_client_safe_witness:
  "\<exists>h' held. serve kmalloc kfree [Alloc 100, Alloc 7, Free 1, Alloc 300000]
      (heap_init 1048576 fresh_heap, []) = Some (h', held)"
  using heap_client_safe [of 1048576 "[Alloc 100, Alloc 7, Free 1, Alloc 300000]" fresh_heap]
  by (simp add: arena_ok_def moderate_def) blast

text \<open>
  accounting. \<open>heap_stats\<close> always returns; used bytes, free bytes and one 12-byte header per
  block add up to the arena, and the used bytes are those of the blocks handed out.
\<close>

theorem heap_stats_accounts:
  assumes "heap_holds a h B"
  shows "\<exists>u v k. heap_stats h = Some (u, v, k) \<and> unat u + unat v + 12 * unat k = 262144 \<and>
    unat u = (\<Sum>r \<in> B. snd r)"
proof -
  from assms obtain bs where bs: "arena_ok a" "heap_abs a h bs" "B = live a bs"
    by (auto simp: heap_holds_def)
  then have ch: "chained (headers h) a (a + 262144) bs" by (simp add: heap_abs_def)
  from bytes_total [OF ch] have tot: "used_bytes bs + free_bytes bs + 12 * length bs = 262144" by simp
  have "heap_stats h = Some (of_nat (used_bytes bs), of_nat (free_bytes bs), of_nat (length bs))"
    using stats_from_chain [OF ch, of 0 0 0] bs by (simp add: heap_abs_def arena_ok_def heap_stats_def)
  then show ?thesis using tot bs(3) by (simp add: unat_offset live_sum)
qed

theorem heap_stats_accounts_witness:
  "\<exists>u v k. heap_stats (heap_init 1048576 fresh_heap) = Some (u, v, k) \<and>
    unat u + unat v + 12 * unat k = 262144 \<and> unat u = 0"
  using heap_stats_accounts [OF heap_init_holds [of 1048576 fresh_heap]]
  by (simp add: arena_ok_def)

text \<open>
  the rounding in \<open>align_up\<close> is not guarded. A request for any of the seven largest sizes
  wraps round to zero bytes, and \<open>kmalloc\<close> on a fresh heap answers with a valid pointer to a
  block that holds nothing, where the header file promises at least the size asked for, or \<open>NULL\<close>.
\<close>

theorem kmalloc_huge_gets_empty_block:
  assumes "arena_ok a" "unat n > 4294967288"
  shows "\<exists>h'. kmalloc (heap_init (of_nat a) h) n = Some (of_nat (a + 12), h') \<and>
    heap_abs a h' [(0, False), (262120, True)]"
proof -
  have "n \<noteq> 0" using assms(2) by auto
  from kmalloc_abs [OF assms(1) heap_init_abs [OF assms(1)] this, of h] show ?thesis
    by (simp add: align_up_wraps [OF assms(2)])
qed

theorem kmalloc_huge_gets_empty_block_witness:
  "\<exists>h'. kmalloc (heap_init 1048576 fresh_heap) 0xFFFFFFFF = Some (1048588, h') \<and>
    heap_abs 1048576 h' [(0, False), (262120, True)]"
  using kmalloc_huge_gets_empty_block [of 1048576 "0xFFFFFFFF" fresh_heap]
  by (simp add: arena_ok_def)

text \<open>
  a header is 12 bytes, not a multiple of \<open>ALIGNMENT\<close>. Even in an arena aligned to eight
  bytes, the first block handed out is never aligned to eight.
\<close>

theorem kmalloc_first_misaligned:
  assumes "arena_ok a" "8 dvd a" "0 < unat n" "unat n \<le> 262128"
  shows "\<exists>p h'. kmalloc (heap_init (of_nat a) h) n = Some (p, h') \<and> unat p = a + 12 \<and> unat p mod 8 = 4"
proof -
  have "n \<noteq> 0" using assms(3) by auto
  moreover have "(unat n + 7) div 8 * 8 \<le> 262132"
    using div_le_mono [of "unat n + 7" 262135 8] assms(4) by simp
  ultimately obtain h' where "kmalloc (heap_init (of_nat a) h) n = Some (of_nat (a + 12), h')"
    using kmalloc_abs [OF assms(1) heap_init_abs [OF assms(1)], of n h] assms(4)
    by (auto simp: align_up_nat)
  moreover have "unat (of_nat (a + 12) :: u32) = a + 12"
    using assms(1) by (intro unat_offset) (simp add: arena_ok_def)
  moreover have "(a + 12) mod 8 = 4" using assms(2) by presburger
  ultimately show ?thesis by metis
qed

theorem kmalloc_first_misaligned_witness:
  "\<exists>p h'. kmalloc (heap_init 1048576 fresh_heap) 8 = Some (p, h') \<and> unat p mod 8 = 4"
  using kmalloc_first_misaligned [of 1048576 8 fresh_heap] by (auto simp: arena_ok_def)

lemma mult_overflow_check:
  fixes c e :: u32
  assumes "c \<noteq> 0"
  shows "(c * e) div c = e \<longleftrightarrow> unat c * unat e < 4294967296"
proof -
  have c: "0 < unat c" using assms by (simp add: unat_gt_0)
  have eq: "(c * e) div c = e \<longleftrightarrow> (unat c * unat e) mod 4294967296 div unat c = unat e"
    by (simp add: word_unat_eq_iff unat_div unat_word_ariths)
  show ?thesis
  proof (cases "unat c * unat e < 4294967296")
    case True
    then show ?thesis using c eq by simp
  next
    case False
    have "(unat c * unat e) mod 4294967296 < unat c * unat e"
      using False mod_less_divisor [of 4294967296 "unat c * unat e"] by linarith
    then have "(unat c * unat e) mod 4294967296 div unat c < unat e"
      by (simp add: less_mult_imp_div_less mult.commute)
    with False eq show ?thesis by simp
  qed
qed

text \<open>
  \<open>kcalloc\<close>. It always returns. When \<open>count * size\<close> does not fit in 32 bits it refuses and
  changes nothing; otherwise a pointer it returns is to a new block at least that large whose
  bytes are all zero, no other byte of memory has changed, and \<open>NULL\<close> leaves memory alone.
\<close>

theorem kcalloc_correct:
  assumes "heap_holds a h B" "unat c * unat e \<le> 4294967288 \<or> unat c * unat e \<ge> 4294967296"
  shows "\<exists>p h' m'. kcalloc h m c e = Some (p, h', m') \<and>
    (if p = 0 then m' = m \<and> heap_holds a h' B
     else unat c * unat e \<le> 4294967288 \<and> unat p \<notin> fst ` B \<and>
       (\<exists>k \<ge> unat c * unat e. heap_holds a h' (insert (unat p, k) B)) \<and>
       bytes_at m' p (unat c * unat e) = replicate (unat c * unat e) 0 \<and>
       (\<forall>x. \<not> within x p (unat c * unat e) \<longrightarrow> m' x = m x))"
proof (cases "c \<noteq> 0 \<and> (c * e) div c \<noteq> e")
  case True
  with assms(1) show ?thesis by (auto simp: kcalloc_def)
next
  case False
  then have fit: "unat c * unat e \<le> 4294967288"
    using assms(2) mult_overflow_check [of c e] by (cases "c = 0") auto
  then have total: "unat (c * e) = unat c * unat e" by (simp add: unat_word_ariths)
  obtain p h' where k: "kmalloc h (c * e) = Some (p, h')"
    "p = 0 \<and> heap_holds a h' B \<or>
     p \<noteq> 0 \<and> unat p \<notin> fst ` B \<and> (\<exists>k \<ge> unat (c * e). heap_holds a h' (insert (unat p, k) B))"
    using kmalloc_holds [OF assms(1), of "c * e"] fit total by auto
  let ?m = "if p \<noteq> 0 then mem_set m p 0 (c * e) else m"
  have "kcalloc h m c e = Some (p, h', ?m)" using False k(1) by (auto simp: kcalloc_def)
  moreover have "bytes_at ?m p (unat c * unat e) = replicate (unat c * unat e) 0"
    "\<forall>x. \<not> within x p (unat c * unat e) \<longrightarrow> ?m x = m x" if "p \<noteq> 0"
    using that total fit by (simp_all add: mem_set_def set_loop_bytes set_loop_other)
  ultimately show ?thesis using k(2) fit total
    by (intro exI [of _ p] exI [of _ h'] exI [of _ ?m]) auto
qed

theorem kcalloc_correct_witness:
  "\<exists>p h' m'. kcalloc (heap_init 1048576 fresh_heap) (\<lambda>_. 255) 4 25 = Some (p, h', m') \<and>
    (p = 0 \<or> bytes_at m' p 100 = replicate 100 0)"
  using kcalloc_correct [OF heap_init_holds [of 1048576 fresh_heap], of 4 25 "\<lambda>_. 255"]
  by (auto simp: arena_ok_def split: if_splits)

end
