(* ===== verification/PortIO.thy ===== *)
theory PortIO
  imports Prelude
begin

text \<open>
  \<^verbatim>\<open>include/io.h\<close>: the port instructions. The devices behind the ports are not code of the
  kernel, so they are a parameter of the model: a state \<open>'d\<close> of all the devices together and,
  in a \<open>bus\<close>, what each of the four instructions does to it. Every operation that touches a
  port takes the bus and the device state and returns the new device state.
\<close>

record 'd bus =
  port_in :: "'d \<Rightarrow> u16 \<Rightarrow> u8 \<times> 'd"
  port_out :: "'d \<Rightarrow> u16 \<Rightarrow> u8 \<Rightarrow> 'd"
  port_inw :: "'d \<Rightarrow> u16 \<Rightarrow> u16 \<times> 'd"
  port_outw :: "'d \<Rightarrow> u16 \<Rightarrow> u16 \<Rightarrow> 'd"

definition outb :: "'d bus \<Rightarrow> u16 \<Rightarrow> u8 \<Rightarrow> 'd \<Rightarrow> 'd" where
  [kernel_defs]: "outb b port v d = port_out b d port v"

definition inb :: "'d bus \<Rightarrow> u16 \<Rightarrow> 'd \<Rightarrow> u8 \<times> 'd" where
  [kernel_defs]: "inb b port d = port_in b d port"

definition outw :: "'d bus \<Rightarrow> u16 \<Rightarrow> u16 \<Rightarrow> 'd \<Rightarrow> 'd" where
  [kernel_defs]: "outw b port v d = port_outw b d port v"

definition inw :: "'d bus \<Rightarrow> u16 \<Rightarrow> 'd \<Rightarrow> u16 \<times> 'd" where
  [kernel_defs]: "inw b port d = port_inw b d port"

definition io_wait :: "'d bus \<Rightarrow> 'd \<Rightarrow> 'd" where
  "io_wait b d = outb b 0x80 0 d"

text \<open>
  A bus for observing port traffic: the device state is the log of the transfers made so far,
  newest first, and a function of the log gives the bytes that reads return.
\<close>

datatype transfer = OutB u16 u8 | InB u16 | OutW u16 u16 | InW u16

definition log_bus :: "(transfer list \<Rightarrow> u16 \<Rightarrow> u8) \<Rightarrow> (transfer list \<Rightarrow> u16 \<Rightarrow> u16) \<Rightarrow> transfer list bus" where
  "log_bus rb rw = \<lparr>
     port_in = (\<lambda>d p. (rb d p, InB p # d)),
     port_out = (\<lambda>d p v. OutB p v # d),
     port_inw = (\<lambda>d p. (rw d p, InW p # d)),
     port_outw = (\<lambda>d p v. OutW p v # d)\<rparr>"

end
