(* ===== verification/Gdt.thy ===== *)
theory Gdt
  imports PortIO
begin

text \<open>
  \<^verbatim>\<open>kernel/gdt.c\<close>: the Global Descriptor Table. \<open>gdt_set_entry\<close> scatters a base and a limit over
  the fields of a packed descriptor; the CPU gathers them again from the eight bytes. The lemmas
  show that it gathers what was scattered. Loading the table (\<open>gdt_flush\<close>, assembly) is the
  value \<open>gdt_init\<close> returns: the pointer structure handed to it.
\<close>

record gdt_entry =
  limit_low :: u16
  base_low :: u16
  base_middle :: u8
  access :: u8
  granularity :: u8
  base_high :: u8

record gdt_pointer =
  gp_limit :: u16
  gp_base :: u32

definition GDT_KERNEL_CODE :: u16 where "GDT_KERNEL_CODE = 0x08"
definition GDT_KERNEL_DATA :: u16 where "GDT_KERNEL_DATA = 0x10"
definition GDT_USER_CODE :: u16 where "GDT_USER_CODE = 0x18"
definition GDT_USER_DATA :: u16 where "GDT_USER_DATA = 0x20"

lemmas gdt_selectors =
  GDT_KERNEL_CODE_def GDT_KERNEL_DATA_def GDT_USER_CODE_def GDT_USER_DATA_def

definition gdt_set_entry ::
    "gdt_entry list \<Rightarrow> nat \<Rightarrow> u32 \<Rightarrow> u32 \<Rightarrow> u8 \<Rightarrow> u8 \<Rightarrow> gdt_entry list option" where
  "gdt_set_entry gdt index base limit acc flags = aset gdt index
     \<lparr>limit_low = ucast (limit AND 0xFFFF),
      base_low = ucast (base AND 0xFFFF),
      base_middle = ucast (drop_bit 16 base AND 0xFF),
      access = acc,
      granularity = ucast (drop_bit 16 limit AND 0x0F) OR (flags AND 0xF0),
      base_high = ucast (drop_bit 24 base AND 0xFF)\<rparr>"

text \<open>The table of \<open>GDT_ENTRIES\<close> entries, zero before \<open>gdt_init\<close> as all static data.\<close>

definition gdt_zero :: gdt_entry where
  "gdt_zero = \<lparr>limit_low = 0, base_low = 0, base_middle = 0, access = 0, granularity = 0, base_high = 0\<rparr>"

definition gdt_boot :: "gdt_entry list" where
  "gdt_boot = [gdt_zero, gdt_zero, gdt_zero, gdt_zero, gdt_zero]"

text \<open>\<open>addr\<close> is the address the linker gives the table.\<close>

definition gdt_init :: "u32 \<Rightarrow> gdt_entry list \<Rightarrow> (gdt_pointer \<times> gdt_entry list) option" where
  "gdt_init addr gdt = do {
     gdt \<leftarrow> gdt_set_entry gdt 0 0 0 0 0;
     gdt \<leftarrow> gdt_set_entry gdt 1 0 0xFFFFF 0x9A 0xC0;
     gdt \<leftarrow> gdt_set_entry gdt 2 0 0xFFFFF 0x92 0xC0;
     gdt \<leftarrow> gdt_set_entry gdt 3 0 0xFFFFF 0xFA 0xC0;
     gdt \<leftarrow> gdt_set_entry gdt 4 0 0xFFFFF 0xF2 0xC0;
     Some (\<lparr>gp_limit = of_nat (8 * length gdt - 1), gp_base = addr\<rparr>, gdt) }"

subsection \<open>What the CPU reads\<close>

text \<open>The packed structure in memory, low byte of each field first.\<close>

definition entry_bytes :: "gdt_entry \<Rightarrow> bytes" where
  "entry_bytes e = le16 (limit_low e) @ le16 (base_low e) @
     [base_middle e, access e, granularity e, base_high e]"

text \<open>The base, limit and attributes the CPU gathers from a descriptor's eight bytes.\<close>

definition descriptor_base :: "bytes \<Rightarrow> u32" where
  "descriptor_base bs = ucast (bs ! 2) OR push_bit 8 (ucast (bs ! 3)) OR
     push_bit 16 (ucast (bs ! 4)) OR push_bit 24 (ucast (bs ! 7))"

definition descriptor_limit :: "bytes \<Rightarrow> u32" where
  "descriptor_limit bs = ucast (bs ! 0) OR push_bit 8 (ucast (bs ! 1)) OR
     push_bit 16 (take_bit 4 (ucast (bs ! 6)))"

definition descriptor_present :: "bytes \<Rightarrow> bool" where
  "descriptor_present bs \<longleftrightarrow> bit (bs ! 5) 7"

definition descriptor_ring :: "bytes \<Rightarrow> nat" where
  "descriptor_ring bs = unat (drop_bit 5 (bs ! 5) AND 3)"

definition descriptor_executable :: "bytes \<Rightarrow> bool" where
  "descriptor_executable bs \<longleftrightarrow> bit (bs ! 5) 3"

text \<open>The bytes a segment spans: the limit counts 4 KiB pages when the granularity bit is set.\<close>

definition descriptor_span :: "bytes \<Rightarrow> int" where
  "descriptor_span bs = (uint (descriptor_limit bs) + 1) * (if bit (bs ! 6) 7 then 4096 else 1)"

text \<open>
  The checks the CPU makes on a use of a segment, as documented: present, a code or data segment and not one of the system's,
  of a type that allows the use (code is fetched, and read if bit 1 is set; data is read, and written if bit 1 is set), and the
  offset inside: below the span, or for data that expands down beyond it and within the 16 or 32 bits of its size bit. What comes
  out is the linear address. The size bit of a code segment selects 32-bit instructions; a conforming one runs with its caller's
  privilege.
\<close>

datatype segment_use = Use_fetch | Use_read | Use_write

definition descriptor_32bit :: "bytes \<Rightarrow> bool" where
  "descriptor_32bit bs \<longleftrightarrow> bit (bs ! 6) 6"

definition descriptor_conforming :: "bytes \<Rightarrow> bool" where
  "descriptor_conforming bs \<longleftrightarrow> descriptor_executable bs \<and> bit (bs ! 5) 2"

definition descriptor_allows :: "bytes \<Rightarrow> segment_use \<Rightarrow> bool" where
  "descriptor_allows bs u = (case u of Use_fetch \<Rightarrow> descriptor_executable bs
     | Use_read \<Rightarrow> \<not> descriptor_executable bs \<or> bit (bs ! 5) 1
     | Use_write \<Rightarrow> \<not> descriptor_executable bs \<and> bit (bs ! 5) 1)"

definition descriptor_inside :: "bytes \<Rightarrow> u32 \<Rightarrow> bool" where
  "descriptor_inside bs off \<longleftrightarrow> (if \<not> descriptor_executable bs \<and> bit (bs ! 5) 2
     then descriptor_span bs \<le> uint off \<and> (descriptor_32bit bs \<or> uint off < 65536)
     else uint off < descriptor_span bs)"

definition linear :: "bytes \<Rightarrow> segment_use \<Rightarrow> u32 \<Rightarrow> u32 option" where
  "linear bs u off = (if descriptor_present bs \<and> bit (bs ! 5) 4 \<and> descriptor_allows bs u \<and> descriptor_inside bs off
     then Some (descriptor_base bs + off) else None)"

lemma bit_numerals_u32:
  "bit (0xFFFF :: u32) n \<longleftrightarrow> n < 16" "bit (0xFF :: u32) n \<longleftrightarrow> n < 8" "bit (0xF :: u32) n \<longleftrightarrow> n < 4"
proof -
  have m: "(0xFFFF :: u32) = mask 16" "(0xFF :: u32) = mask 8" "(0xF :: u32) = mask 4"
    by (simp_all add: mask_eq_exp_minus_1)
  show "bit (0xFFFF :: u32) n \<longleftrightarrow> n < 16" "bit (0xFF :: u32) n \<longleftrightarrow> n < 8"
    "bit (0xF :: u32) n \<longleftrightarrow> n < 4"
    unfolding m by (auto simp: bit_mask_iff)
qed

lemma bit_f0: "bit (0xF0 :: u8) n \<longleftrightarrow> 4 \<le> n \<and> n < 8"
proof -
  have m: "(0xF0 :: u8) = push_bit 4 (mask 4)" by (simp add: mask_eq_exp_minus_1)
  show ?thesis unfolding m by (auto simp: bit_simps)
qed

text \<open>The masks in front of the casts only repeat what the casts do.\<close>

lemma ucast_masked:
  "(ucast ((v :: u32) AND 0xFFFF) :: u16) = ucast v"
  "(ucast (v AND 0xFF) :: u8) = ucast v"
  "(ucast (v AND 0xF) :: u8) = take_bit 4 (ucast v)"
  by (rule bit_word_eqI,
      simp only: bit_and_iff bit_unsigned_iff bit_numerals_u32 bit_take_bit_iff, auto)+

lemma flags_masked: "(flags :: u8) AND 0xF0 = push_bit 4 (drop_bit 4 flags)"
  by (rule bit_word_eqI, simp only: bit_and_iff bit_f0 bit_push_bit_iff bit_drop_bit_eq) auto

lemma bytes_base:
  "descriptor_base (entry_bytes
     \<lparr>limit_low = ll, base_low = ucast base, base_middle = ucast (drop_bit 16 base),
      access = acc, granularity = g, base_high = ucast (drop_bit 24 base)\<rparr>) = base"
  (is "?l = base")
proof (rule bit_word_eqI)
  fix n assume "n < LENGTH(32)"
  then consider "n < 8" | "8 \<le> n" "n < 16" | "16 \<le> n" "n < 24" | "24 \<le> n" "n < 32" by fastforce
  then show "bit ?l n \<longleftrightarrow> bit base n"
    by cases (auto simp: descriptor_base_def entry_bytes_def le16_def bit_or_iff
        bit_push_bit_iff bit_unsigned_iff bit_drop_bit_eq)
qed

lemma bytes_limit:
  "descriptor_limit (entry_bytes
     \<lparr>limit_low = ucast limit, base_low = bl, base_middle = bm, access = acc,
      granularity = take_bit 4 (ucast (drop_bit 16 limit)) OR push_bit 4 (drop_bit 4 flags), base_high = bh\<rparr>) =
   take_bit 20 limit"
  (is "?l = _")
proof (rule bit_word_eqI)
  fix n assume "n < LENGTH(32)"
  then consider "n < 8" | "8 \<le> n" "n < 16" | "16 \<le> n" "n < 20" | "20 \<le> n" "n < 24" | "24 \<le> n" "n < 32"
    by fastforce
  then show "bit ?l n \<longleftrightarrow> bit (take_bit 20 limit) n"
    by cases (auto simp: descriptor_limit_def entry_bytes_def le16_def bit_or_iff
        bit_push_bit_iff bit_unsigned_iff bit_drop_bit_eq bit_take_bit_iff)
qed

lemma granularity_flags:
  "drop_bit 4 (take_bit 4 (v :: u8) OR push_bit 4 (drop_bit 4 flags)) = drop_bit 4 flags"
  by (rule bit_word_eqI) (auto simp: bit_or_iff bit_push_bit_iff bit_drop_bit_eq bit_take_bit_iff
       dest: bit_imp_le_length)

text \<open>
  Whatever base and 20-bit limit \<open>gdt_set_entry\<close> is given, the CPU reads that
  base and that limit back from the packed entry, the access byte unchanged, and in the high half
  of byte 6 the flags; a limit above 20 bits is cut to its low 20. No other entry changes.
\<close>

lemma gdt_set_entry_read:
  assumes "gdt_set_entry gdt i base limit acc flags = Some gdt'"
  shows "length (entry_bytes (gdt' ! i)) = 8 \<and>
    descriptor_base (entry_bytes (gdt' ! i)) = base \<and>
    descriptor_limit (entry_bytes (gdt' ! i)) = take_bit 20 limit \<and>
    entry_bytes (gdt' ! i) ! 5 = acc \<and>
    drop_bit 4 (entry_bytes (gdt' ! i) ! 6) = drop_bit 4 flags \<and>
    length gdt' = length gdt \<and> (\<forall>j. j \<noteq> i \<longrightarrow> gdt' ! j = gdt ! j)"
proof -
  from assms have i: "i < length gdt" and g: "gdt' = gdt[i :=
     \<lparr>limit_low = ucast limit, base_low = ucast base, base_middle = ucast (drop_bit 16 base),
      access = acc, granularity = take_bit 4 (ucast (drop_bit 16 limit)) OR push_bit 4 (drop_bit 4 flags),
      base_high = ucast (drop_bit 24 base)\<rparr>]"
    unfolding gdt_set_entry_def ucast_masked flags_masked by (auto dest!: aset_SomeD)
  show ?thesis unfolding g
    using i granularity_flags [of "ucast (drop_bit 16 limit)" flags]
    by (simp add: bytes_base bytes_limit) (simp add: entry_bytes_def le16_def)
qed

lemma gdt_init_bytes:
  "map_option (\<lambda>(ptr, gdt). (ptr, map entry_bytes gdt)) (gdt_init addr gdt_boot) =
   Some (\<lparr>gp_limit = 39, gp_base = addr\<rparr>,
     [replicate 8 0, [0xFF, 0xFF, 0, 0, 0, 0x9A, 0xCF, 0], [0xFF, 0xFF, 0, 0, 0, 0x92, 0xCF, 0],
      [0xFF, 0xFF, 0, 0, 0, 0xFA, 0xCF, 0], [0xFF, 0xFF, 0, 0, 0, 0xF2, 0xCF, 0]])"
  by code_simp

text \<open>What the table held before does not matter.\<close>

lemma gdt_init_start:
  assumes "length gdt = 5"
  shows "gdt_init addr gdt = gdt_init addr gdt_boot"
proof -
  from assms obtain a b c d e where "gdt = [a, b, c, d, e]" by (auto simp: numeral_eq_Suc length_Suc_conv)
  then show ?thesis by (simp add: gdt_init_def gdt_set_entry_def aset_def gdt_boot_def)
qed

text \<open>A descriptor of the flat model, whatever its ring and type.\<close>

lemma flat_linear:
  assumes "descriptor_present bs" and "bit (bs ! 5) 4" and "bit (bs ! 5) 1" and "\<not> bit (bs ! 5) 2"
    and "descriptor_base bs = 0" and "descriptor_span bs = 2 ^ 32"
  shows "linear bs u off = (if (u = Use_fetch \<longrightarrow> descriptor_executable bs) \<and> (u = Use_write \<longrightarrow> \<not> descriptor_executable bs)
    then Some off else None)"
  using assms uint_bounded [of off] by (cases u) (auto simp: linear_def descriptor_allows_def descriptor_inside_def)

lemma flat_bytes:
  assumes "ds = [replicate 8 0, [0xFF, 0xFF, 0, 0, 0, 0x9A, 0xCF, 0], [0xFF, 0xFF, 0, 0, 0, 0x92, 0xCF, 0],
      [0xFF, 0xFF, 0, 0, 0, 0xFA, 0xCF, 0], [0xFF, 0xFF, 0, 0, 0, 0xF2, 0xCF, 0 :: u8]]"
  shows "length (concat ds) = 40 \<and> ds ! 0 = replicate 8 0 \<and>
    list_all (\<lambda>(sel, ring, exec). let d = ds ! (unat sel div 8) in
        unat sel mod 8 = 0 \<and> descriptor_present d \<and> descriptor_ring d = ring \<and> descriptor_executable d = exec \<and>
        descriptor_32bit d \<and> \<not> descriptor_conforming d \<and> bit (d ! 5) 4 \<and> bit (d ! 5) 1 \<and> \<not> bit (d ! 5) 2 \<and>
        descriptor_base d = 0 \<and> descriptor_span d = 2 ^ 32)
      [(GDT_KERNEL_CODE, 0, True), (GDT_KERNEL_DATA, 0, False), (GDT_USER_CODE, 3, True), (GDT_USER_DATA, 3, False)]"
  unfolding assms by code_simp

text \<open>
  C39: The descriptors mean to the CPU what the code says. Whatever base, limit, access byte and flags \<open>gdt_set_entry\<close> is given,
  for any entry of any table, the CPU gathers that base, the low 20 bits of that limit, that access byte and the high half of the
  flags from the eight bytes, and no other entry changes. And the table \<open>gdt_init\<close> builds is the flat model, whatever was in
  it: the null descriptor is all zeros, and behind the selector of \<^verbatim>\<open>gdt.h\<close> each of the four others is a present
  32-bit segment of the ring its name says, not conforming, through which every one of the 2^32 offsets is that linear
  address, for fetching and reading but not writing code, and for reading and writing but not fetching data. The limit given to the
  CPU is the size of the table less one, the base its address.
\<close>

theorem gdt_init_flat:
  assumes "length gdt = 5"
  shows "(\<forall>t i base limit acc flags t'. gdt_set_entry t i base limit acc flags = Some t' \<longrightarrow>
      length (entry_bytes (t' ! i)) = 8 \<and> descriptor_base (entry_bytes (t' ! i)) = base \<and>
      descriptor_limit (entry_bytes (t' ! i)) = take_bit 20 limit \<and> entry_bytes (t' ! i) ! 5 = acc \<and>
      drop_bit 4 (entry_bytes (t' ! i) ! 6) = drop_bit 4 flags \<and> length t' = length t \<and> (\<forall>j. j \<noteq> i \<longrightarrow> t' ! j = t ! j)) \<and>
    (\<exists>ptr gdt' ds. gdt_init addr gdt = Some (ptr, gdt') \<and> ds = map entry_bytes gdt' \<and>
      unat (gp_limit ptr) + 1 = length (concat ds) \<and> gp_base ptr = addr \<and> ds ! 0 = replicate 8 0 \<and>
      (\<forall>(sel, ring, exec) \<in> {(GDT_KERNEL_CODE, 0, True), (GDT_KERNEL_DATA, 0, False), (GDT_USER_CODE, 3, True), (GDT_USER_DATA, 3, False)}.
        let d = ds ! (unat sel div 8) in unat sel mod 8 = 0 \<and> descriptor_present d \<and> descriptor_ring d = ring \<and>
          descriptor_32bit d \<and> \<not> descriptor_conforming d \<and>
          (\<forall>u off. linear d u off = (if (u = Use_fetch \<longrightarrow> exec) \<and> (u = Use_write \<longrightarrow> \<not> exec) then Some off else None))))"
proof -
  from gdt_init_bytes [of addr] obtain gdt' where
    g: "gdt_init addr gdt = Some (\<lparr>gp_limit = 39, gp_base = addr\<rparr>, gdt')" and
    ds: "map entry_bytes gdt' =
       [replicate 8 0, [0xFF, 0xFF, 0, 0, 0, 0x9A, 0xCF, 0], [0xFF, 0xFF, 0, 0, 0, 0x92, 0xCF, 0],
        [0xFF, 0xFF, 0, 0, 0, 0xFA, 0xCF, 0], [0xFF, 0xFF, 0, 0, 0, 0xF2, 0xCF, 0]]"
    unfolding gdt_init_start [OF assms] by (cases "gdt_init addr gdt_boot") auto
  define ds where "ds = map entry_bytes gdt'"
  note f = flat_bytes [OF ds, folded ds_def, unfolded list.pred_inject(2) list.pred_inject(1) case_prod_conv Let_def]
  have "unat (gp_limit \<lparr>gp_limit = 39, gp_base = addr\<rparr>) + 1 = length (concat ds)" using f by simp
  moreover have "\<forall>(sel, ring, exec) \<in> {(GDT_KERNEL_CODE, 0, True), (GDT_KERNEL_DATA, 0, False), (GDT_USER_CODE, 3, True), (GDT_USER_DATA, 3, False)}.
        let d = ds ! (unat sel div 8) in unat sel mod 8 = 0 \<and> descriptor_present d \<and> descriptor_ring d = ring \<and>
          descriptor_32bit d \<and> \<not> descriptor_conforming d \<and>
          (\<forall>u off. linear d u off = (if (u = Use_fetch \<longrightarrow> exec) \<and> (u = Use_write \<longrightarrow> \<not> exec) then Some off else None))"
    using f by (simp add: Let_def flat_linear)
  moreover have "\<forall>t i base limit acc flags t'. gdt_set_entry t i base limit acc flags = Some t' \<longrightarrow>
      length (entry_bytes (t' ! i)) = 8 \<and> descriptor_base (entry_bytes (t' ! i)) = base \<and>
      descriptor_limit (entry_bytes (t' ! i)) = take_bit 20 limit \<and> entry_bytes (t' ! i) ! 5 = acc \<and>
      drop_bit 4 (entry_bytes (t' ! i) ! 6) = drop_bit 4 flags \<and> length t' = length t \<and> (\<forall>j. j \<noteq> i \<longrightarrow> t' ! j = t ! j)"
    using gdt_set_entry_read by blast
  ultimately show ?thesis using g f unfolding ds_def [symmetric]
    by (intro conjI exI [of _ "\<lparr>gp_limit = 39, gp_base = addr\<rparr>"] exI [of _ gdt'] exI [of _ ds]) (simp_all add: ds_def)
qed

theorem gdt_init_flat_witness:
  "\<exists>ptr gdt. gdt_init 0x1000 gdt_boot = Some (ptr, gdt) \<and> gp_base ptr = 0x1000 \<and>
     linear (entry_bytes (gdt ! 2)) Use_write 0xB8000 = Some 0xB8000 \<and> linear (entry_bytes (gdt ! 1)) Use_write 0xB8000 = None"
proof -
  have "length gdt_boot = 5" by (simp add: gdt_boot_def)
  from gdt_init_flat [OF this, of "0x1000"] obtain ptr gdt ds where
    g: "gdt_init 0x1000 gdt_boot = Some (ptr, gdt)" "ds = map entry_bytes gdt" "gp_base ptr = 0x1000" and
    d: "linear (ds ! 2) Use_write 0xB8000 = Some 0xB8000" "linear (ds ! 1) Use_write 0xB8000 = None"
    by (auto simp: gdt_selectors Let_def)
  have "length (map entry_bytes gdt) = 5" using g(1) gdt_init_bytes [of "0x1000"] by simp
  with g d show ?thesis by auto
qed

end
