(* ===== verification/Fish.thy ===== *)
theory Fish
  imports CString
begin

text \<open>
  \<^verbatim>\<open>fs/fish.c\<close>: the Fish filesystem in memory, a fixed array of nodes that name their parent by
  index. This theory holds the node array and the operations, in the order of the file; saving
  and loading are in the theory \<open>Fish_Disk\<close>, the tree of paths the array stands for and the
  theorems about it in \<open>Fish_Tree\<close>.

  An \<open>int\<close> of the structure is its 32-bit word. An index into \<open>nodes\<close> is read with
  \<^const>\<open>unat\<close>: a negative index is then far outside the array, and the access is \<^const>\<open>None\<close>.
  A string argument is the array it points into, from the pointer on; where the code tests a
  pointer for null the argument is an option, \<^const>\<open>None\<close> the null pointer, and using it
  is the monadic bind, so that a use of the null pointer is undefined.
\<close>

definition FISH_NAME_MAX :: nat where "FISH_NAME_MAX = 32"
definition FISH_MAX_NODES :: nat where "FISH_MAX_NODES = 64"
definition FISH_FILE_MAX :: nat where "FISH_FILE_MAX = 512"
definition FISH_PATH_MAX :: nat where "FISH_PATH_MAX = 256"

lemmas fish_sizes = FISH_NAME_MAX_def FISH_MAX_NODES_def FISH_FILE_MAX_def FISH_PATH_MAX_def

definition FISH_OK :: int where "FISH_OK = 0"
definition FISH_ERR_EXISTS :: int where "FISH_ERR_EXISTS = -1"
definition FISH_ERR_NOTDIR :: int where "FISH_ERR_NOTDIR = -2"
definition FISH_ERR_NOENT :: int where "FISH_ERR_NOENT = -3"
definition FISH_ERR_FULL :: int where "FISH_ERR_FULL = -4"
definition FISH_ERR_NAME :: int where "FISH_ERR_NAME = -5"
definition FISH_ERR_ISDIR :: int where "FISH_ERR_ISDIR = -6"
definition FISH_ERR_NOTEMPTY :: int where "FISH_ERR_NOTEMPTY = -7"
definition FISH_ERR_SPACE :: int where "FISH_ERR_SPACE = -8"
definition FISH_ERR_NODISK :: int where "FISH_ERR_NODISK = -9"
definition FISH_ERR_IO :: int where "FISH_ERR_IO = -10"
definition FISH_ERR_FORMAT :: int where "FISH_ERR_FORMAT = -11"

lemmas fish_codes = FISH_OK_def FISH_ERR_EXISTS_def FISH_ERR_NOTDIR_def FISH_ERR_NOENT_def
  FISH_ERR_FULL_def FISH_ERR_NAME_def FISH_ERR_ISDIR_def FISH_ERR_NOTEMPTY_def
  FISH_ERR_SPACE_def FISH_ERR_NODISK_def FISH_ERR_IO_def FISH_ERR_FORMAT_def

record node =
  n_name :: bytes
  n_used :: u32
  n_is_dir :: u32
  n_parent :: u32
  n_size :: u32
  n_data :: bytes

record fish =
  nodes :: "node list"
  current :: u32

subsection \<open>Helpers\<close>

text \<open>The loop of \<open>valid_name\<close>, from character \<open>i\<close> on.\<close>

fun valid_chars :: "nat \<Rightarrow> bytes \<Rightarrow> bool option" where
  "valid_chars i [] = None"
| "valid_chars i (c # s) =
     (if c = 0 then Some True
      else if FISH_NAME_MAX - 1 \<le> i then Some False
      else if c = 47 \<or> blank_or_control c then Some False
      else valid_chars (Suc i) s)"

definition valid_name :: "bytes option \<Rightarrow> bool option" where
  "valid_name name = (case name of None \<Rightarrow> Some False | Some s \<Rightarrow> do {
     c \<leftarrow> aget s 0;
     if c = 0 then Some False
     else do {
       ok \<leftarrow> valid_chars 0 s;
       if \<not> ok then Some False
       else do {
         dot \<leftarrow> str_eq s (literal ''.'');
         dots \<leftarrow> str_eq s (literal ''..'');
         Some (\<not> dot \<and> \<not> dots) } } })"

text \<open>
  The loops over the node array, from node \<open>i\<close> on; the list is the rest of the array. The
  result is an \<open>int\<close>: an index, or -1.
\<close>

fun find_from :: "nat \<Rightarrow> u32 \<Rightarrow> bytes \<Rightarrow> node list \<Rightarrow> int option" where
  "find_from i parent name [] = Some (- 1)"
| "find_from i parent name (n # ns) =
     (if n_used n = 0 then find_from (Suc i) parent name ns
      else if n_parent n \<noteq> parent then find_from (Suc i) parent name ns
      else do {
        same \<leftarrow> str_eq (n_name n) name;
        if same then Some (int i) else find_from (Suc i) parent name ns })"

definition find_child :: "u32 \<Rightarrow> bytes \<Rightarrow> fish \<Rightarrow> int option" where
  "find_child parent name fs = find_from 0 parent name (nodes fs)"

fun unused_from :: "nat \<Rightarrow> node list \<Rightarrow> int" where
  "unused_from i [] = - 1"
| "unused_from i (n # ns) = (if n_used n = 0 then int i else unused_from (Suc i) ns)"

definition allocate :: "fish \<Rightarrow> int" where
  "allocate fs = unused_from 1 (drop 1 (nodes fs))"

definition set_node :: "nat \<Rightarrow> (node \<Rightarrow> node) \<Rightarrow> fish \<Rightarrow> fish option" where
  "set_node i f fs = do {
     n \<leftarrow> aget (nodes fs) i;
     ns \<leftarrow> aset (nodes fs) i (f n);
     Some (fs\<lparr>nodes := ns\<rparr>) }"

definition make_node :: "bytes option \<Rightarrow> u32 \<Rightarrow> fish \<Rightarrow> (int \<times> fish) option" where
  "make_node name is_dir fs = do {
     ok \<leftarrow> valid_name name;
     if \<not> ok then Some (FISH_ERR_NAME, fs)
     else do {
       s \<leftarrow> name;
       found \<leftarrow> find_child (current fs) s fs;
       if found \<ge> 0 then Some (FISH_ERR_EXISTS, fs)
       else let index = allocate fs in
         if index < 0 then Some (FISH_ERR_FULL, fs)
         else do {
           n \<leftarrow> aget (nodes fs) (nat index);
           written \<leftarrow> strcpy (n_name n) s;
           fs' \<leftarrow> set_node (nat index)
             (\<lambda>n. n\<lparr>n_name := written, n_used := 1, n_is_dir := is_dir,
                    n_parent := current fs, n_size := 0\<rparr>) fs;
           Some (index, fs') } } }"

subsection \<open>The public operations\<close>

definition blank_node :: node where
  "blank_node = \<lparr>n_name = replicate FISH_NAME_MAX 0, n_used = 0, n_is_dir = 0, n_parent = 0,
     n_size = 0, n_data = replicate FISH_FILE_MAX 0\<rparr>"

text \<open>\<open>fish_init\<close> starts from any state: the \<open>memset\<close> overwrites it.\<close>

definition fish_init :: "fish \<Rightarrow> fish option" where
  "fish_init fs = do {
     root \<leftarrow> strcpy (n_name blank_node) (literal ''/'');
     fs \<leftarrow> set_node 0 (\<lambda>n. n\<lparr>n_name := root, n_used := 1, n_is_dir := 1, n_parent := - 1, n_size := 0\<rparr>)
       (fs\<lparr>nodes := replicate FISH_MAX_NODES blank_node\<rparr>);
     Some (fs\<lparr>current := 0\<rparr>) }"

definition fish_mkdir :: "bytes option \<Rightarrow> fish \<Rightarrow> (int \<times> fish) option" where
  "fish_mkdir name fs = do {
     (result, fs) \<leftarrow> make_node name 1 fs;
     Some (if result < 0 then result else FISH_OK, fs) }"

definition fish_create :: "bytes option \<Rightarrow> fish \<Rightarrow> (int \<times> fish) option" where
  "fish_create name fs = do {
     (result, fs) \<leftarrow> make_node name 0 fs;
     Some (if result < 0 then result else FISH_OK, fs) }"

definition fish_chdir :: "bytes option \<Rightarrow> fish \<Rightarrow> (int \<times> fish) option" where
  "fish_chdir name fs = (case name of None \<Rightarrow> Some (FISH_ERR_NOENT, fs) | Some s \<Rightarrow> do {
     c \<leftarrow> aget s 0;
     if c = 0 then Some (FISH_ERR_NOENT, fs)
     else do {
       top \<leftarrow> str_eq s (literal ''/'');
       if top then Some (FISH_OK, fs\<lparr>current := 0\<rparr>)
       else do {
         stay \<leftarrow> str_eq s (literal ''.'');
         if stay then Some (FISH_OK, fs)
         else do {
           up \<leftarrow> str_eq s (literal ''..'');
           if up then do {
             n \<leftarrow> aget (nodes fs) (unat (current fs));
             Some (FISH_OK, if sint (n_parent n) \<ge> 0 then fs\<lparr>current := n_parent n\<rparr> else fs) }
           else do {
             index \<leftarrow> find_child (current fs) s fs;
             if index < 0 then Some (FISH_ERR_NOENT, fs)
             else do {
               n \<leftarrow> aget (nodes fs) (nat index);
               if n_is_dir n = 0 then Some (FISH_ERR_NOTDIR, fs)
               else Some (FISH_OK, fs\<lparr>current := word_of_int index\<rparr>) } } } } } })"

definition has_children :: "int \<Rightarrow> fish \<Rightarrow> bool" where
  "has_children index fs \<longleftrightarrow>
     list_ex (\<lambda>n. n_used n \<noteq> 0 \<and> sint (n_parent n) = index) (nodes fs)"

definition fish_remove :: "bytes \<Rightarrow> fish \<Rightarrow> (int \<times> fish) option" where
  "fish_remove name fs = do {
     index \<leftarrow> find_child (current fs) name fs;
     if index < 0 then Some (FISH_ERR_NOENT, fs)
     else do {
       n \<leftarrow> aget (nodes fs) (nat index);
       if n_is_dir n \<noteq> 0 \<and> has_children index fs then Some (FISH_ERR_NOTEMPTY, fs)
       else do {
         fs \<leftarrow> set_node (nat index) (\<lambda>n. n\<lparr>n_used := 0\<rparr>) fs;
         Some (FISH_OK, fs) } } }"

definition fish_write :: "bytes \<Rightarrow> bytes \<Rightarrow> fish \<Rightarrow> (int \<times> fish) option" where
  "fish_write name txt fs = do {
     index \<leftarrow> find_child (current fs) name fs;
     if index < 0 then Some (FISH_ERR_NOENT, fs)
     else do {
       n \<leftarrow> aget (nodes fs) (nat index);
       if n_is_dir n \<noteq> 0 then Some (FISH_ERR_ISDIR, fs)
       else do {
         len \<leftarrow> strlen txt;
         if len > FISH_FILE_MAX then Some (FISH_ERR_SPACE, fs)
         else do {
           written \<leftarrow> memcpy (n_data n) 0 txt len;
           fs \<leftarrow> set_node (nat index) (\<lambda>n. n\<lparr>n_data := written, n_size := of_nat len\<rparr>) fs;
           Some (FISH_OK, fs) } } } }"

text \<open>The sum \<open>size + length\<close> is computed in 32 bits.\<close>

definition fish_append :: "bytes \<Rightarrow> bytes \<Rightarrow> fish \<Rightarrow> (int \<times> fish) option" where
  "fish_append name txt fs = do {
     index \<leftarrow> find_child (current fs) name fs;
     if index < 0 then Some (FISH_ERR_NOENT, fs)
     else do {
       n \<leftarrow> aget (nodes fs) (nat index);
       if n_is_dir n \<noteq> 0 then Some (FISH_ERR_ISDIR, fs)
       else do {
         len \<leftarrow> strlen txt;
         if n_size n + of_nat len > of_nat FISH_FILE_MAX then Some (FISH_ERR_SPACE, fs)
         else do {
           written \<leftarrow> memcpy (n_data n) (unat (n_size n)) txt len;
           fs \<leftarrow> set_node (nat index) (\<lambda>n. n\<lparr>n_data := written, n_size := n_size n + of_nat len\<rparr>) fs;
           Some (FISH_OK, fs) } } } }"

text \<open>\<open>fish_read\<close>: no pointer, or the size stored in \<open>size_out\<close> and the array \<open>data\<close> pointed to.\<close>

definition fish_read :: "bytes \<Rightarrow> fish \<Rightarrow> (u32 \<times> bytes) option option" where
  "fish_read name fs = do {
     index \<leftarrow> find_child (current fs) name fs;
     if index < 0 then Some None
     else do {
       n \<leftarrow> aget (nodes fs) (nat index);
       if n_is_dir n \<noteq> 0 then Some None
       else Some (Some (n_size n, n_data n)) } }"

definition fish_first :: int where
  "fish_first = 0"

text \<open>
  \<open>fish_next\<close>: the next handle, and the name, kind and size it hands out (nothing is handed
  out with handle 0).
\<close>

fun next_from :: "nat \<Rightarrow> u32 \<Rightarrow> node list \<Rightarrow> int \<times> (bytes \<times> u32 \<times> u32) option" where
  "next_from i dir [] = (0, None)"
| "next_from i dir (n # ns) =
     (if n_used n = 0 then next_from (Suc i) dir ns
      else if n_parent n \<noteq> dir then next_from (Suc i) dir ns
      else (int i + 1, Some (n_name n, n_is_dir n, n_size n)))"

definition fish_next :: "int \<Rightarrow> fish \<Rightarrow> (int \<times> (bytes \<times> u32 \<times> u32) option) option" where
  "fish_next handle fs =
     (if handle < 0 then None
      else Some (next_from (nat handle) (current fs) (drop (nat handle) (nodes fs))))"

definition fish_save_cwd :: "fish \<Rightarrow> int" where
  "fish_save_cwd fs = sint (current fs)"

definition fish_restore_cwd :: "int \<Rightarrow> fish \<Rightarrow> fish option" where
  "fish_restore_cwd handle fs =
     (if handle \<ge> 0 \<and> handle < int FISH_MAX_NODES then do {
        n \<leftarrow> aget (nodes fs) (nat handle);
        if n_used n \<noteq> 0 \<and> n_is_dir n \<noteq> 0 then Some (fs\<lparr>current := word_of_int handle\<rparr>)
        else Some (fs\<lparr>current := 0\<rparr>) }
      else Some (fs\<lparr>current := 0\<rparr>))"

text \<open>
  \<open>fish_path\<close>: the indices from a node up to the root, at most \<open>k\<close> of them; then the names from
  the top down, each character stored while it and the terminator still fit.
\<close>

fun climb :: "nat \<Rightarrow> u32 \<Rightarrow> node list \<Rightarrow> nat list option" where
  "climb 0 node ns = Some []"
| "climb (Suc k) node ns =
     (if sint node > 0 then do {
        n \<leftarrow> aget ns (unat node);
        above \<leftarrow> climb k (n_parent n) ns;
        Some (unat node # above) }
      else Some [])"

definition put_char :: "nat \<Rightarrow> u8 \<Rightarrow> bytes \<times> nat \<Rightarrow> (bytes \<times> nat) option" where
  "put_char cap c = (\<lambda>(buffer, pos).
     if pos + 1 < cap then do { buffer \<leftarrow> aset buffer pos c; Some (buffer, pos + 1) }
     else Some (buffer, pos))"

fun put_name :: "nat \<Rightarrow> bytes \<Rightarrow> bytes \<times> nat \<Rightarrow> (bytes \<times> nat) option" where
  "put_name cap [] st = None"
| "put_name cap (c # name) st =
     (if c = 0 then Some st else do { st \<leftarrow> put_char cap c st; put_name cap name st })"

fun put_chain :: "nat \<Rightarrow> nat list \<Rightarrow> node list \<Rightarrow> bytes \<times> nat \<Rightarrow> (bytes \<times> nat) option" where
  "put_chain cap [] ns st = Some st"
| "put_chain cap (i # chain) ns st = do {
     n \<leftarrow> aget ns i;
     st \<leftarrow> put_char cap 47 st;
     st \<leftarrow> put_name cap (n_name n) st;
     put_chain cap chain ns st }"

definition fish_path :: "bytes \<Rightarrow> nat \<Rightarrow> fish \<Rightarrow> bytes option" where
  "fish_path buffer cap fs =
     (if cap = 0 then Some buffer
      else do {
        chain \<leftarrow> climb FISH_MAX_NODES (current fs) (nodes fs);
        if chain = [] then
          (if cap \<ge> 2 then do { buffer \<leftarrow> aset buffer 0 47; aset buffer 1 0 }
           else aset buffer 0 0)
        else do {
          (buffer, pos) \<leftarrow> put_chain cap (rev chain) (nodes fs) (buffer, 0);
          aset buffer pos 0 } })"

definition fish_error :: "int \<Rightarrow> bytes" where
  "fish_error code = literal
     (if code = FISH_OK then ''ok''
      else if code = FISH_ERR_EXISTS then ''already exists''
      else if code = FISH_ERR_NOTDIR then ''not a directory''
      else if code = FISH_ERR_NOENT then ''no such file or directory''
      else if code = FISH_ERR_FULL then ''filesystem is full''
      else if code = FISH_ERR_NAME then ''bad name''
      else if code = FISH_ERR_ISDIR then ''is a directory''
      else if code = FISH_ERR_NOTEMPTY then ''directory is not empty''
      else if code = FISH_ERR_SPACE then ''file is too big''
      else if code = FISH_ERR_NODISK then ''no disk found''
      else if code = FISH_ERR_IO then ''disk error''
      else if code = FISH_ERR_FORMAT then ''disk holds no valid Fish image''
      else ''unknown error'')"

end
