(* ===== verification/Tree_Spec.thy ===== *)
theory Tree_Spec
  imports Fish
begin

text \<open>
  What Fish promises, without nodes: a partial map from paths (lists of names) to entries, and
  a current directory. The operations return the codes of \<^verbatim>\<open>include/fish.h\<close>; a name is the
  text of the string passed. At most \<^const>\<open>FISH_MAX_NODES\<close> entries fit, the root among them.
\<close>

datatype entry = Directory | File bytes

type_synonym tree = "bytes list \<Rightarrow> entry option"
type_synonym volume = "tree \<times> bytes list"

abbreviation tree :: "volume \<Rightarrow> tree" where "tree \<equiv> fst"
abbreviation cwd :: "volume \<Rightarrow> bytes list" where "cwd \<equiv> snd"

definition legal_name :: "bytes \<Rightarrow> bool" where
  "legal_name x \<longleftrightarrow> x \<noteq> [] \<and> length x < FISH_NAME_MAX \<and>
     list_all (\<lambda>c. c \<noteq> 47 \<and> \<not> blank_or_control c) x \<and>
     x \<noteq> bytes_of ''.'' \<and> x \<noteq> bytes_of ''..''"

definition empty_volume :: volume where
  "empty_volume = ([[] \<mapsto> Directory], [])"

definition spec_make :: "entry \<Rightarrow> bytes \<Rightarrow> volume \<Rightarrow> int \<times> volume" where
  "spec_make e x = (\<lambda>(t, d).
     if \<not> legal_name x then (FISH_ERR_NAME, (t, d))
     else if t (d @ [x]) \<noteq> None then (FISH_ERR_EXISTS, (t, d))
     else if card (dom t) \<ge> FISH_MAX_NODES then (FISH_ERR_FULL, (t, d))
     else (FISH_OK, (t(d @ [x] \<mapsto> e), d)))"

definition spec_chdir :: "bytes \<Rightarrow> volume \<Rightarrow> int \<times> volume" where
  "spec_chdir x = (\<lambda>(t, d).
     if x = [] then (FISH_ERR_NOENT, (t, d))
     else if x = bytes_of ''/'' then (FISH_OK, (t, []))
     else if x = bytes_of ''.'' then (FISH_OK, (t, d))
     else if x = bytes_of ''..'' then (FISH_OK, (t, butlast d))
     else case t (d @ [x]) of
            None \<Rightarrow> (FISH_ERR_NOENT, (t, d))
          | Some (File s) \<Rightarrow> (FISH_ERR_NOTDIR, (t, d))
          | Some Directory \<Rightarrow> (FISH_OK, (t, d @ [x])))"

definition spec_remove :: "bytes \<Rightarrow> volume \<Rightarrow> int \<times> volume" where
  "spec_remove x = (\<lambda>(t, d).
     if t (d @ [x]) = None then (FISH_ERR_NOENT, (t, d))
     else if t (d @ [x]) = Some Directory \<and> (\<exists>y. t (d @ [x, y]) \<noteq> None)
     then (FISH_ERR_NOTEMPTY, (t, d))
     else (FISH_OK, (t(d @ [x] := None), d)))"

text \<open>Writing: \<open>f\<close> makes the new content of the old one.\<close>

definition spec_update :: "(bytes \<Rightarrow> bytes) \<Rightarrow> bytes \<Rightarrow> volume \<Rightarrow> int \<times> volume" where
  "spec_update f x = (\<lambda>(t, d). case t (d @ [x]) of
       None \<Rightarrow> (FISH_ERR_NOENT, (t, d))
     | Some Directory \<Rightarrow> (FISH_ERR_ISDIR, (t, d))
     | Some (File s) \<Rightarrow>
         if length (f s) > FISH_FILE_MAX then (FISH_ERR_SPACE, (t, d))
         else (FISH_OK, (t(d @ [x] \<mapsto> File (f s)), d)))"

definition spec_read :: "bytes \<Rightarrow> volume \<Rightarrow> bytes option" where
  "spec_read x = (\<lambda>(t, d). case t (d @ [x]) of Some (File s) \<Rightarrow> Some s | _ \<Rightarrow> None)"

text \<open>A path as text, the way a prompt shows it.\<close>

definition path_text :: "bytes list \<Rightarrow> bytes" where
  "path_text d = (if d = [] then [47] else concat (map (\<lambda>x. 47 # x) d))"

text \<open>Calls of the operations that may change a volume, and what the specification makes of each.\<close>

datatype call =
    Mkdir bytes | Create bytes | Chdir bytes | Remove bytes | Write bytes bytes | Append bytes bytes

text \<open>The strings of a call are terminated, as C strings are.\<close>

fun strings :: "call \<Rightarrow> bytes list" where
  "strings (Mkdir s) = [s]"
| "strings (Create s) = [s]"
| "strings (Chdir s) = [s]"
| "strings (Remove s) = [s]"
| "strings (Write s s') = [s, s']"
| "strings (Append s s') = [s, s']"

fun spec_call :: "call \<Rightarrow> volume \<Rightarrow> int \<times> volume" where
  "spec_call (Mkdir s) v = spec_make Directory (text_of s) v"
| "spec_call (Create s) v = spec_make (File []) (text_of s) v"
| "spec_call (Chdir s) v = spec_chdir (text_of s) v"
| "spec_call (Remove s) v = spec_remove (text_of s) v"
| "spec_call (Write s s') v = spec_update (\<lambda>_. text_of s') (text_of s) v"
| "spec_call (Append s s') v = spec_update (\<lambda>old. old @ text_of s') (text_of s) v"

lemma spec_make_cases:
  "spec_make e x v = (r, v') \<Longrightarrow>
   (r < 0 \<and> v' = v) \<or> (r = FISH_OK \<and> legal_name x \<and> v' = ((tree v)(cwd v @ [x] \<mapsto> e), cwd v))"
  by (auto simp: spec_make_def fish_codes split: prod.splits if_splits)

end
