(* ===== verification/Fish_Tree.thy ===== *)
theory Fish_Tree
  imports Tree_Spec
begin

text \<open>
  The tree of paths that the node array of \<^verbatim>\<open>fs/fish.c\<close> stands for, the invariant of the
  array, and what each operation does to both.
\<close>

subsection \<open>From nodes to paths\<close>

definition used_at :: "node list \<Rightarrow> nat \<Rightarrow> bool" where
  "used_at ns i \<longleftrightarrow> i < length ns \<and> n_used (ns ! i) \<noteq> 0"

definition child :: "node list \<Rightarrow> nat \<Rightarrow> nat \<Rightarrow> bytes \<Rightarrow> bool" where
  "child ns p i x \<longleftrightarrow> p < length ns \<and> used_at ns i \<and> n_parent (ns ! i) = of_nat p \<and>
     text_of (n_name (ns ! i)) = x"

definition lookup :: "node list \<Rightarrow> nat \<Rightarrow> bytes \<Rightarrow> nat option" where
  "lookup ns p x = find (\<lambda>i. child ns p i x) [0..<length ns]"

fun resolve :: "node list \<Rightarrow> nat \<Rightarrow> bytes list \<Rightarrow> nat option" where
  "resolve ns p [] = Some p"
| "resolve ns p (x # xs) = do { i \<leftarrow> lookup ns p x; resolve ns i xs }"

definition entry_of :: "node \<Rightarrow> entry" where
  "entry_of n = (if n_is_dir n \<noteq> 0 then Directory else File (take (unat (n_size n)) (n_data n)))"

definition tree_of :: "node list \<Rightarrow> tree" where
  "tree_of ns path = map_option (\<lambda>i. entry_of (ns ! i)) (resolve ns 0 path)"

definition cwd_of :: "fish \<Rightarrow> bytes list" where
  "cwd_of fs = map (\<lambda>i. text_of (n_name (nodes fs ! i)))
     (rev (the (climb FISH_MAX_NODES (current fs) (nodes fs))))"

definition volume_of :: "fish \<Rightarrow> volume" where
  "volume_of fs = (tree_of (nodes fs), cwd_of fs)"

inductive located :: "node list \<Rightarrow> nat \<Rightarrow> bytes list \<Rightarrow> bool" for ns where
  root [intro]: "located ns 0 []"
| below [intro]: "located ns p xs \<Longrightarrow> child ns p i x \<Longrightarrow> located ns i (xs @ [x])"

inductive_cases located_NilE: "located ns i []"
inductive_cases located_snocE: "located ns i (xs @ [x])"
inductive_simps located_Nil [simp]: "located ns i []"

text \<open>
  The invariant. The arrays of a node have their declared sizes; node 0 is the root directory;
  every node in use is reached from the root, its parent a directory; no two children of a
  directory have the same name; names are terminated and legal, sizes within the data array.
\<close>

definition node_ok :: "node \<Rightarrow> bool" where
  "node_ok n \<longleftrightarrow> length (n_name n) = FISH_NAME_MAX \<and> length (n_data n) = FISH_FILE_MAX \<and>
     (n_used n \<noteq> 0 \<longrightarrow> terminated (n_name n) \<and> unat (n_size n) \<le> FISH_FILE_MAX)"

definition nodes_ok :: "node list \<Rightarrow> bool" where
  "nodes_ok ns \<longleftrightarrow> length ns = FISH_MAX_NODES \<and> list_all node_ok ns \<and>
     used_at ns 0 \<and> n_is_dir (ns ! 0) \<noteq> 0 \<and> n_parent (ns ! 0) = - 1 \<and>
     (\<forall>i. used_at ns i \<longrightarrow> (\<exists>xs. located ns i xs)) \<and>
     (\<forall>p i x. child ns p i x \<longrightarrow> n_is_dir (ns ! p) \<noteq> 0 \<and> legal_name x) \<and>
     (\<forall>p i j x. child ns p i x \<longrightarrow> child ns p j x \<longrightarrow> i = j)"

definition fish_ok :: "fish \<Rightarrow> bool" where
  "fish_ok fs \<longleftrightarrow> nodes_ok (nodes fs) \<and> used_at (nodes fs) (unat (current fs)) \<and>
     n_is_dir (nodes fs ! unat (current fs)) \<noteq> 0"

lemma nodes_okD:
  assumes "nodes_ok ns"
  shows nodes_length: "length ns = 64"
    and nodes_root: "used_at ns 0" "n_is_dir (ns ! 0) \<noteq> 0" "n_parent (ns ! 0) = - 1"
    and nodes_located: "used_at ns i \<Longrightarrow> \<exists>xs. located ns i xs"
    and child_dir: "child ns p i x \<Longrightarrow> n_is_dir (ns ! p) \<noteq> 0"
    and child_legal: "child ns p i x \<Longrightarrow> legal_name x"
    and child_unique: "child ns p i x \<Longrightarrow> child ns p j x \<Longrightarrow> i = j"
    and node_at: "i < 64 \<Longrightarrow> node_ok (ns ! i)"
  using assms by (auto simp: nodes_ok_def FISH_MAX_NODES_def list_all_length)

lemma of_nat_index_eq: "p < 64 \<Longrightarrow> q < 64 \<Longrightarrow> (of_nat p :: u32) = of_nat q \<longleftrightarrow> p = q"
  by (simp add: word_unat_eq_iff unat_of_nat)

lemma of_nat_index_minus1: "p < 64 \<Longrightarrow> (of_nat p :: u32) \<noteq> - 1"
proof
  assume p: "p < 64" and "(of_nat p :: u32) = - 1"
  moreover have "(- 1 :: u32) = 4294967295" by simp
  ultimately have "unat (of_nat p :: u32) = unat (4294967295 :: u32)" by metis
  with p show False by (simp add: unat_of_nat)
qed

lemma child_used: "child ns p i x \<Longrightarrow> used_at ns i"
  by (simp add: child_def)

lemma used_less: "used_at ns i \<Longrightarrow> i < length ns"
  by (simp add: used_at_def)

lemma child_not_root: "nodes_ok ns \<Longrightarrow> \<not> child ns p 0 x"
  by (auto simp: child_def nodes_length nodes_root(3) dest!: of_nat_index_minus1)

lemma child_parent_eq:
  "nodes_ok ns \<Longrightarrow> child ns p i x \<Longrightarrow> child ns q i y \<Longrightarrow> p = q \<and> x = y"
  by (auto simp: child_def nodes_length of_nat_index_eq)

lemma located_used: "nodes_ok ns \<Longrightarrow> located ns i xs \<Longrightarrow> used_at ns i"
  by (erule located.cases) (auto simp: child_used nodes_root)

lemma located_path_unique:
  assumes "nodes_ok ns"
  shows "located ns i xs \<Longrightarrow> located ns i ys \<Longrightarrow> xs = ys"
proof (induction arbitrary: ys rule: located.induct)
  case root
  then show ?case using child_not_root [OF assms] by (auto elim: located.cases)
next
  case (below p xs i x)
  from below.prems show ?case
  proof cases
    case root
    then show ?thesis using below.hyps child_not_root [OF assms] by auto
  next
    case (below q zs z)
    then show ?thesis using child_parent_eq [OF assms \<open>child ns p i x\<close>] below.IH by auto
  qed
qed

lemma located_node_unique:
  assumes "nodes_ok ns"
  shows "located ns i xs \<Longrightarrow> located ns j xs \<Longrightarrow> i = j"
proof (induction xs arbitrary: i j rule: rev_induct)
  case Nil
  then show ?case by simp
next
  case (snoc x xs)
  from snoc.prems obtain p q where "located ns p xs" "child ns p i x" "located ns q xs" "child ns q j x"
    by (auto elim!: located_snocE)
  with snoc.IH have "child ns p i x" "child ns p j x" by auto
  then show ?case by (rule child_unique [OF assms])
qed

lemma lookup_iff: "nodes_ok ns \<Longrightarrow> lookup ns p x = Some i \<longleftrightarrow> child ns p i x"
proof
  assume "lookup ns p x = Some i"
  then show "child ns p i x" by (auto simp: lookup_def find_Some_iff)
next
  assume ok: "nodes_ok ns" and c: "child ns p i x"
  then have i: "i \<in> set [0..<length ns]" using used_less [OF child_used [OF c]] by simp
  with c have "lookup ns p x \<noteq> None" by (auto simp: lookup_def find_None_iff)
  then obtain j where j: "lookup ns p x = Some j" by auto
  then have "child ns p j x" by (auto simp: lookup_def find_Some_iff)
  with c j show "lookup ns p x = Some i" using child_unique [OF ok] by auto
qed

lemma resolve_append: "resolve ns p (xs @ ys) = do { i \<leftarrow> resolve ns p xs; resolve ns i ys }"
  by (induction xs arbitrary: p) (auto split: Option.bind_split)

lemma resolve_iff: "nodes_ok ns \<Longrightarrow> resolve ns 0 xs = Some i \<longleftrightarrow> located ns i xs"
proof (induction xs arbitrary: i rule: rev_induct)
  case Nil
  then show ?case by auto
next
  case (snoc x xs)
  then show ?case
    by (auto simp: resolve_append bind_eq_Some_conv lookup_iff elim!: located_snocE)
qed

lemma tree_of_iff:
  "nodes_ok ns \<Longrightarrow> tree_of ns path = Some e \<longleftrightarrow> (\<exists>i. located ns i path \<and> e = entry_of (ns ! i))"
  by (auto simp: tree_of_def resolve_iff)

lemma tree_of_located:
  "nodes_ok ns \<Longrightarrow> located ns i path \<Longrightarrow> tree_of ns path = Some (entry_of (ns ! i))"
  by (auto simp: tree_of_iff)

lemma tree_of_None: "nodes_ok ns \<Longrightarrow> tree_of ns path = None \<longleftrightarrow> (\<forall>i. \<not> located ns i path)"
  using tree_of_iff [of ns path] by (cases "tree_of ns path") auto

text \<open>Two arrays stand for trees that differ as \<open>t\<close> says.\<close>

lemma tree_of_eqI:
  assumes "nodes_ok ns" "\<And>path e. (\<exists>i. located ns i path \<and> entry_of (ns ! i) = e) \<longleftrightarrow> t path = Some e"
  shows "tree_of ns = t"
proof
  fix path
  show "tree_of ns path = t path"
  proof (cases "t path")
    case None
    then have "\<not> located ns i path" for i using assms(2) [of path] by auto
    with None show ?thesis by (simp add: tree_of_None [OF assms(1)])
  next
    case (Some e)
    with assms(2) [of path e] show ?thesis by (auto simp: tree_of_iff [OF assms(1)])
  qed
qed

subsection \<open>The depth of the tree and the current path\<close>

lemma located_prefix: "located ns i (xs @ ys) \<Longrightarrow> \<exists>j. located ns j xs"
proof (induction ys arbitrary: i rule: rev_induct)
  case Nil
  then show ?case by auto
next
  case (snoc y ys)
  then have "located ns i ((xs @ ys) @ [y])" by simp
  then obtain j where "located ns j (xs @ ys)" by (rule located_snocE) auto
  then show ?case by (rule snoc.IH)
qed

text \<open>The ancestors of a node are distinct, so no path is as long as the array.\<close>

lemma located_depth:
  assumes ok: "nodes_ok ns" and loc: "located ns i xs"
  shows "length xs < 64"
proof -
  have "\<exists>j. located ns j (take k xs)" for k
    using located_prefix [of ns i "take k xs" "drop k xs"] loc by simp
  then obtain f where f: "\<And>k. located ns (f k) (take k xs)" by metis
  have "inj_on f {..length xs}"
  proof (rule inj_onI)
    fix k l assume kl: "k \<in> {..length xs}" "l \<in> {..length xs}" "f k = f l"
    then have "take k xs = take l xs"
      using located_path_unique [OF ok f [of k]] f [of l] by auto
    then have "length (take k xs) = length (take l xs)" by simp
    with kl show "k = l" by simp
  qed
  moreover have "f ` {..length xs} \<subseteq> {..<64}"
    using located_used [OF ok f] used_less nodes_length [OF ok] by fastforce
  ultimately have "card {..length xs} \<le> card {..<64::nat}"
    by (intro card_inj_on_le) auto
  then show ?thesis by simp
qed

lemma sint_index: "i < 64 \<Longrightarrow> sint (of_nat i :: u32) = int i"
  by (simp add: signed_of_nat signed_take_bit_int_eq_self)

lemma unat_index: "i < 64 \<Longrightarrow> unat (of_nat i :: u32) = i"
  by (simp add: unat_of_nat)

lemma climb_0 [simp]: "climb k 0 ns = Some []"
  by (cases k) auto

lemma climb_located:
  assumes ok: "nodes_ok ns"
  shows "located ns i xs \<Longrightarrow> length xs \<le> k \<Longrightarrow>
    \<exists>chain. climb k (of_nat i) ns = Some chain \<and>
      map (\<lambda>j. text_of (n_name (ns ! j))) (rev chain) = xs \<and> list_all (used_at ns) chain"
proof (induction arbitrary: k rule: located.induct)
  case root
  then show ?case by auto
next
  case (below p xs i x)
  from below.prems obtain l where k: "k = Suc l" "length xs \<le> l" by (cases k) auto
  from below.IH [OF k(2)] obtain chain where
    c: "climb l (of_nat p) ns = Some chain" "map (\<lambda>j. text_of (n_name (ns ! j))) (rev chain) = xs"
       "list_all (used_at ns) chain" by auto
  have i: "i < 64" "0 < i"
    using used_less [OF child_used [OF below.hyps(2)]] nodes_length [OF ok]
      child_not_root [OF ok] below.hyps(2) by (auto intro: gr0I)
  from i(1) have "i < length ns" by (simp add: nodes_length [OF ok])
  with i c below.hyps(2) k show ?case
    by (auto simp: child_def sint_index unat_index aget_def)
qed

lemma climb_current:
  assumes ok: "fish_ok fs"
  obtains chain where "climb FISH_MAX_NODES (current fs) (nodes fs) = Some chain"
    "located (nodes fs) (unat (current fs)) (map (\<lambda>j. text_of (n_name (nodes fs ! j))) (rev chain))"
    "list_all (used_at (nodes fs)) chain" "length chain < 64"
proof -
  from ok have nok: "nodes_ok (nodes fs)" and u: "used_at (nodes fs) (unat (current fs))"
    by (auto simp: fish_ok_def)
  from nodes_located [OF nok u] obtain xs where xs: "located (nodes fs) (unat (current fs)) xs" by auto
  with located_depth [OF nok xs] climb_located [OF nok xs, of 64]
  obtain chain where "climb 64 (current fs) (nodes fs) = Some chain"
    "map (\<lambda>j. text_of (n_name (nodes fs ! j))) (rev chain) = xs" "list_all (used_at (nodes fs)) chain"
    by auto
  moreover from this located_depth [OF nok xs] have "length chain < 64" by auto
  ultimately show ?thesis using xs that by (auto simp: FISH_MAX_NODES_def)
qed

lemma located_cwd:
  assumes "fish_ok fs"
  shows "located (nodes fs) (unat (current fs)) (cwd_of fs)"
  using assms by (rule climb_current) (simp add: cwd_of_def)

lemma cwd_ofI: "fish_ok fs \<Longrightarrow> located (nodes fs) (unat (current fs)) xs \<Longrightarrow> cwd_of fs = xs"
  by (rule located_path_unique [OF _ located_cwd]) (simp_all add: fish_ok_def)

text \<open>As many paths as nodes in use.\<close>

lemma card_tree:
  assumes ok: "nodes_ok ns"
  shows "card (dom (tree_of ns)) = card {i. used_at ns i}"
proof -
  obtain f where f: "\<And>i. used_at ns i \<Longrightarrow> located ns i (f i)"
    using nodes_located [OF ok] by metis
  have "inj_on f {i. used_at ns i}"
  proof (rule inj_onI)
    fix i j assume "i \<in> {i. used_at ns i}" "j \<in> {i. used_at ns i}" "f i = f j"
    then show "i = j" using f [of i] f [of j] located_node_unique [OF ok] by auto
  qed
  moreover have "f ` {i. used_at ns i} = dom (tree_of ns)"
  proof (intro equalityI subsetI)
    fix path assume "path \<in> dom (tree_of ns)"
    then obtain i where i: "located ns i path" by (auto simp: tree_of_iff [OF ok])
    then have "used_at ns i" by (rule located_used [OF ok])
    with f [OF this] i located_path_unique [OF ok] show "path \<in> f ` {i. used_at ns i}" by blast
  qed (auto simp: tree_of_located [OF ok] dest!: f)
  ultimately show ?thesis by (metis card_image)
qed

subsection \<open>The searches\<close>

definition hit :: "u32 \<Rightarrow> bytes \<Rightarrow> node \<Rightarrow> bool" where
  "hit p x n \<longleftrightarrow> n_used n \<noteq> 0 \<and> n_parent n = p \<and> text_of (n_name n) = x"

lemma find_from_step:
  "(n_used n \<noteq> 0 \<longrightarrow> terminated (n_name n)) \<Longrightarrow> terminated name \<Longrightarrow>
   find_from k p name (n # ns) =
     (if hit p (text_of name) n then Some (int k) else find_from (Suc k) p name ns)"
  by (auto simp: hit_def str_eq_terminated)

lemma find_from_cases:
  "list_all (\<lambda>n. n_used n \<noteq> 0 \<longrightarrow> terminated (n_name n)) ns \<Longrightarrow> terminated name \<Longrightarrow>
   \<exists>r. find_from k p name ns = Some r \<and>
     (r = - 1 \<and> (\<forall>i < length ns. \<not> hit p (text_of name) (ns ! i)) \<or>
      (\<exists>i < length ns. r = int (k + i) \<and> hit p (text_of name) (ns ! i)))"
proof (induction ns arbitrary: k)
  case Nil
  then show ?case by simp
next
  case (Cons n ns)
  have step: "find_from k p name (n # ns) =
     (if hit p (text_of name) n then Some (int k) else find_from (Suc k) p name ns)"
    using Cons.prems by (intro find_from_step) auto
  show ?case
  proof (cases "hit p (text_of name) n")
    case True
    with step show ?thesis by (auto intro: exI [of _ 0])
  next
    case False
    from Cons.IH [of "Suc k"] Cons.prems obtain r where r: "find_from (Suc k) p name ns = Some r"
      "r = - 1 \<and> (\<forall>i < length ns. \<not> hit p (text_of name) (ns ! i)) \<or>
       (\<exists>i < length ns. r = int (Suc k + i) \<and> hit p (text_of name) (ns ! i))"
      by (simp only: list.pred_inject) blast
    from r(2) show ?thesis
    proof
      assume "r = - 1 \<and> (\<forall>i < length ns. \<not> hit p (text_of name) (ns ! i))"
      with False step r(1) show ?thesis by (auto simp: less_Suc_eq_0_disj)
    next
      assume "\<exists>i < length ns. r = int (Suc k + i) \<and> hit p (text_of name) (ns ! i)"
      then obtain i where "i < length ns" "r = int (k + Suc i)" "hit p (text_of name) (ns ! i)"
        by auto
      with step False r(1) show ?thesis by (intro exI [of _ r]) (auto intro!: exI [of _ "Suc i"])
    qed
  qed
qed

lemma nodes_terminated:
  "nodes_ok ns \<Longrightarrow> list_all (\<lambda>n. n_used n \<noteq> 0 \<longrightarrow> terminated (n_name n)) ns"
  by (auto simp: nodes_ok_def node_ok_def list_all_iff)

lemma find_child_eq:
  assumes ok: "nodes_ok (nodes fs)" and p: "p < 64" and t: "terminated name"
  shows "find_child (of_nat p) name fs =
    Some (case lookup (nodes fs) p (text_of name) of None \<Rightarrow> - 1 | Some i \<Rightarrow> int i)"
proof -
  from find_from_cases [OF nodes_terminated [OF ok] t, of 0 "of_nat p"] obtain r where
    r: "find_child (of_nat p) name fs = Some r"
      "r = - 1 \<and> (\<forall>i < length (nodes fs). \<not> child (nodes fs) p i (text_of name)) \<or>
       (\<exists>i < length (nodes fs). r = int i \<and> child (nodes fs) p i (text_of name))"
    using p nodes_length [OF ok] by (auto simp: find_child_def child_def used_at_def hit_def)
  from r(2) show ?thesis
  proof
    assume n: "r = - 1 \<and> (\<forall>i < length (nodes fs). \<not> child (nodes fs) p i (text_of name))"
    then have "\<not> child (nodes fs) p i (text_of name)" for i
      using used_less [OF child_used, of "nodes fs" p i] by blast
    then have "lookup (nodes fs) p (text_of name) \<noteq> Some i" for i
      by (simp add: lookup_iff [OF ok])
    then have "lookup (nodes fs) p (text_of name) = None" by (cases "lookup (nodes fs) p (text_of name)") auto
    with n r(1) show ?thesis by simp
  next
    assume "\<exists>i < length (nodes fs). r = int i \<and> child (nodes fs) p i (text_of name)"
    then obtain i where "r = int i" "lookup (nodes fs) p (text_of name) = Some i"
      by (auto simp: lookup_iff [OF ok])
    with r(1) show ?thesis by simp
  qed
qed

lemma unused_from_cases:
  "unused_from k ns = - 1 \<and> list_all (\<lambda>n. n_used n \<noteq> 0) ns \<or>
   (\<exists>i < length ns. unused_from k ns = int (k + i) \<and> n_used (ns ! i) = 0)"
proof (induction ns arbitrary: k)
  case Nil
  then show ?case by simp
next
  case (Cons n ns)
  from Cons [of "Suc k"] show ?case
  proof
    assume "\<exists>i < length ns. unused_from (Suc k) ns = int (Suc k + i) \<and> n_used (ns ! i) = 0"
    then obtain i where "i < length ns" "unused_from (Suc k) ns = int (k + Suc i)" "n_used (ns ! i) = 0"
      by auto
    then show ?thesis by (cases "n_used n = 0") (auto intro: exI [of _ 0] exI [of _ "Suc i"])
  qed (auto intro: exI [of _ 0])
qed

lemma allocate_cases:
  assumes ok: "nodes_ok (nodes fs)"
  shows "allocate fs = - 1 \<and> card (dom (tree_of (nodes fs))) = 64 \<or>
    (\<exists>i. allocate fs = int i \<and> 0 < i \<and> i < 64 \<and> n_used (nodes fs ! i) = 0 \<and>
         card (dom (tree_of (nodes fs))) < 64)"
  using unused_from_cases [of 1 "drop 1 (nodes fs)"]
proof
  assume a: "unused_from 1 (drop 1 (nodes fs)) = - 1 \<and> list_all (\<lambda>n. n_used n \<noteq> 0) (drop 1 (nodes fs))"
  have "used_at (nodes fs) i" if "i < 64" for i
  proof (cases i)
    case 0
    then show ?thesis using nodes_root [OF ok] by simp
  next
    case (Suc j)
    with a that show ?thesis by (auto simp: used_at_def list_all_length nodes_length [OF ok])
  qed
  then have "{i. used_at (nodes fs) i} = {..<64}"
    using nodes_length [OF ok] by (auto simp: used_at_def)
  with a show ?thesis by (simp add: allocate_def card_tree [OF ok])
next
  assume "\<exists>i < length (drop 1 (nodes fs)). unused_from 1 (drop 1 (nodes fs)) = int (1 + i) \<and>
    n_used (drop 1 (nodes fs) ! i) = 0"
  then obtain i where i: "i < 63" "allocate fs = int (Suc i)" "n_used (nodes fs ! Suc i) = 0"
    by (auto simp: allocate_def nodes_length [OF ok])
  then have "{i. used_at (nodes fs) i} \<subseteq> {..<64} - {Suc i}"
    using used_less nodes_length [OF ok] by (auto simp: used_at_def)
  then have "card {i. used_at (nodes fs) i} \<le> card ({..<64} - {Suc i})" by (intro card_mono) auto
  also have "\<dots> < 64" using i by simp
  finally show ?thesis using i by (auto simp: card_tree [OF ok] intro!: exI [of _ "Suc i"])
qed

subsection \<open>Names\<close>

lemma valid_chars_eq:
  "terminated s \<Longrightarrow> i \<le> 31 \<Longrightarrow> valid_chars i s =
   Some (i + length (text_of s) \<le> 31 \<and> list_all (\<lambda>c. c \<noteq> 47 \<and> \<not> blank_or_control c) (text_of s))"
  by (induction i s rule: valid_chars.induct) (auto simp: FISH_NAME_MAX_def)

lemma text_of_literal: "0 \<notin> set (bytes_of s) \<Longrightarrow> text_of (literal s) = bytes_of s"
  by (simp add: literal_def text_of_append_zero)

lemma terminated_aget:
  "terminated s \<Longrightarrow> \<exists>c. aget s 0 = Some c \<and> (c = 0 \<longleftrightarrow> text_of s = [])"
  by (cases s) (auto simp: aget_def)

lemma valid_name_eq:
  assumes "terminated s"
  shows "valid_name (Some s) = Some (legal_name (text_of s))"
proof -
  from terminated_aget [OF assms] obtain c where c: "aget s 0 = Some c" "c = 0 \<longleftrightarrow> text_of s = []"
    by auto
  then show ?thesis
    using valid_chars_eq [OF assms, of 0] assms
    by (auto simp: valid_name_def legal_name_def str_eq_terminated text_of_literal FISH_NAME_MAX_def)
qed

subsection \<open>Changing one node\<close>

lemma child_parent_used:
  assumes ok: "nodes_ok ns" and c: "child ns p i x"
  shows "used_at ns p"
proof -
  from nodes_located [OF ok child_used [OF c]] obtain xs where "located ns i xs" by auto
  then show ?thesis
  proof cases
    case root
    with c child_not_root [OF ok] show ?thesis by auto
  next
    case (below q zs z)
    with child_parent_eq [OF ok c] located_used [OF ok] show ?thesis by auto
  qed
qed

text \<open>\<open>make_node\<close>: an unused node becomes a child of a directory that has none of its name.\<close>

lemma add_node:
  assumes ok: "nodes_ok ns" and p: "located ns p d" "n_is_dir (ns ! p) \<noteq> 0"
    and k: "0 < k" "k < 64" "n_used (ns ! k) = 0"
    and n: "n_used n \<noteq> 0" "n_parent n = of_nat p" "node_ok n" "text_of (n_name n) = x"
    and x: "legal_name x" "\<And>i. \<not> child ns p i x"
  defines "ns' \<equiv> ns[k := n]"
  shows add_node_ok: "nodes_ok ns'"
    and add_node_tree: "tree_of ns' = (tree_of ns)(d @ [x] \<mapsto> entry_of n)"
    and add_node_located: "located ns i xs \<Longrightarrow> located ns' i xs"
proof -
  have len: "length ns = 64" "length ns' = 64" using nodes_length [OF ok] by (auto simp: ns'_def)
  have up: "used_at ns p" using located_used [OF ok p(1)] .
  have p64: "p < 64" using used_less [OF up] len by simp
  have used': "used_at ns' i \<longleftrightarrow> used_at ns i \<or> i = k" for i
    using k(2) n(1) len by (auto simp: used_at_def ns'_def nth_list_update)
  have unused: "\<not> used_at ns k" using k by (simp add: used_at_def)
  have child': "child ns' q i y \<longleftrightarrow> i \<noteq> k \<and> child ns q i y \<or> i = k \<and> q = p \<and> y = x" for q i y
    using k(2) n p64 len used' unused
    by (auto simp: child_def ns'_def nth_list_update of_nat_index_eq)
  have fwd: "located ns' i xs" if "located ns i xs" for i xs
    using that
  proof (induction rule: located.induct)
    case (below q xs i y)
    have "i \<noteq> k" using child_used [OF below.hyps(2)] unused by auto
    with below child' show ?case by blast
  qed blast
  have bwd: "i \<noteq> k \<and> located ns i xs \<or> i = k \<and> xs = d @ [x]" if "located ns' i xs" for i xs
    using that
  proof (induction rule: located.induct)
    case root
    then show ?case using k by auto
  next
    case (below q xs i y)
    show ?case
    proof (cases "i = k")
      case True
      with below.hyps(2) child' have "q = p" "y = x" by auto
      with below.IH p(1) up unused True located_path_unique [OF ok] show ?thesis by auto
    next
      case False
      with below.hyps(2) child' have c: "child ns q i y" by auto
      from child_parent_used [OF ok c] unused have "q \<noteq> k" by auto
      with below.IH c False show ?thesis by auto
    qed
  qed
  have loc: "located ns' i xs \<longleftrightarrow> i \<noteq> k \<and> located ns i xs \<or> i = k \<and> xs = d @ [x]" for i xs
    using fwd bwd [of i xs] child' [of p k x] located_used [OF ok, of i xs] unused fwd [OF p(1)] by auto
  show located': "located ns' i xs" if "located ns i xs" using fwd [OF that] .
  show ok': "nodes_ok ns'"
    unfolding nodes_ok_def
  proof (intro conjI allI impI)
    show "list_all node_ok ns'"
      using ok n(3) by (auto simp: ns'_def nodes_ok_def list_all_iff dest!: subsetD [OF set_update_subset_insert])
    show "\<exists>xs. located ns' i xs" if "used_at ns' i" for i
    proof -
      from that have "used_at ns i \<or> i = k" by (simp add: used')
      with nodes_located [OF ok, of i] loc [of i "d @ [x]"] fwd [of i] show ?thesis by blast
    qed
    show "n_is_dir (ns' ! q) \<noteq> 0" if c: "child ns' q i y" for q i y
    proof -
      have "n_is_dir (ns ! q) \<noteq> 0" "used_at ns q"
        using c child' child_dir [OF ok] child_parent_used [OF ok] p(2) up by auto
      with unused show ?thesis by (cases "q = k") (auto simp: ns'_def)
    qed
    show "legal_name y" if "child ns' q i y" for q i y
      using that child' child_legal [OF ok] x(1) by auto
    show "i = j" if "child ns' q i y" "child ns' q j y" for q i j y
      using that child' child_unique [OF ok] x(2) by metis
  qed (use nodes_root [OF ok] used' len k in \<open>auto simp: ns'_def FISH_MAX_NODES_def\<close>)
  show "tree_of ns' = (tree_of ns)(d @ [x] \<mapsto> entry_of n)"
  proof (rule tree_of_eqI [OF ok'])
    fix path e
    have fresh: "\<not> located ns i (d @ [x])" for i
      using x(2) located_node_unique [OF ok p(1)] by (auto elim!: located_snocE)
    show "(\<exists>i. located ns' i path \<and> entry_of (ns' ! i) = e) \<longleftrightarrow>
        ((tree_of ns)(d @ [x] \<mapsto> entry_of n)) path = Some e"
    proof (cases "path = d @ [x]")
      case True
      with loc fresh k(2) len show ?thesis by (auto simp: ns'_def)
    next
      case False
      with loc have "located ns' i path \<longleftrightarrow> i \<noteq> k \<and> located ns i path" for i by auto
      with False unused located_used [OF ok] show ?thesis
        by (auto simp: tree_of_iff [OF ok] ns'_def) (metis nth_list_update_neq)
    qed
  qed
qed

text \<open>\<open>fish_remove\<close>: a node without children is marked unused.\<close>

lemma drop_node:
  assumes ok: "nodes_ok ns" and k: "child ns p k x" "located ns p d" "\<And>i y. \<not> child ns k i y"
    and n: "n_used n = 0" "node_ok n"
  defines "ns' \<equiv> ns[k := n]"
  shows drop_node_ok: "nodes_ok ns'"
    and drop_node_tree: "tree_of ns' = (tree_of ns)(d @ [x] := None)"
    and drop_node_located: "i \<noteq> k \<Longrightarrow> located ns i xs \<Longrightarrow> located ns' i xs"
proof -
  have len: "length ns = 64" "length ns' = 64" using nodes_length [OF ok] by (auto simp: ns'_def)
  have k64: "k < 64" using used_less [OF child_used [OF k(1)]] len by simp
  have k0: "k \<noteq> 0" using k(1) child_not_root [OF ok] by (cases k) auto
  have nth': "i \<noteq> k \<Longrightarrow> ns' ! i = ns ! i" for i by (simp add: ns'_def)
  have used': "used_at ns' i \<longleftrightarrow> used_at ns i \<and> i \<noteq> k" for i
    using k64 n(1) len by (auto simp: used_at_def ns'_def nth_list_update)
  have child': "child ns' q i y \<longleftrightarrow> i \<noteq> k \<and> child ns q i y" for q i y
    using nth' [of i] by (auto simp: child_def used' len)
  have fwd: "i \<noteq> k \<longrightarrow> located ns' i xs" if "located ns i xs" for i xs
    using that
  proof (induction rule: located.induct)
    case (below q xs i y)
    then have "q \<noteq> k" using k(3) by auto
    with below child' show ?case by blast
  qed blast
  have bwd: "i \<noteq> k \<and> located ns i xs" if "located ns' i xs" for i xs
    using that by (induction rule: located.induct) (use k0 child' in auto)
  have loc: "located ns' i xs \<longleftrightarrow> i \<noteq> k \<and> located ns i xs" for i xs
    using fwd [of i xs] bwd [of i xs] by auto
  show "i \<noteq> k \<Longrightarrow> located ns i xs \<Longrightarrow> located ns' i xs" using loc by auto
  show ok': "nodes_ok ns'"
    unfolding nodes_ok_def
  proof (intro conjI allI impI)
    show "list_all node_ok ns'"
      using ok n(2) by (auto simp: ns'_def nodes_ok_def list_all_iff dest!: subsetD [OF set_update_subset_insert])
    show "\<exists>xs. located ns' i xs" if "used_at ns' i" for i
    proof -
      from that have "used_at ns i" "i \<noteq> k" by (auto simp: used')
      with nodes_located [OF ok, of i] show ?thesis by (auto simp: loc)
    qed
    show "n_is_dir (ns' ! q) \<noteq> 0" if "child ns' q i y" for q i y
      using that child' child_dir [OF ok] k(3) by (cases "q = k") (auto simp: ns'_def)
    show "legal_name y" if "child ns' q i y" for q i y
      using that child' child_legal [OF ok] by auto
    show "i = j" if "child ns' q i y" "child ns' q j y" for q i j y
      using that child' child_unique [OF ok] by metis
  qed (use nodes_root [OF ok] used' len k0 in \<open>auto simp: ns'_def FISH_MAX_NODES_def\<close>)
  have path_k: "located ns k (d @ [x])" using k by blast
  show "tree_of ns' = (tree_of ns)(d @ [x] := None)"
  proof (rule tree_of_eqI [OF ok'])
    fix path e
    show "(\<exists>i. located ns' i path \<and> entry_of (ns' ! i) = e) \<longleftrightarrow>
        ((tree_of ns)(d @ [x] := None)) path = Some e"
    proof (cases "path = d @ [x]")
      case True
      with loc located_node_unique [OF ok path_k] show ?thesis by auto
    next
      case False
      then have "\<not> located ns k path" using located_path_unique [OF ok path_k] by auto
      with loc False show ?thesis
        by (auto simp: tree_of_iff [OF ok] ns'_def) (metis nth_list_update_neq)
    qed
  qed
qed

text \<open>Writing a file changes what a node holds, not where it is.\<close>

lemma fill_node:
  assumes ok: "nodes_ok ns" and k: "located ns k path"
    and n: "n_used n = n_used (ns ! k)" "n_name n = n_name (ns ! k)" "n_parent n = n_parent (ns ! k)"
      "n_is_dir n = n_is_dir (ns ! k)" "node_ok n"
  defines "ns' \<equiv> ns[k := n]"
  shows fill_node_ok: "nodes_ok ns'"
    and fill_node_tree: "tree_of ns' = (tree_of ns)(path \<mapsto> entry_of n)"
    and fill_node_located: "located ns' = located ns"
proof -
  have len: "length ns = 64" "length ns' = 64" using nodes_length [OF ok] by (auto simp: ns'_def)
  have k64: "k < 64" using used_less [OF located_used [OF ok k]] len by simp
  have nth': "i \<noteq> k \<Longrightarrow> ns' ! i = ns ! i" for i by (simp add: ns'_def)
  have nth_k: "ns' ! k = n" using k64 len by (simp add: ns'_def)
  have used': "used_at ns' i \<longleftrightarrow> used_at ns i" for i
    using n(1) len k64 by (cases "i = k") (auto simp: used_at_def ns'_def)
  have child': "child ns' q i y \<longleftrightarrow> child ns q i y" for q i y
    using n k64 len by (cases "i = k") (auto simp: child_def used' nth_k nth')
  have dir': "n_is_dir (ns' ! i) = n_is_dir (ns ! i)" for i
    using n(4) len k64 by (cases "i = k") (auto simp: ns'_def)
  have "located ns' i xs \<longleftrightarrow> located ns i xs" for i xs
  proof
    show "located ns i xs" if "located ns' i xs"
      using that by (induction rule: located.induct) (use child' in auto)
    show "located ns' i xs" if "located ns i xs"
      using that by (induction rule: located.induct) (use child' in auto)
  qed
  then show loc: "located ns' = located ns" by (intro ext)
  show ok': "nodes_ok ns'"
    unfolding nodes_ok_def loc child' used' dir'
  proof (intro conjI)
    show "list_all node_ok ns'"
      using ok n(5) by (auto simp: ns'_def nodes_ok_def list_all_iff dest!: subsetD [OF set_update_subset_insert])
    show "n_parent (ns' ! 0) = - 1"
      using nodes_root(3) [OF ok] n(3) len k64 by (cases "k = 0") (auto simp: ns'_def)
  qed (use ok len in \<open>auto simp: nodes_ok_def FISH_MAX_NODES_def\<close>)
  show "tree_of ns' = (tree_of ns)(path \<mapsto> entry_of n)"
  proof (rule tree_of_eqI [OF ok'])
    fix q e
    show "(\<exists>i. located ns' i q \<and> entry_of (ns' ! i) = e) \<longleftrightarrow>
        ((tree_of ns)(path \<mapsto> entry_of n)) q = Some e"
    proof (cases "q = path")
      case True
      have "located ns i path \<longleftrightarrow> i = k" for i using located_node_unique [OF ok k] k by blast
      with True show ?thesis by (simp add: loc nth_k)
    next
      case False
      then have "\<not> located ns k q" using located_path_unique [OF ok k] by auto
      then have "located ns i q \<Longrightarrow> ns' ! i = ns ! i" for i using nth' by metis
      with False show ?thesis by (auto simp: tree_of_iff [OF ok] loc)
    qed
  qed
qed

end
