(* ===== verification/Fish_Ops.thy ===== *)
theory Fish_Ops
  imports Fish_Tree
begin

text \<open>
  Every operation of \<^verbatim>\<open>fs/fish.c\<close> keeps the invariant \<^const>\<open>fish_ok\<close> and does to the volume
  what the specification of \<open>Tree_Spec\<close> says, error codes included. None is undefined: no name
  runs past its array, no index leaves the node array.
\<close>

lemma fish_okD:
  assumes "fish_ok fs"
  shows fish_nodes: "nodes_ok (nodes fs)"
    and fish_length: "length (nodes fs) = 64"
    and fish_current: "unat (current fs) < 64"
    and fish_current_used: "used_at (nodes fs) (unat (current fs))"
    and fish_current_dir: "n_is_dir (nodes fs ! unat (current fs)) \<noteq> 0"
  using assms used_less [of "nodes fs" "unat (current fs)"] nodes_length [of "nodes fs"]
  by (auto simp: fish_ok_def)

lemma fish_okI:
  "nodes_ok ns \<Longrightarrow> located ns (unat c) d \<Longrightarrow> n_is_dir (ns ! unat c) \<noteq> 0 \<Longrightarrow>
   fish_ok \<lparr>nodes = ns, current = c\<rparr>"
  by (auto simp: fish_ok_def located_used)

lemma volume_ofI:
  "nodes_ok ns \<Longrightarrow> located ns (unat c) d \<Longrightarrow> n_is_dir (ns ! unat c) \<noteq> 0 \<Longrightarrow>
   volume_of \<lparr>nodes = ns, current = c\<rparr> = (tree_of ns, d)"
  using cwd_ofI [OF fish_okI, of ns c d d] by (auto simp: volume_of_def)

lemma set_node_in: "i < length (nodes fs) \<Longrightarrow>
    set_node i f fs = Some (fs\<lparr>nodes := (nodes fs)[i := f (nodes fs ! i)]\<rparr>)"
  by (simp add: set_node_def c_access)

text \<open>What the search in the current directory finds is what the tree holds there.\<close>

lemma tree_child:
  "nodes_ok ns \<Longrightarrow> located ns p d \<Longrightarrow>
   tree_of ns (d @ [x]) = map_option (\<lambda>i. entry_of (ns ! i)) (lookup ns p x)"
  using resolve_iff [of ns d p] by (auto simp: tree_of_def resolve_append split: Option.bind_split)

lemma tree_below_child:
  "nodes_ok ns \<Longrightarrow> located ns p d \<Longrightarrow>
   tree_of ns (d @ [x, y]) = do { i \<leftarrow> lookup ns p x; j \<leftarrow> lookup ns i y; Some (entry_of (ns ! j)) }"
  using resolve_iff [of ns d p]
  by (auto simp: tree_of_def resolve_append split: Option.bind_split)

lemma find_in_cwd:
  assumes ok: "fish_ok fs" and t: "terminated s"
  shows "find_child (current fs) s fs =
    Some (case lookup (nodes fs) (unat (current fs)) (text_of s) of None \<Rightarrow> - 1 | Some i \<Rightarrow> int i)"
  using find_child_eq [OF fish_nodes [OF ok] fish_current [OF ok] t] by simp

lemma lookup_less: "nodes_ok ns \<Longrightarrow> lookup ns p x = Some i \<Longrightarrow> i < length ns"
  by (auto simp: lookup_iff child_def used_at_def)

text \<open>The two cases every operation that takes a name distinguishes.\<close>

lemma named_cases:
  assumes ok: "fish_ok fs" and t: "terminated s"
  obtains (absent) "find_child (current fs) s fs = Some (- 1)"
      "lookup (nodes fs) (unat (current fs)) (text_of s) = None"
      "tree_of (nodes fs) (cwd_of fs @ [text_of s]) = None"
  | (present) i where "find_child (current fs) s fs = Some (int i)" "i < 64"
      "lookup (nodes fs) (unat (current fs)) (text_of s) = Some i"
      "child (nodes fs) (unat (current fs)) i (text_of s)"
      "located (nodes fs) i (cwd_of fs @ [text_of s])"
      "tree_of (nodes fs) (cwd_of fs @ [text_of s]) = Some (entry_of (nodes fs ! i))"
      "node_ok (nodes fs ! i)"
proof (cases "lookup (nodes fs) (unat (current fs)) (text_of s)")
  case None
  with absent find_in_cwd [OF ok t] tree_child [OF fish_nodes [OF ok] located_cwd [OF ok]]
  show ?thesis by simp
next
  case (Some i)
  note n = fish_nodes [OF ok]
  from Some have c: "child (nodes fs) (unat (current fs)) i (text_of s)" by (simp add: lookup_iff [OF n])
  with located_cwd [OF ok] have "located (nodes fs) i (cwd_of fs @ [text_of s])" by blast
  moreover have i: "i < 64" using lookup_less [OF n Some] fish_length [OF ok] by simp
  ultimately show ?thesis
    using Some present c find_in_cwd [OF ok t] tree_child [OF n located_cwd [OF ok]] node_at [OF n i] by simp
qed

subsection \<open>Making and removing\<close>

lemma made_node:
  assumes s: "terminated s" "legal_name (text_of s)" and n: "node_ok n"
  shows "\<exists>w. strcpy (n_name n) s = Some w \<and> text_of w = text_of s \<and>
    node_ok (n\<lparr>n_name := w, n_used := 1, n_is_dir := isd, n_parent := p, n_size := 0\<rparr>)"
proof -
  from s(2) n have len: "length (text_of s) < length (n_name n)"
    by (simp add: legal_name_def node_ok_def)
  obtain w where w: "strcpy (n_name n) s = Some w" using strcpy_eq [OF s(1) len] by blast
  with text_of_strcpy [OF w s(1) len] n show ?thesis by (simp add: node_ok_def)
qed

lemma make_node_refines:
  assumes ok: "fish_ok fs" and s: "terminated s"
  shows "\<exists>r fs'. make_node (Some s) isd fs = Some (r, fs') \<and> fish_ok fs' \<and>
    spec_make (if isd \<noteq> 0 then Directory else File []) (text_of s) (volume_of fs) =
      (if r < 0 then r else FISH_OK, volume_of fs')"
proof (cases "legal_name (text_of s)")
  case False
  with ok s show ?thesis
    by (simp add: make_node_def valid_name_eq spec_make_def volume_of_def fish_codes)
next
  case True
  note legal = this and n = fish_nodes [OF ok]
  from ok s show ?thesis
  proof (cases rule: named_cases)
    case (present i)
    with True s ok show ?thesis
      by (simp add: make_node_def valid_name_eq spec_make_def volume_of_def fish_codes)
  next
    case absent
    from allocate_cases [OF n] show ?thesis
    proof
      assume "allocate fs = - 1 \<and> card (dom (tree_of (nodes fs))) = 64"
      with absent True s ok show ?thesis
        by (simp add: make_node_def valid_name_eq spec_make_def volume_of_def fish_codes FISH_MAX_NODES_def)
    next
      assume "\<exists>i. allocate fs = int i \<and> 0 < i \<and> i < 64 \<and> n_used (nodes fs ! i) = 0 \<and>
         card (dom (tree_of (nodes fs))) < 64"
      then obtain k where k: "allocate fs = int k" "0 < k" "k < 64" "n_used (nodes fs ! k) = 0"
        "card (dom (tree_of (nodes fs))) < 64" by auto
      obtain w where w: "strcpy (n_name (nodes fs ! k)) s = Some w" "text_of w = text_of s"
        "node_ok ((nodes fs ! k)\<lparr>n_name := w, n_used := 1, n_is_dir := isd,
           n_parent := current fs, n_size := 0\<rparr>)" (is "node_ok ?n")
        using made_node [OF s legal node_at [OF n k(3)]] by blast
      let ?ns = "(nodes fs)[k := ?n]"
      have fresh: "\<not> child (nodes fs) (unat (current fs)) i (text_of s)" for i
        using absent(2) by (simp flip: lookup_iff [OF n])
      note add = n located_cwd [OF ok] fish_current_dir [OF ok] k(2,3,4) _ _ w(3) _ legal fresh
      have ok': "nodes_ok ?ns" by (rule add_node_ok [OF add]) (use w in simp_all)
      have t': "tree_of ?ns = (tree_of (nodes fs))(cwd_of fs @ [text_of s] \<mapsto> entry_of ?n)"
        by (rule add_node_tree [OF add]) (use w in simp_all)
      have l': "located ?ns (unat (current fs)) (cwd_of fs)"
        by (rule add_node_located [OF add]) (use w located_cwd [OF ok] in simp_all)
      have "unat (current fs) \<noteq> k" using fish_current_used [OF ok] k(4) by (auto simp: used_at_def)
      then have d': "n_is_dir (?ns ! unat (current fs)) \<noteq> 0" using fish_current_dir [OF ok] by simp
      have "make_node (Some s) isd fs = Some (int k, \<lparr>nodes = ?ns, current = current fs\<rparr>)"
        using k w(1) absent(1) legal s fish_length [OF ok]
        by (simp add: make_node_def valid_name_eq set_node_in c_access)
      moreover have "entry_of ?n = (if isd \<noteq> 0 then Directory else File [])"
        by (simp add: entry_of_def)
      ultimately show ?thesis
        using fish_okI [OF ok' l' d'] volume_ofI [OF ok' l' d'] legal absent(3) k(5)
        by (simp add: spec_make_def volume_of_def [of fs] t' FISH_MAX_NODES_def)
    qed
  qed
qed

lemma has_children_iff:
  assumes n: "nodes_ok (nodes fs)" and i: "i < 64"
  shows "has_children (int i) fs \<longleftrightarrow> (\<exists>j y. child (nodes fs) i j y)"
proof -
  have "sint (n_parent m) = int i \<longleftrightarrow> n_parent m = of_nat i" for m
  proof
    assume "sint (n_parent m) = int i"
    then have "(word_of_int (sint (n_parent m)) :: u32) = of_nat i" by simp
    then show "n_parent m = of_nat i" by simp
  qed (use sint_index [OF i] in simp)
  then show ?thesis using i nodes_length [OF n]
    by (auto simp: has_children_def child_def used_at_def list_ex_length)
qed

lemma fish_remove_refines:
  assumes ok: "fish_ok fs" and s: "terminated s"
  shows "\<exists>r fs'. fish_remove s fs = Some (r, fs') \<and> fish_ok fs' \<and>
    spec_remove (text_of s) (volume_of fs) = (r, volume_of fs')"
  using ok s
proof (cases rule: named_cases)
  case absent
  with ok s show ?thesis by (simp add: fish_remove_def spec_remove_def volume_of_def fish_codes)
next
  case (present i)
  note n = fish_nodes [OF ok]
  let ?x = "text_of s" and ?n = "nodes fs ! i"
  have "(\<exists>y. tree_of (nodes fs) (cwd_of fs @ [?x, y]) \<noteq> None) \<longleftrightarrow> has_children (int i) fs"
    by (simp add: tree_below_child [OF n located_cwd [OF ok]] present(3) has_children_iff [OF n present(2)]
        bind_eq_Some_conv flip: lookup_iff [OF n]) blast
  then have full: "tree_of (nodes fs) (cwd_of fs @ [?x]) = Some Directory \<and>
      (\<exists>y. tree_of (nodes fs) (cwd_of fs @ [?x, y]) \<noteq> None) \<longleftrightarrow> n_is_dir ?n \<noteq> 0 \<and> has_children (int i) fs"
    using present(6) by (auto simp: entry_of_def)
  show ?thesis
  proof (cases "n_is_dir ?n \<noteq> 0 \<and> has_children (int i) fs")
    case True
    with present full ok fish_length [OF ok] show ?thesis
      by (simp add: fish_remove_def spec_remove_def volume_of_def c_access)
  next
    case False
    have none: "\<not> child (nodes fs) i j y" for j y
      using False has_children_iff [OF n present(2)] child_dir [OF n] by blast
    let ?ns = "(nodes fs)[i := ?n\<lparr>n_used := 0\<rparr>]"
    have m: "node_ok (?n\<lparr>n_used := 0\<rparr>)" using present(7) by (simp add: node_ok_def)
    note drop = n present(4) located_cwd [OF ok] none _ m
    have cur: "unat (current fs) \<noteq> i"
      using present(5) located_cwd [OF ok] located_path_unique [OF n] by fastforce
    have ok': "nodes_ok ?ns" by (rule drop_node_ok [OF drop]) simp
    have t': "tree_of ?ns = (tree_of (nodes fs))(cwd_of fs @ [?x] := None)"
      by (rule drop_node_tree [OF drop]) simp
    have l': "located ?ns (unat (current fs)) (cwd_of fs)"
      by (rule drop_node_located [OF drop]) (use cur located_cwd [OF ok] in simp_all)
    have d': "n_is_dir (?ns ! unat (current fs)) \<noteq> 0" using fish_current_dir [OF ok] cur by simp
    have "fish_remove s fs = Some (FISH_OK, \<lparr>nodes = ?ns, current = current fs\<rparr>)"
      using present fish_length [OF ok] False by (auto simp: fish_remove_def c_access set_node_in)
    with fish_okI [OF ok' l' d'] volume_ofI [OF ok' l' d'] full False present(6) show ?thesis
      by (auto simp: spec_remove_def volume_of_def [of fs] t')
  qed
qed

subsection \<open>Moving about\<close>

lemma volume_current:
  assumes ok: "fish_ok fs" and l: "located (nodes fs) (unat c) d" "n_is_dir (nodes fs ! unat c) \<noteq> 0"
  shows "fish_ok (fs\<lparr>current := c\<rparr>) \<and> volume_of (fs\<lparr>current := c\<rparr>) = (tree_of (nodes fs), d)"
  using fish_okI [OF fish_nodes [OF ok] l] volume_ofI [OF fish_nodes [OF ok] l] by (cases fs) simp

lemma current_parent:
  assumes ok: "fish_ok fs"
  obtains (root) "current fs = 0" "cwd_of fs = []" "n_parent (nodes fs ! unat (current fs)) = - 1"
  | (below) p d x where "n_parent (nodes fs ! unat (current fs)) = of_nat p" "p < 64"
      "located (nodes fs) p d" "cwd_of fs = d @ [x]" "n_is_dir (nodes fs ! p) \<noteq> 0"
proof -
  note n = fish_nodes [OF ok]
  from located_cwd [OF ok] show ?thesis
  proof cases
    case root
    then have "current fs = 0" by (simp add: unat_eq_zero)
    with root nodes_root(3) [OF n] show ?thesis using that(1) by simp
  next
    case (below p d x)
    then have "p < 64" using nodes_length [OF n] by (simp add: child_def)
    with below child_dir [OF n below(3)] that(2) show ?thesis by (auto simp: child_def)
  qed
qed

lemma fish_chdir_refines:
  assumes ok: "fish_ok fs" and s: "terminated s"
  shows "\<exists>r fs'. fish_chdir (Some s) fs = Some (r, fs') \<and> fish_ok fs' \<and>
    spec_chdir (text_of s) (volume_of fs) = (r, volume_of fs')"
proof -
  note n = fish_nodes [OF ok]
  let ?x = "text_of s"
  from terminated_aget [OF s] obtain c where c: "aget s 0 = Some c" "c = 0 \<longleftrightarrow> ?x = []" by auto
  have lits: "str_eq s (literal ''/'') = Some (?x = bytes_of ''/'')"
    "str_eq s (literal ''.'') = Some (?x = bytes_of ''.'')"
    "str_eq s (literal ''..'') = Some (?x = bytes_of ''..'')"
    using s by (simp_all add: str_eq_terminated text_of_literal)
  consider "?x = []" | "?x = bytes_of ''/''" | "?x = bytes_of ''.''" | "?x = bytes_of ''..''"
    | "?x \<noteq> []" "?x \<noteq> bytes_of ''/''" "?x \<noteq> bytes_of ''.''" "?x \<noteq> bytes_of ''..''" by blast
  then show ?thesis
  proof cases
    case 1
    with c ok show ?thesis by (simp add: fish_chdir_def spec_chdir_def volume_of_def)
  next
    case 2
    with volume_current [OF ok, of 0 "[]"] nodes_root [OF n] c lits show ?thesis
      by (auto simp: fish_chdir_def spec_chdir_def volume_of_def [of fs])
  next
    case 3
    with c lits ok show ?thesis by (simp add: fish_chdir_def spec_chdir_def volume_of_def)
  next
    case 4
    have chdir: "fish_chdir (Some s) fs = Some (FISH_OK,
        if sint (n_parent (nodes fs ! unat (current fs))) \<ge> 0
        then fs\<lparr>current := n_parent (nodes fs ! unat (current fs))\<rparr> else fs)"
      using 4 c lits fish_current [OF ok] fish_length [OF ok] by (simp add: fish_chdir_def c_access)
    have spec: "spec_chdir ?x (volume_of fs) = (FISH_OK, (tree_of (nodes fs), butlast (cwd_of fs)))"
      using 4 by (simp add: spec_chdir_def volume_of_def)
    from ok show ?thesis
    proof (cases rule: current_parent)
      case root
      with chdir spec ok show ?thesis by (simp add: volume_of_def)
    next
      case (below p d x)
      with chdir spec volume_current [OF ok, of "of_nat p" d] show ?thesis
        by (simp add: sint_index unat_index)
    qed
  next
    case 5
    from ok s show ?thesis
    proof (cases rule: named_cases)
      case absent
      with 5 c lits ok show ?thesis
        by (simp add: fish_chdir_def spec_chdir_def volume_of_def fish_codes)
    next
      case (present i)
      with 5 c lits ok fish_length [OF ok] volume_current [OF ok, of "of_nat i" "cwd_of fs @ [?x]"]
      show ?thesis
        by (cases "n_is_dir (nodes fs ! i) = 0")
           (simp_all add: fish_chdir_def spec_chdir_def volume_of_def [of fs] entry_of_def c_access unat_index)
    qed
  qed
qed

text \<open>Leaving the current directory and coming back to it.\<close>

lemma fish_save_cwd_eq: "fish_ok fs \<Longrightarrow> fish_save_cwd fs = int (unat (current fs))"
  using sint_index [of "unat (current fs)"] fish_current [of fs] by (simp add: fish_save_cwd_def)

lemma fish_restore_cwd_cases:
  assumes ok: "fish_ok fs"
  shows "\<exists>fs'. fish_restore_cwd h fs = Some fs' \<and> fish_ok fs' \<and>
    nodes fs' = nodes fs \<and> tree (volume_of fs') = tree (volume_of fs) \<and>
    (tree (volume_of fs) (cwd (volume_of fs')) = Some Directory)"
proof -
  note n = fish_nodes [OF ok]
  have zero: "fish_ok (fs\<lparr>current := 0\<rparr>) \<and> volume_of (fs\<lparr>current := 0\<rparr>) = (tree_of (nodes fs), [])"
    using volume_current [OF ok, of 0 "[]"] nodes_root [OF n] by auto
  have here: "tree_of (nodes fs) [] = Some Directory"
    using tree_of_located [OF n root] nodes_root [OF n] by (simp add: entry_of_def)
  show ?thesis
  proof (cases "0 \<le> h \<and> h < 64 \<and> n_used (nodes fs ! nat h) \<noteq> 0 \<and> n_is_dir (nodes fs ! nat h) \<noteq> 0")
    case True
    then obtain i where i: "h = int i" "i < 64" "used_at (nodes fs) i" "n_is_dir (nodes fs ! i) \<noteq> 0"
      using fish_length [OF ok] by (auto simp: used_at_def elim!: nonneg_int_cases)
    from nodes_located [OF n i(3)] obtain d where d: "located (nodes fs) i d" by auto
    with volume_current [OF ok, of "of_nat i" d] i tree_of_located [OF n d] fish_length [OF ok]
    show ?thesis
      by (auto simp: fish_restore_cwd_def FISH_MAX_NODES_def used_at_def c_access unat_index
          volume_of_def [of fs] entry_of_def)
  next
    case False
    then have "fish_restore_cwd h fs = Some (fs\<lparr>current := 0\<rparr>)"
      using fish_length [OF ok] by (auto simp: fish_restore_cwd_def FISH_MAX_NODES_def aget_def)
    with zero here show ?thesis by (simp add: volume_of_def [of fs])
  qed
qed

lemma fish_restore_saved:
  assumes ok: "fish_ok fs" and ok': "fish_ok fs'"
    and kept: "located (nodes fs') (unat (current fs)) (cwd_of fs)" "n_is_dir (nodes fs' ! unat (current fs)) \<noteq> 0"
  shows "fish_restore_cwd (fish_save_cwd fs) fs' = Some (fs'\<lparr>current := current fs\<rparr>) \<and>
    fish_ok (fs'\<lparr>current := current fs\<rparr>) \<and>
    volume_of (fs'\<lparr>current := current fs\<rparr>) = (tree_of (nodes fs'), cwd_of fs)"
proof -
  have "int (unat (current fs)) < int 64"
    using fish_current [OF ok] by (simp only: of_nat_less_iff)
  then have "uint (current fs) < 64" by simp
  moreover have "aget (nodes fs') (unat (current fs)) = Some (nodes fs' ! unat (current fs))"
    using fish_current [OF ok] fish_length [OF ok'] by (simp add: aget_def)
  ultimately show ?thesis
    using volume_current [OF ok' kept] kept(2) located_used [OF fish_nodes [OF ok'] kept(1)]
    by (simp add: fish_save_cwd_eq [OF ok] fish_restore_cwd_def FISH_MAX_NODES_def used_at_def)
qed

subsection \<open>Contents\<close>

lemma filled_node:
  assumes ok: "fish_ok fs" and i: "located (nodes fs) i path" "n_is_dir (nodes fs ! i) = 0"
    and w: "length w = 512" "unat k \<le> 512"
  shows "\<exists>fs'. set_node i (\<lambda>n. n\<lparr>n_data := w, n_size := k\<rparr>) fs = Some fs' \<and> fish_ok fs' \<and>
    volume_of fs' = ((tree_of (nodes fs))(path \<mapsto> File (take (unat k) w)), cwd_of fs)"
proof -
  note n = fish_nodes [OF ok]
  have i64: "i < 64" using used_less [OF located_used [OF n i(1)]] fish_length [OF ok] by simp
  let ?n = "nodes fs ! i"
  let ?m = "?n\<lparr>n_data := w, n_size := k\<rparr>"
  let ?ns = "(nodes fs)[i := ?m]"
  have m: "node_ok ?m" using node_at [OF n i64] w by (simp add: node_ok_def FISH_FILE_MAX_def)
  note fill = n i(1) _ _ _ _ m
  have ok': "nodes_ok ?ns" by (rule fill_node_ok [OF fill]) simp_all
  have t': "tree_of ?ns = (tree_of (nodes fs))(path \<mapsto> entry_of ?m)"
    by (rule fill_node_tree [OF fill]) simp_all
  have "located ?ns = located (nodes fs)" by (rule fill_node_located [OF fill]) simp_all
  then have l': "located ?ns (unat (current fs)) (cwd_of fs)" using located_cwd [OF ok] by simp
  have d': "n_is_dir (?ns ! unat (current fs)) \<noteq> 0"
    using fish_current_dir [OF ok] i(2) by (cases "unat (current fs) = i") auto
  have "set_node i (\<lambda>n. n\<lparr>n_data := w, n_size := k\<rparr>) fs = Some \<lparr>nodes = ?ns, current = current fs\<rparr>"
    using i64 fish_length [OF ok] by (simp add: set_node_in)
  with fish_okI [OF ok' l' d'] volume_ofI [OF ok' l' d'] t' i(2) show ?thesis
    by (simp add: entry_of_def)
qed

lemma memcpy_text:
  assumes s: "terminated s" and fits: "k + length (text_of s) \<le> length d"
  shows "\<exists>w. memcpy d k s (length (text_of s)) = Some w \<and> length w = length d \<and>
    take (k + length (text_of s)) w = take k d @ text_of s"
proof -
  have "take (length (text_of s)) s = text_of s"
    using s by (induction s) auto
  with fits length_text_of [of s] show ?thesis by (simp add: memcpy_def awrite_def)
qed

lemma fish_write_refines:
  assumes ok: "fish_ok fs" and s: "terminated s" and t: "terminated txt"
  shows "\<exists>r fs'. fish_write s txt fs = Some (r, fs') \<and> fish_ok fs' \<and>
    spec_update (\<lambda>_. text_of txt) (text_of s) (volume_of fs) = (r, volume_of fs')"
  using ok s
proof (cases rule: named_cases)
  case absent
  with ok s show ?thesis by (simp add: fish_write_def spec_update_def volume_of_def fish_codes)
next
  case (present i)
  let ?n = "nodes fs ! i" and ?l = "length (text_of txt)"
  show ?thesis
  proof (cases "n_is_dir ?n \<noteq> 0 \<or> ?l > 512")
    case True
    with present ok t fish_length [OF ok] show ?thesis
      by (auto simp: fish_write_def spec_update_def volume_of_def c_access entry_of_def strlen_eq
          FISH_FILE_MAX_def)
  next
    case False
    have "length (n_data ?n) = 512" using present(7) by (simp add: node_ok_def FISH_FILE_MAX_def)
    then obtain w where w: "memcpy (n_data ?n) 0 txt ?l = Some w" "length w = 512"
      "take ?l w = text_of txt"
      using memcpy_text [OF t, of 0 "n_data ?n"] False by auto
    obtain fs' where fs': "set_node i (\<lambda>n. n\<lparr>n_data := w, n_size := of_nat ?l\<rparr>) fs = Some fs'"
      "fish_ok fs'" "volume_of fs' = ((tree_of (nodes fs))(cwd_of fs @ [text_of s] \<mapsto> File (text_of txt)), cwd_of fs)"
      using filled_node [OF ok present(5) _ w(2), of "of_nat ?l"] False w(3) by (auto simp: unat_of_nat)
    with present w(1) False t fish_length [OF ok] show ?thesis
      by (simp add: fish_write_def spec_update_def volume_of_def [of fs] c_access entry_of_def strlen_eq
          FISH_FILE_MAX_def)
  qed
qed

text \<open>No string of the 32-bit target is so long that the sum in \<open>fish_append\<close> wraps.\<close>

lemma fish_append_refines:
  assumes ok: "fish_ok fs" and s: "terminated s" and t: "terminated txt"
    and short: "length txt < 4294966784"
  shows "\<exists>r fs'. fish_append s txt fs = Some (r, fs') \<and> fish_ok fs' \<and>
    spec_update (\<lambda>old. old @ text_of txt) (text_of s) (volume_of fs) = (r, volume_of fs')"
  using ok s
proof (cases rule: named_cases)
  case absent
  with ok s show ?thesis by (simp add: fish_append_def spec_update_def volume_of_def fish_codes)
next
  case (present i)
  let ?n = "nodes fs ! i" and ?l = "length (text_of txt)"
  let ?k = "unat (n_size (nodes fs ! i))"
  have len: "length (n_data ?n) = 512" and k: "?k \<le> 512"
    using present(4,7) by (auto simp: node_ok_def FISH_FILE_MAX_def child_def used_at_def)
  have l: "?l < 4294966784" using length_text_of [of "txt"] short by simp
  have sum: "unat (n_size ?n + of_nat ?l) = ?k + ?l"
    using k l by (simp add: unat_add_lem [THEN iffD1] unat_of_nat)
  then have over: "n_size ?n + of_nat ?l > of_nat FISH_FILE_MAX \<longleftrightarrow> ?k + ?l > 512"
    by (simp add: word_less_nat_alt FISH_FILE_MAX_def)
  show ?thesis
  proof (cases "n_is_dir ?n \<noteq> 0 \<or> ?k + ?l > 512")
    case True
    with present ok t len k over fish_length [OF ok] show ?thesis
      by (auto simp: fish_append_def spec_update_def volume_of_def c_access entry_of_def strlen_eq
          FISH_FILE_MAX_def)
  next
    case False
    then obtain w where w: "memcpy (n_data ?n) ?k txt ?l = Some w" "length w = 512"
      "take (?k + ?l) w = take ?k (n_data ?n) @ text_of txt"
      using memcpy_text [OF t, of ?k "n_data ?n"] len by auto
    obtain fs' where fs': "set_node i (\<lambda>n. n\<lparr>n_data := w, n_size := n_size ?n + of_nat ?l\<rparr>) fs = Some fs'"
      "fish_ok fs'" "volume_of fs' = ((tree_of (nodes fs))(cwd_of fs @ [text_of s] \<mapsto>
         File (take ?k (n_data ?n) @ text_of txt)), cwd_of fs)"
      using filled_node [OF ok present(5) _ w(2), of "n_size ?n + of_nat ?l"] False w(3) sum by auto
    moreover have "set_node i (\<lambda>n. n\<lparr>n_data := w, n_size := n_size n + of_nat ?l\<rparr>) fs =
       set_node i (\<lambda>n. n\<lparr>n_data := w, n_size := n_size ?n + of_nat ?l\<rparr>) fs"
      using present(2) fish_length [OF ok] by (simp add: set_node_in)
    ultimately show ?thesis using present w(1) False t over len k fish_length [OF ok]
      by (simp add: fish_append_def spec_update_def volume_of_def [of fs] c_access entry_of_def strlen_eq
          FISH_FILE_MAX_def)
  qed
qed

lemma fish_read_refines:
  assumes ok: "fish_ok fs" and s: "terminated s"
  shows "\<exists>r. fish_read s fs = Some r \<and>
    map_option (\<lambda>(k, d). take (unat k) d) r = spec_read (text_of s) (volume_of fs) \<and>
    (\<forall>k d. r = Some (k, d) \<longrightarrow> unat k \<le> length d)"
  using ok s
proof (cases rule: named_cases)
  case absent
  with ok s show ?thesis by (simp add: fish_read_def spec_read_def volume_of_def)
next
  case (present i)
  with fish_length [OF ok] show ?thesis
    by (auto simp: fish_read_def spec_read_def volume_of_def c_access entry_of_def node_ok_def
        FISH_FILE_MAX_def child_def used_at_def)
qed

subsection \<open>The empty volume\<close>

lemma fish_init_eq:
  "fish_init fs = Some \<lparr>nodes = blank_node\<lparr>n_name := literal ''/'' @ replicate 30 0, n_used := 1,
     n_is_dir := 1, n_parent := - 1\<rparr> # replicate 63 blank_node, current = 0\<rparr>"
proof -
  have "strcpy (n_name blank_node) (literal ''/'') = Some (literal ''/'' @ replicate 30 0)"
    by (simp add: strcpy_eq text_of_literal blank_node_def FISH_NAME_MAX_def literal_def)
  moreover have "replicate FISH_MAX_NODES blank_node = blank_node # replicate 63 blank_node"
    by (simp add: FISH_MAX_NODES_def flip: replicate_Suc)
  ultimately show ?thesis
    by (cases fs) (simp add: fish_init_def set_node_def c_access blank_node_def)
qed

lemma fish_init_empty:
  "\<exists>fs'. fish_init fs = Some fs' \<and> fish_ok fs' \<and> volume_of fs' = empty_volume"
proof -
  let ?r = "blank_node\<lparr>n_name := literal ''/'' @ replicate 30 0, n_used := 1, n_is_dir := 1, n_parent := - 1\<rparr>"
  let ?ns = "?r # replicate 63 blank_node"
  have used: "used_at ?ns i \<longleftrightarrow> i = 0" for i
    by (cases i) (auto simp: used_at_def blank_node_def)
  have child: "\<not> child ?ns p i x" for p i x
    using of_nat_index_minus1 [of p] by (auto simp: child_def used)
  have loc: "located ?ns i xs \<longleftrightarrow> i = 0 \<and> xs = []" for i xs
    by (auto simp: child elim: located.cases)
  have "node_ok ?r" "node_ok blank_node"
    by (simp_all add: node_ok_def blank_node_def fish_sizes literal_def)
  then have ok: "nodes_ok ?ns"
    by (simp add: nodes_ok_def used child loc FISH_MAX_NODES_def list_all_iff)
  moreover have "tree_of ?ns = [[] \<mapsto> Directory]"
    by (rule tree_of_eqI [OF ok]) (auto simp: loc entry_of_def)
  ultimately show ?thesis
    using fish_okI [OF ok, of 0 "[]"] volume_ofI [OF ok, of 0 "[]"]
    by (simp add: fish_init_eq loc empty_volume_def)
qed

subsection \<open>Listing\<close>

text \<open>
  The loop of a caller that lists a directory: it starts with \<open>fish_first\<close> and calls
  \<open>fish_next\<close> until that returns 0. The fuel is the number of calls.
\<close>

fun list_loop :: "nat \<Rightarrow> int \<Rightarrow> fish \<Rightarrow> (bytes \<times> u32 \<times> u32) list option" where
  "list_loop 0 handle fs = None"
| "list_loop (Suc fuel) handle fs = do {
     (handle, out) \<leftarrow> fish_next handle fs;
     if handle = 0 then Some []
     else do { e \<leftarrow> out; es \<leftarrow> list_loop fuel handle fs; Some (e # es) } }"

definition kids_from :: "nat \<Rightarrow> fish \<Rightarrow> nat list" where
  "kids_from h fs = filter (\<lambda>i. n_used (nodes fs ! i) \<noteq> 0 \<and> n_parent (nodes fs ! i) = current fs)
     [h..<length (nodes fs)]"

definition listed :: "node \<Rightarrow> bytes \<times> u32 \<times> u32" where
  "listed n = (n_name n, n_is_dir n, n_size n)"

lemma next_from_kids:
  "h \<le> length (nodes fs) \<Longrightarrow> next_from h (current fs) (drop h (nodes fs)) =
     (case kids_from h fs of [] \<Rightarrow> (0, None) | i # is \<Rightarrow> (int i + 1, Some (listed (nodes fs ! i))))"
proof (induction "length (nodes fs) - h" arbitrary: h)
  case 0
  then show ?case by (simp add: kids_from_def)
next
  case (Suc k)
  then have h: "h < length (nodes fs)" by simp
  have "kids_from h fs =
     (if n_used (nodes fs ! h) \<noteq> 0 \<and> n_parent (nodes fs ! h) = current fs
      then h # kids_from (Suc h) fs else kids_from (Suc h) fs)"
    using h by (simp add: kids_from_def upt_conv_Cons)
  with Suc(1) [of "Suc h"] Suc(2) h show ?case
    by (auto simp: nth_drop_Cons listed_def)
qed

lemma kids_from_Cons:
  "kids_from h fs = i # is \<Longrightarrow> is = kids_from (Suc i) fs \<and> h \<le> i \<and> i < length (nodes fs)"
proof (induction "length (nodes fs) - h" arbitrary: h)
  case 0
  then show ?case by (simp add: kids_from_def)
next
  case (Suc k)
  then have h: "h < length (nodes fs)" by simp
  have "kids_from h fs =
     (if n_used (nodes fs ! h) \<noteq> 0 \<and> n_parent (nodes fs ! h) = current fs
      then h # kids_from (Suc h) fs else kids_from (Suc h) fs)"
    using h by (simp add: kids_from_def upt_conv_Cons)
  moreover have "k = length (nodes fs) - Suc h" using Suc(2) by simp
  ultimately show ?case using Suc(1) [of "Suc h"] Suc(3) h
    by (cases "n_used (nodes fs ! h) \<noteq> 0 \<and> n_parent (nodes fs ! h) = current fs") auto
qed

lemma list_loop_kids:
  "h \<le> length (nodes fs) \<Longrightarrow> length (kids_from h fs) < fuel \<Longrightarrow>
   list_loop fuel (int h) fs = Some (map (\<lambda>i. listed (nodes fs ! i)) (kids_from h fs))"
proof (induction fuel arbitrary: h)
  case 0
  then show ?case by simp
next
  case (Suc fuel)
  show ?case
  proof (cases "kids_from h fs")
    case Nil
    with Suc.prems next_from_kids [OF Suc.prems(1)] show ?thesis by (simp add: fish_next_def)
  next
    case (Cons i "is")
    from kids_from_Cons [OF Cons] have i: "is = kids_from (Suc i) fs" "i < length (nodes fs)" by auto
    with Suc.IH [of "Suc i"] Suc.prems Cons
    have "list_loop fuel (int i + 1) fs = Some (map (\<lambda>i. listed (nodes fs ! i)) is)"
      by (simp add: add.commute)
    with Cons next_from_kids [OF Suc.prems(1)] show ?thesis by (simp add: fish_next_def)
  qed
qed

lemma kids_child:
  assumes ok: "fish_ok fs"
  shows "i \<in> set (kids_from 0 fs) \<longleftrightarrow>
    child (nodes fs) (unat (current fs)) i (text_of (n_name (nodes fs ! i)))"
  using fish_current [OF ok] fish_length [OF ok] by (auto simp: kids_from_def child_def used_at_def)

lemma kids_length: "length (kids_from h fs) \<le> length (nodes fs)"
  unfolding kids_from_def by (rule order_trans [OF length_filter_le]) simp

subsection \<open>The path\<close>

definition wrote :: "nat \<Rightarrow> bytes \<Rightarrow> bytes \<Rightarrow> bytes \<times> nat" where
  "wrote cap b t = (take (cap - 1) t @ drop (length (take (cap - 1) t)) b, length (take (cap - 1) t))"

lemma put_char_wrote:
  assumes "cap \<le> length b" "0 < cap"
  shows "put_char cap c (wrote cap b t) = Some (wrote cap b (t @ [c]))"
proof (cases "length t < cap - 1")
  case True
  with assms show ?thesis
    by (auto simp: put_char_def wrote_def aset_def list_update_append nth_drop_Cons)
next
  case False
  then show ?thesis using assms(2) by (auto simp: put_char_def wrote_def)
qed

lemma put_name_wrote:
  "cap \<le> length b \<Longrightarrow> 0 < cap \<Longrightarrow> terminated name \<Longrightarrow>
   put_name cap name (wrote cap b t) = Some (wrote cap b (t @ text_of name))"
  by (induction name arbitrary: t) (auto simp: put_char_wrote)

lemma put_chain_wrote:
  assumes "cap \<le> length b" "0 < cap"
  shows "list_all (\<lambda>i. i < length ns \<and> terminated (n_name (ns ! i))) chain \<Longrightarrow>
    put_chain cap chain ns (wrote cap b t) =
      Some (wrote cap b (t @ concat (map (\<lambda>i. 47 # text_of (n_name (ns ! i))) chain)))"
  by (induction chain arbitrary: t) (auto simp: c_access put_char_wrote [OF assms] put_name_wrote [OF assms])

lemma path_text_nonzero: "(\<And>x. x \<in> set d \<Longrightarrow> 0 \<notin> set x) \<Longrightarrow> 0 \<notin> set (path_text d)"
  by (auto simp: path_text_def)

lemma drop_past: "drop (Suc (length t + m)) (t @ x # ys) = drop m ys"
  by (induction t) auto

lemma drop_terminated:
  assumes "length u < cap"
  shows "drop cap (u @ x # drop (Suc (length u)) b) = drop cap b"
proof -
  from assms obtain m where m: "cap = Suc (length u + m)" using less_imp_Suc_add by blast
  have "drop cap (u @ x # drop (Suc (length u)) b) = drop m (drop (Suc (length u)) b)"
    unfolding m by (rule drop_past)
  with m show ?thesis by (simp add: add.commute)
qed

lemma wrote_terminate:
  assumes "cap \<le> length b" "0 < cap" "0 \<notin> set t"
  shows "\<exists>b'. (case wrote cap b t of (b, pos) \<Rightarrow> aset b pos 0) = Some b' \<and> length b' = length b \<and>
    terminated b' \<and> text_of b' = take (cap - 1) t \<and> drop cap b' = drop cap b"
proof -
  let ?t = "take (cap - 1) t"
  have l: "length ?t < cap" using assms(2) by auto
  then have "drop (length ?t) b = b ! length ?t # drop (Suc (length ?t)) b"
    using assms(1) by (simp add: nth_drop_Cons)
  then have "(case wrote cap b t of (b, pos) \<Rightarrow> aset b pos 0) = Some (?t @ 0 # drop (Suc (length ?t)) b)"
    using l assms(1) unfolding wrote_def by (simp add: aset_def list_update_append)
  moreover have "0 \<notin> set ?t" using assms(3) by (auto dest: in_set_takeD)
  moreover have "drop cap (?t @ 0 # drop (Suc (length ?t)) b) = drop cap b"
    by (rule drop_terminated [OF l])
  ultimately show ?thesis using l assms(1) by (simp add: text_of_append_zero)
qed

lemma fish_path_refines:
  assumes ok: "fish_ok fs" and cap: "cap \<le> length buffer" "0 < cap"
  shows "\<exists>b. fish_path buffer cap fs = Some b \<and> length b = length buffer \<and> terminated b \<and>
    text_of b = take (cap - 1) (path_text (cwd (volume_of fs))) \<and> drop cap b = drop cap buffer"
  using ok
proof (rule climb_current)
  fix chain
  assume c: "climb FISH_MAX_NODES (current fs) (nodes fs) = Some chain"
    "list_all (used_at (nodes fs)) chain"
  let ?name = "\<lambda>j. text_of (n_name (nodes fs ! j))"
  have d: "cwd_of fs = map ?name (rev chain)" using c(1) by (simp add: cwd_of_def)
  show ?thesis
  proof (cases "chain = []")
    case True
    then have w: "fish_path buffer cap fs = (case wrote cap buffer [47] of (b, pos) \<Rightarrow> aset b pos 0)"
      using c cap by (cases buffer; cases "tl buffer") (auto simp: fish_path_def wrote_def aset_def)
    show ?thesis
      using wrote_terminate [OF cap, of "[47]"] True d by (simp add: w volume_of_def path_text_def)
  next
    case False
    have "list_all (\<lambda>i. i < length (nodes fs) \<and> terminated (n_name (nodes fs ! i))) (rev chain)"
      using c(2) nodes_terminated [OF fish_nodes [OF ok]]
      by (auto simp: list_all_iff used_at_def)
    from put_chain_wrote [OF cap this, of "[]"]
    have "put_chain cap (rev chain) (nodes fs) (buffer, 0) = Some (wrote cap buffer (path_text (cwd_of fs)))"
      using False d by (simp add: path_text_def wrote_def comp_def)
    then have w: "fish_path buffer cap fs =
        (case wrote cap buffer (path_text (cwd_of fs)) of (b, pos) \<Rightarrow> aset b pos 0)"
      using c(1) cap False by (simp add: fish_path_def)
    have "0 \<notin> set (path_text (cwd_of fs))"
      by (rule path_text_nonzero) (auto simp: d text_of_nonzero)
    from wrote_terminate [OF cap this] show ?thesis by (simp add: w volume_of_def)
  qed
qed

end
