(* ===== verification/Ata.thy ===== *)
theory Ata
  imports PortIO
begin

text \<open>
  \<^verbatim>\<open>drivers/ata.c\<close>: the disk driver, over any bus. The loops that wait for the drive carry the
  code's bound as fuel, so every function is total whatever the hardware does. A status code is
  an \<open>int\<close> as in C; \<^const>\<open>None\<close> is a buffer too short for the sectors.

  What a drive does is in the theory \<open>Ata_Drive\<close>, with the theorems.
\<close>

definition ATA_SECTOR_SIZE :: nat where "ATA_SECTOR_SIZE = 512"
definition ATA_DATA :: u16 where "ATA_DATA = 0x1F0"
definition ATA_SECCOUNT :: u16 where "ATA_SECCOUNT = 0x1F2"
definition ATA_LBA_LOW :: u16 where "ATA_LBA_LOW = 0x1F3"
definition ATA_LBA_MID :: u16 where "ATA_LBA_MID = 0x1F4"
definition ATA_LBA_HIGH :: u16 where "ATA_LBA_HIGH = 0x1F5"
definition ATA_DRIVE :: u16 where "ATA_DRIVE = 0x1F6"
definition ATA_STATUS :: u16 where "ATA_STATUS = 0x1F7"
definition ATA_COMMAND :: u16 where "ATA_COMMAND = 0x1F7"
definition ATA_CONTROL :: u16 where "ATA_CONTROL = 0x3F6"

lemmas ata_ports = ATA_DATA_def ATA_SECCOUNT_def ATA_LBA_LOW_def ATA_LBA_MID_def
  ATA_LBA_HIGH_def ATA_DRIVE_def ATA_STATUS_def ATA_COMMAND_def ATA_CONTROL_def

definition STATUS_ERR :: u8 where "STATUS_ERR = 0x01"
definition STATUS_DRQ :: u8 where "STATUS_DRQ = 0x08"
definition STATUS_DF :: u8 where "STATUS_DF = 0x20"
definition STATUS_RDY :: u8 where "STATUS_RDY = 0x40"
definition STATUS_BSY :: u8 where "STATUS_BSY = 0x80"

lemmas ata_status = STATUS_ERR_def STATUS_DRQ_def STATUS_DF_def STATUS_RDY_def STATUS_BSY_def

definition CMD_READ :: u8 where "CMD_READ = 0x20"
definition CMD_WRITE :: u8 where "CMD_WRITE = 0x30"
definition CMD_FLUSH :: u8 where "CMD_FLUSH = 0xE7"
definition CMD_IDENTIFY :: u8 where "CMD_IDENTIFY = 0xEC"

lemmas ata_commands = CMD_READ_def CMD_WRITE_def CMD_FLUSH_def CMD_IDENTIFY_def

text \<open>The driver's static variable, and the devices behind the bus.\<close>

record 'd ata =
  present :: int
  dev :: 'd

definition ata_present :: "'d ata \<Rightarrow> int" where
  "ata_present a = present a"

definition delay_400ns :: "'d bus \<Rightarrow> 'd \<Rightarrow> 'd" where
  "delay_400ns b d =
     (let (_, d) = inb b ATA_CONTROL d; (_, d) = inb b ATA_CONTROL d;
          (_, d) = inb b ATA_CONTROL d; (_, d) = inb b ATA_CONTROL d in d)"

text \<open>The loops of \<open>wait_ready\<close> and \<open>wait_not_busy\<close>, with the rounds left.\<close>

fun poll_ready :: "'d bus \<Rightarrow> nat \<Rightarrow> 'd \<Rightarrow> int \<times> 'd" where
  "poll_ready b 0 d = (- 2, d)"
| "poll_ready b (Suc n) d =
     (let (status, d) = inb b ATA_STATUS d in
      if status AND STATUS_BSY \<noteq> 0 then poll_ready b n d
      else if status AND (STATUS_ERR OR STATUS_DF) \<noteq> 0 then (- 1, d)
      else if status AND STATUS_DRQ \<noteq> 0 then (0, d)
      else poll_ready b n d)"

definition wait_ready :: "'d bus \<Rightarrow> 'd \<Rightarrow> int \<times> 'd" where
  "wait_ready b d = poll_ready b 1000000 d"

fun poll_not_busy :: "'d bus \<Rightarrow> nat \<Rightarrow> 'd \<Rightarrow> int \<times> 'd" where
  "poll_not_busy b 0 d = (- 2, d)"
| "poll_not_busy b (Suc n) d =
     (let (status, d) = inb b ATA_STATUS d in
      if status AND STATUS_BSY = 0 then (0, d) else poll_not_busy b n d)"

definition wait_not_busy :: "'d bus \<Rightarrow> 'd \<Rightarrow> int \<times> 'd" where
  "wait_not_busy b d = poll_not_busy b 1000000 d"

definition select_sector :: "'d bus \<Rightarrow> u32 \<Rightarrow> u8 \<Rightarrow> 'd \<Rightarrow> 'd" where
  "select_sector b lba count d =
     (let d = outb b ATA_DRIVE (ucast (0xE0 OR (drop_bit 24 lba AND 0x0F))) d;
          d = outb b ATA_SECCOUNT count d;
          d = outb b ATA_LBA_LOW (ucast (lba AND 0xFF)) d;
          d = outb b ATA_LBA_MID (ucast (drop_bit 8 lba AND 0xFF)) d
      in outb b ATA_LBA_HIGH (ucast (drop_bit 16 lba AND 0xFF)) d)"

text \<open>Reading and writing a number of words through the data port.\<close>

fun in_words :: "'d bus \<Rightarrow> nat \<Rightarrow> 'd \<Rightarrow> u16 list \<times> 'd" where
  "in_words b 0 d = ([], d)"
| "in_words b (Suc n) d =
     (let (w, d) = inw b ATA_DATA d; (ws, d) = in_words b n d in (w # ws, d))"

fun out_words :: "'d bus \<Rightarrow> u16 list \<Rightarrow> 'd \<Rightarrow> 'd" where
  "out_words b [] d = d"
| "out_words b (w # ws) d = out_words b ws (outw b ATA_DATA w d)"

text \<open>The 16-bit words of a buffer: \<open>*in++\<close> on the little-endian CPU.\<close>

fun words_of :: "bytes \<Rightarrow> u16 list" where
  "words_of (x # y # bs) = un_le16 x y # words_of bs"
| "words_of _ = []"

definition ata_init :: "'d bus \<Rightarrow> 'd ata \<Rightarrow> int \<times> 'd ata" where
  "ata_init b a =
     (let d = delay_400ns b (outb b ATA_DRIVE 0xA0 (dev a));
          (status, d) = inb b ATA_STATUS d
      in if status = 0xFF \<or> status = 0 then (0, \<lparr>present = 0, dev = d\<rparr>)
         else
           let d = outb b ATA_SECCOUNT 0 d;
               d = outb b ATA_LBA_LOW 0 d;
               d = outb b ATA_LBA_MID 0 d;
               d = outb b ATA_LBA_HIGH 0 d;
               d = delay_400ns b (outb b ATA_COMMAND CMD_IDENTIFY d);
               (status, d) = inb b ATA_STATUS d
           in if status = 0 then (0, \<lparr>present = 0, dev = d\<rparr>)
              else
                let (result, d) = wait_ready b d in
                if result \<noteq> 0 then (0, \<lparr>present = 0, dev = d\<rparr>)
                else
                  let (_, d) = in_words b 256 d in (1, \<lparr>present = 1, dev = d\<rparr>))"

text \<open>The loop over the sectors: \<open>n\<close> sectors left, the next one at offset \<open>pos\<close> of the buffer.\<close>

fun read_sectors :: "'d bus \<Rightarrow> nat \<Rightarrow> nat \<Rightarrow> bytes \<Rightarrow> 'd \<Rightarrow> (int \<times> bytes \<times> 'd) option" where
  "read_sectors b 0 pos buffer d = Some (0, buffer, d)"
| "read_sectors b (Suc n) pos buffer d =
     (let (result, d) = wait_ready b d in
      if result \<noteq> 0 then Some (result, buffer, d)
      else
        let (ws, d) = in_words b (ATA_SECTOR_SIZE div 2) d in do {
          buffer \<leftarrow> awrite buffer pos (concat (map le16 ws));
          read_sectors b n (pos + ATA_SECTOR_SIZE) buffer (delay_400ns b d) })"

definition ata_read :: "'d bus \<Rightarrow> u32 \<Rightarrow> u8 \<Rightarrow> bytes \<Rightarrow> 'd ata \<Rightarrow> (int \<times> bytes \<times> 'd ata) option" where
  "ata_read b lba count buffer a =
     (if present a = 0 then Some (- 1, buffer, a)
      else if count = 0 then Some (0, buffer, a)
      else
        let (result, d) = wait_not_busy b (dev a) in
        if result \<noteq> 0 then Some (- 2, buffer, a\<lparr>dev := d\<rparr>)
        else
          let d = outb b ATA_COMMAND CMD_READ (select_sector b lba count d) in do {
            (result, buffer, d) \<leftarrow> read_sectors b (unat count) 0 buffer d;
            Some (result, buffer, a\<lparr>dev := d\<rparr>) })"

fun write_sectors :: "'d bus \<Rightarrow> nat \<Rightarrow> nat \<Rightarrow> bytes \<Rightarrow> 'd \<Rightarrow> (int \<times> 'd) option" where
  "write_sectors b 0 pos buffer d = Some (0, d)"
| "write_sectors b (Suc n) pos buffer d =
     (let (result, d) = wait_ready b d in
      if result \<noteq> 0 then Some (result, d)
      else if pos + ATA_SECTOR_SIZE > length buffer then None
      else
        let d = out_words b (words_of (take ATA_SECTOR_SIZE (drop pos buffer))) d
        in write_sectors b n (pos + ATA_SECTOR_SIZE) buffer (delay_400ns b d))"

definition ata_write :: "'d bus \<Rightarrow> u32 \<Rightarrow> u8 \<Rightarrow> bytes \<Rightarrow> 'd ata \<Rightarrow> (int \<times> 'd ata) option" where
  "ata_write b lba count buffer a =
     (if present a = 0 then Some (- 1, a)
      else if count = 0 then Some (0, a)
      else
        let (result, d) = wait_not_busy b (dev a) in
        if result \<noteq> 0 then Some (- 2, a\<lparr>dev := d\<rparr>)
        else
          let d = outb b ATA_COMMAND CMD_WRITE (select_sector b lba count d) in do {
            (result, d) \<leftarrow> write_sectors b (unat count) 0 buffer d;
            if result \<noteq> 0 then Some (result, a\<lparr>dev := d\<rparr>)
            else
              let (_, d) = wait_not_busy b (outb b ATA_COMMAND CMD_FLUSH d)
              in Some (0, a\<lparr>dev := d\<rparr>) })"

subsection \<open>Words and bytes\<close>

lemma words_of_bytes: "words_of (concat (map le16 ws)) = ws"
  by (induction ws) (auto simp: le16_def)

lemma bytes_of_words: "even (length bs) \<Longrightarrow> concat (map le16 (words_of bs)) = bs"
  by (induction bs rule: words_of.induct) auto

lemma length_words_of [simp]: "length (words_of bs) = length bs div 2"
  by (induction bs rule: words_of.induct) auto

lemma length_le16s [simp]: "length (concat (map le16 ws)) = 2 * length ws"
  by (induction ws) auto

end
