(* ===== verification/Sector_Store.thy ===== *)
theory Sector_Store
  imports Prelude
begin

text \<open>
  The interface \<^verbatim>\<open>include/ata.h\<close> gives to the filesystem: single sectors of 512 bytes, read and
  written by number, either of which may fail. Runs of consecutive sectors are written and read
  back; the laws make that a round trip, and an error an error.
\<close>

text \<open>Writing a list of sectors one after the other, stopping at the first that fails.\<close>

fun store_run :: "(u32 \<Rightarrow> bytes \<Rightarrow> 's \<Rightarrow> (int \<times> 's) option) \<Rightarrow> u32 \<Rightarrow> bytes list \<Rightarrow> 's \<Rightarrow> (int \<times> 's) option" where
  "store_run wr lba [] s = Some (0, s)"
| "store_run wr lba (x # xs) s = do {
     (r, s) \<leftarrow> wr lba x s;
     if r \<noteq> 0 then Some (r, s) else store_run wr (lba + 1) xs s }"

text \<open>The sectors written before the first faulty one.\<close>

definition overlay :: "(nat \<Rightarrow> bytes) \<Rightarrow> nat \<Rightarrow> bytes list \<Rightarrow> nat \<Rightarrow> bytes" where
  "overlay m k xs = (\<lambda>i. if k \<le> i \<and> i < k + length xs then xs ! (i - k) else m i)"

lemma overlay_Nil [simp]: "overlay m k [] = m"
proof
  fix i
  have "\<not> (k \<le> i \<and> i < k)" by linarith
  then show "overlay m k [] i = m i" by (simp only: overlay_def list.size add_0_right if_False)
qed

lemma overlay_Cons: "overlay (m(k := x)) (Suc k) xs = overlay m k (x # xs)"
  by (rule ext) (auto simp: overlay_def nth_Cons' less_Suc_eq_le Suc_diff_le)

lemma overlay_at: "i < length xs \<Longrightarrow> overlay m k xs (k + i) = xs ! i"
  by (simp add: overlay_def)

lemma overlay_outside: "i < k \<or> k + length xs \<le> i \<Longrightarrow> overlay m k xs i = m i"
  by (auto simp: overlay_def)

lemma unat_plus_one: "unat lba + 1 < 2 ^ 32 \<Longrightarrow> unat ((lba :: u32) + 1) = unat lba + 1"
  by (subst unat_add_lem [THEN iffD1]) simp_all

locale sector_store =
  fixes rd :: "u32 \<Rightarrow> bytes \<Rightarrow> 's \<Rightarrow> (int \<times> bytes \<times> 's) option"
    and wr :: "u32 \<Rightarrow> bytes \<Rightarrow> 's \<Rightarrow> (int \<times> 's) option"
    and good :: "'s \<Rightarrow> bool"
    and sector :: "'s \<Rightarrow> nat \<Rightarrow> bytes"
    and bad :: "'s \<Rightarrow> nat \<Rightarrow> bool"
  assumes rd_law: "good s \<Longrightarrow> unat lba < 2 ^ 28 \<Longrightarrow> length buf = 512 \<Longrightarrow>
      \<exists>s'. rd lba buf s = Some (if bad s (unat lba) then (- 1, buf, s') else (0, sector s (unat lba), s')) \<and>
        good s' \<and> sector s' = sector s \<and> bad s' = bad s"
    and wr_law: "good s \<Longrightarrow> unat lba < 2 ^ 28 \<Longrightarrow> length buf = 512 \<Longrightarrow>
      \<exists>s'. wr lba buf s = Some (if bad s (unat lba) then - 1 else 0, s') \<and> good s' \<and> bad s' = bad s \<and>
        sector s' = (if bad s (unat lba) then sector s else (sector s)(unat lba := buf))"
    and sector_length: "good s \<Longrightarrow> length (sector s k) = 512"
begin

lemma store_run_total:
  "good s \<Longrightarrow> unat lba + length xs \<le> 2 ^ 28 \<Longrightarrow> list_all (\<lambda>x. length x = 512) xs \<Longrightarrow>
   \<exists>r s' k. store_run wr lba xs s = Some (r, s') \<and> good s' \<and> bad s' = bad s \<and>
     k \<le> length xs \<and> sector s' = overlay (sector s) (unat lba) (take k xs) \<and>
     (\<forall>i < k. \<not> bad s (unat lba + i)) \<and>
     (r = 0 \<and> k = length xs \<or> r = - 1 \<and> k < length xs \<and> bad s (unat lba + k))"
proof (induction xs arbitrary: lba s)
  case Nil
  then show ?case by (intro exI [of _ 0] exI [of _ s]) simp
next
  case (Cons x xs)
  have lba: "unat lba < 2 ^ 28" and x: "length x = 512" using Cons.prems by auto
  from wr_law [OF Cons.prems(1) lba x] obtain s1 where
    w: "wr lba x s = Some (if bad s (unat lba) then - 1 else 0, s1)" "good s1" "bad s1 = bad s"
    "sector s1 = (if bad s (unat lba) then sector s else (sector s)(unat lba := x))" by blast
  show ?case
  proof (cases "bad s (unat lba)")
    case True
    with w show ?thesis by (intro exI [of _ "- 1"] exI [of _ s1] exI [of _ 0]) simp
  next
    case False
    have l1: "unat (lba + 1) = unat lba + 1" using Cons.prems(2) by (intro unat_plus_one) simp
    have "unat (lba + 1) + length xs \<le> 2 ^ 28" "list_all (\<lambda>x. length x = 512) xs"
      using Cons.prems(2,3) l1 by simp_all
    from Cons.IH [OF w(2) this] obtain r s' k where
      s': "store_run wr (lba + 1) xs s1 = Some (r, s')" "good s'" "bad s' = bad s1" "k \<le> length xs"
      "sector s' = overlay (sector s1) (unat (lba + 1)) (take k xs)"
      "\<forall>i < k. \<not> bad s1 (unat (lba + 1) + i)"
      "r = 0 \<and> k = length xs \<or> r = - 1 \<and> k < length xs \<and> bad s1 (unat (lba + 1) + k)" by blast
    have "sector s' = overlay (sector s) (unat lba) (take (Suc k) (x # xs))"
      using s'(5) w(4) False l1 by (simp add: overlay_Cons)
    moreover have "\<forall>i < Suc k. \<not> bad s (unat lba + i)"
      using s'(6) w(3) False l1 by (auto simp: less_Suc_eq_0_disj)
    ultimately show ?thesis using s'(1-4,7) w(1,3) False l1
      by (intro exI [of _ r] exI [of _ s'] exI [of _ "Suc k"]) auto
  qed
qed

lemma rd_good:
  assumes "good s" "unat lba < 2 ^ 28" "length buf = 512" "\<not> bad s (unat lba)"
  obtains s' where "rd lba buf s = Some (0, sector s (unat lba), s')" "good s'" "sector s' = sector s"
    "bad s' = bad s"
  using rd_law [OF assms(1-3)] assms(4) by auto

lemma rd_bad:
  assumes "good s" "unat lba < 2 ^ 28" "length buf = 512" "bad s (unat lba)"
  obtains s' where "rd lba buf s = Some (- 1, buf, s')" "good s'" "sector s' = sector s" "bad s' = bad s"
  using rd_law [OF assms(1-3)] assms(4) by auto

end

end
