(* ===== verification/Ata_Drive.thy ===== *)
theory Ata_Drive
  imports Ata Sector_Store
begin

text \<open>
  What \<^verbatim>\<open>drivers/ata.c\<close> relies on: the task-file protocol of an ATA drive in PIO mode, as the
  standard documents it and the comments of the driver summarise it. A \<open>drive\<close> has sectors, some
  of which may be faulty, and takes its time: \<open>busy\<close> counts the status reads that will still
  see it busy, and \<open>delays\<close> how busy each coming step of a command will make it, an adversary's
  choice. A drive need not listen while it is busy: what is written to the registers of a \<open>deaf\<close> one then is lost, commands
  included, and so is what goes through its data port. And between the sectors of a transfer the status is not valid at once: the
  first \<open>lag\<close> reads of a status port, of some 100 ns each, see whatever \<open>stale\<close> says. After a command the drive shows
  that it is busy at once: the driver polls it there without the wait. \<open>drive_bus b view\<close> says that the devices behind the bus \<open>b\<close>, seen through \<open>view\<close>, follow
  the protocol on the drive's ports; it is the hypothesis of the theorems on the driver.
\<close>

datatype phase = Idle | Failed | DataIn "u16 list" nat nat | DataOut "u16 list" nat nat

record drive =
  sectors :: "nat \<Rightarrow> u16 list"
  faulty :: "nat \<Rightarrow> bool"
  identity :: "u16 list"
  r_count :: u8
  r_low :: u8
  r_mid :: u8
  r_high :: u8
  r_drive :: u8
  phase :: phase
  busy :: nat
  delays :: "nat list"
  deaf :: bool
  lag :: nat
  stale :: u8
  settle :: nat

text \<open>A step of a command: the drive is busy for the next of its delays.\<close>

definition working :: "phase \<Rightarrow> drive \<Rightarrow> drive" where
  "working ph h = h\<lparr>phase := ph, busy := (case delays h of [] \<Rightarrow> 0 | n # _ \<Rightarrow> n), delays := tl (delays h)\<rparr>"

text \<open>
  Transfers: the words of the current sector still to come (or those received so far), the
  number of the sector and how many follow it.
\<close>

definition next_in :: "nat \<Rightarrow> nat \<Rightarrow> drive \<Rightarrow> drive" where
  "next_in lba n h = working (if faulty h lba then Failed else DataIn (sectors h lba) lba n) h"

definition next_out :: "nat \<Rightarrow> nat \<Rightarrow> drive \<Rightarrow> drive" where
  "next_out lba n h = working (if faulty h lba then Failed else DataOut [] lba n) h"

definition address :: "drive \<Rightarrow> nat" where
  "address h = unat (un_le32 (r_low h) (r_mid h) (r_high h) (r_drive h AND 0x0F))"

definition sector_count :: "drive \<Rightarrow> nat" where
  "sector_count h = (if r_count h = 0 then 256 else unat (r_count h))"

definition command :: "u8 \<Rightarrow> drive \<Rightarrow> drive" where
  "command c h =
     (if c = CMD_READ then next_in (address h) (sector_count h - 1) h
      else if c = CMD_WRITE then next_out (address h) (sector_count h - 1) h
      else if c = CMD_FLUSH then working Idle h
      else if c = CMD_IDENTIFY then working (DataIn (identity h) 0 0) h
      else working Failed h)"

text \<open>What a busy drive does not take.\<close>

definition unheard :: "drive \<Rightarrow> bool" where
  "unheard h \<longleftrightarrow> deaf h \<and> busy h > 0"

definition drive_out :: "u16 \<Rightarrow> u8 \<Rightarrow> drive \<Rightarrow> drive" where
  "drive_out p v h =
     (if unheard h then h
      else if p = ATA_SECCOUNT then h\<lparr>r_count := v\<rparr>
      else if p = ATA_LBA_LOW then h\<lparr>r_low := v\<rparr>
      else if p = ATA_LBA_MID then h\<lparr>r_mid := v\<rparr>
      else if p = ATA_LBA_HIGH then h\<lparr>r_high := v\<rparr>
      else if p = ATA_DRIVE then h\<lparr>r_drive := v\<rparr>
      else if p = ATA_COMMAND then command v h
      else h)"

definition status_byte :: "drive \<Rightarrow> u8" where
  "status_byte h =
     (if busy h > 0 then STATUS_BSY
      else case phase h of
        Idle \<Rightarrow> STATUS_RDY
      | Failed \<Rightarrow> STATUS_RDY OR STATUS_ERR
      | _ \<Rightarrow> STATUS_RDY OR STATUS_DRQ)"

text \<open>Both status ports read the status, and time passes.\<close>

definition drive_in :: "u16 \<Rightarrow> drive \<Rightarrow> u8 \<times> drive" where
  "drive_in p h = (if settle h > 0 then stale h else status_byte h, h\<lparr>busy := busy h - 1, settle := settle h - 1\<rparr>)"

text \<open>The data port. After the last sector that is written the drive is busy too, storing it.\<close>

definition drive_inw :: "drive \<Rightarrow> u16 \<times> drive" where
  "drive_inw h = (if unheard h then (0xFFFF, h) else case phase h of
       DataIn (w # ws) lba n \<Rightarrow>
         (w, if ws \<noteq> [] then h\<lparr>phase := DataIn ws lba n\<rparr>
             else if n = 0 then h\<lparr>phase := Idle\<rparr>
             else (next_in (lba + 1) (n - 1) h)\<lparr>settle := lag h\<rparr>)
     | _ \<Rightarrow> (0xFFFF, h))"

definition drive_outw :: "u16 \<Rightarrow> drive \<Rightarrow> drive" where
  "drive_outw w h = (if unheard h then h else case phase h of
       DataOut ws lba n \<Rightarrow>
         (if length ws < 255 then h\<lparr>phase := DataOut (ws @ [w]) lba n\<rparr>
          else let h = h\<lparr>sectors := (sectors h)(lba := ws @ [w])\<rparr> in
               (if n = 0 then working Idle h else next_out (lba + 1) (n - 1) h)\<lparr>settle := lag h\<rparr>)
     | _ \<Rightarrow> h)"

definition drive_bus :: "'d bus \<Rightarrow> ('d \<Rightarrow> drive) \<Rightarrow> bool" where
  "drive_bus b view \<longleftrightarrow>
     (\<forall>d p v. p \<in> {ATA_SECCOUNT, ATA_LBA_LOW, ATA_LBA_MID, ATA_LBA_HIGH, ATA_DRIVE, ATA_COMMAND} \<longrightarrow>
        view (port_out b d p v) = drive_out p v (view d)) \<and>
     (\<forall>d p. p \<in> {ATA_STATUS, ATA_CONTROL} \<longrightarrow>
        map_prod id view (port_in b d p) = drive_in p (view d)) \<and>
     (\<forall>d. map_prod id view (port_inw b d ATA_DATA) = drive_inw (view d)) \<and>
     (\<forall>d w. view (port_outw b d ATA_DATA w) = drive_outw w (view d))"

text \<open>The bus with nothing on it but a drive.\<close>

definition bare_bus :: "drive bus" where
  "bare_bus = \<lparr>port_in = (\<lambda>h p. drive_in p h), port_out = (\<lambda>h p v. drive_out p v h),
     port_inw = (\<lambda>h p. drive_inw h), port_outw = (\<lambda>h p w. drive_outw w h)\<rparr>"

lemma bare_bus_drive: "drive_bus bare_bus id"
  by (simp add: drive_bus_def bare_bus_def prod.map_id0)

subsection \<open>The driver sees only the drive's ports\<close>

text \<open>
  A map from the devices of one bus to those of another that respects the driver's ports. From a bus with a drive to
  the bare drive it says that the driver sees nothing else; from a bus to itself, that it does not see the change.
\<close>

definition ata_hom :: "'d bus \<Rightarrow> 'e bus \<Rightarrow> ('d \<Rightarrow> 'e) \<Rightarrow> bool" where
  "ata_hom b b' h \<longleftrightarrow>
     (\<forall>d p v. p \<in> {ATA_SECCOUNT, ATA_LBA_LOW, ATA_LBA_MID, ATA_LBA_HIGH, ATA_DRIVE, ATA_COMMAND} \<longrightarrow>
        h (port_out b d p v) = port_out b' (h d) p v) \<and>
     (\<forall>d p. p \<in> {ATA_STATUS, ATA_CONTROL} \<longrightarrow> map_prod id h (port_in b d p) = port_in b' (h d) p) \<and>
     (\<forall>d. map_prod id h (port_inw b d ATA_DATA) = port_inw b' (h d) ATA_DATA) \<and>
     (\<forall>d w. h (port_outw b d ATA_DATA w) = port_outw b' (h d) ATA_DATA w)"

lemma drive_bus_hom: "drive_bus b view = ata_hom b bare_bus view"
  by (simp add: drive_bus_def ata_hom_def bare_bus_def)

lemma ata_hom_inb:
  "ata_hom b b' view \<Longrightarrow> p \<in> {ATA_STATUS, ATA_CONTROL} \<Longrightarrow> inb b p d = (v, d') \<Longrightarrow> inb b' p (view d) = (v, view d')"
  unfolding ata_hom_def inb_def by (metis map_prod_simp id_apply)

lemma ata_hom_outb:
  "ata_hom b b' view \<Longrightarrow> p \<in> {ATA_SECCOUNT, ATA_LBA_LOW, ATA_LBA_MID, ATA_LBA_HIGH, ATA_DRIVE, ATA_COMMAND} \<Longrightarrow>
   view (outb b p v d) = outb b' p v (view d)"
  by (auto simp: ata_hom_def outb_def)

lemma ata_hom_inw:
  "ata_hom b b' view \<Longrightarrow> inw b ATA_DATA d = (w, d') \<Longrightarrow> inw b' ATA_DATA (view d) = (w, view d')"
  unfolding ata_hom_def inw_def by (metis map_prod_simp id_apply)

lemma ata_hom_outw: "ata_hom b b' view \<Longrightarrow> view (outw b ATA_DATA w d) = outw b' ATA_DATA w (view d)"
  unfolding ata_hom_def outw_def by simp

lemma delay_400ns_view:
  assumes "ata_hom b b' view"
  shows "view (delay_400ns b d) = delay_400ns b' (view d)"
  unfolding delay_400ns_def
  by (auto simp: Let_def split: prod.splits dest!: ata_hom_inb [OF assms, rotated])

lemma poll_ready_view:
  assumes "ata_hom b b' view"
  shows "poll_ready b' n (view d) = map_prod id view (poll_ready b n d)"
proof (induction n arbitrary: d)
  case (Suc n)
  obtain v d' where v: "inb b ATA_STATUS d = (v, d')" by fastforce
  with ata_hom_inb [OF assms _ v] Suc show ?case by simp
qed simp

lemma poll_not_busy_view:
  assumes "ata_hom b b' view"
  shows "poll_not_busy b' n (view d) = map_prod id view (poll_not_busy b n d)"
proof (induction n arbitrary: d)
  case (Suc n)
  obtain v d' where v: "inb b ATA_STATUS d = (v, d')" by fastforce
  with ata_hom_inb [OF assms _ v] Suc show ?case by simp
qed simp

lemma in_words_view:
  assumes "ata_hom b b' view"
  shows "in_words b' n (view d) = map_prod id view (in_words b n d)"
proof (induction n arbitrary: d)
  case (Suc n)
  obtain w d' where w: "inw b ATA_DATA d = (w, d')" by fastforce
  with ata_hom_inw [OF assms w] Suc show ?case by (simp add: split_beta)
qed simp

lemma out_words_view:
  "ata_hom b b' view \<Longrightarrow> view (out_words b ws d) = out_words b' ws (view d)"
  by (induction ws arbitrary: d) (auto simp: ata_hom_outw)

lemma select_sector_view:
  "ata_hom b b' view \<Longrightarrow> view (select_sector b lba count d) = select_sector b' lba count (view d)"
  by (simp add: select_sector_def ata_hom_outb Let_def)

lemma read_sectors_view:
  assumes "ata_hom b b' view"
  shows "read_sectors b' n pos buffer (view d) =
    map_option (map_prod id (map_prod id view)) (read_sectors b n pos buffer d)"
proof (induction n arbitrary: pos buffer d)
  case (Suc n)
  obtain r d1 where 1: "wait_ready b d = (r, d1)" by fastforce
  obtain ws d2 where 2: "in_words b 256 d1 = (ws, d2)" by fastforce
  have "wait_ready b' (view d) = (r, view d1)"
    using poll_ready_view [OF assms, of 1000000 d] 1 by (simp add: wait_ready_def)
  moreover have "in_words b' 256 (view d1) = (ws, view d2)"
    using in_words_view [OF assms, of 256 d1] 2 by simp
  ultimately show ?case using 1 2 Suc
    by (auto simp: ATA_SECTOR_SIZE_def Let_def delay_400ns_view [OF assms, symmetric]
        split: Option.bind_splits)
qed simp

lemma write_sectors_view:
  assumes "ata_hom b b' view"
  shows "write_sectors b' n pos buffer (view d) =
    map_option (map_prod id view) (write_sectors b n pos buffer d)"
proof (induction n arbitrary: pos d)
  case (Suc n)
  obtain r d1 where 1: "wait_ready b d = (r, d1)" by fastforce
  have "wait_ready b' (view d) = (r, view d1)"
    using poll_ready_view [OF assms, of 1000000 d] 1 by (simp add: wait_ready_def)
  with 1 Suc show ?case
    by (auto simp: Let_def delay_400ns_view [OF assms, symmetric] out_words_view [OF assms, symmetric])
qed simp

text \<open>What the driver's state looks like on the other side.\<close>

definition ata_view :: "('d \<Rightarrow> 'e) \<Rightarrow> 'd ata \<Rightarrow> 'e ata" where
  "ata_view view a = \<lparr>present = present a, dev = view (dev a)\<rparr>"

lemma ata_read_view:
  assumes "ata_hom b b' view"
  shows "ata_read b' lba count buffer (ata_view view a) =
    map_option (map_prod id (map_prod id (ata_view view))) (ata_read b lba count buffer a)"
proof -
  obtain r d1 where 1: "wait_not_busy b (dev a) = (r, d1)" by fastforce
  have "wait_not_busy b' (view (dev a)) = (r, view d1)"
    using poll_not_busy_view [OF assms, of 1000000 "dev a"] 1 by (simp add: wait_not_busy_def)
  moreover have "outb b' ATA_COMMAND CMD_READ (select_sector b' lba count (view d1)) =
      view (outb b ATA_COMMAND CMD_READ (select_sector b lba count d1))"
    by (simp add: ata_hom_outb [OF assms] select_sector_view [OF assms])
  ultimately show ?thesis using 1
    by (auto simp: ata_read_def ata_view_def Let_def read_sectors_view [OF assms] split: Option.bind_splits)
qed

lemma ata_write_view:
  assumes "ata_hom b b' view"
  shows "ata_write b' lba count buffer (ata_view view a) =
    map_option (map_prod id (ata_view view)) (ata_write b lba count buffer a)"
proof -
  obtain r d1 where 1: "wait_not_busy b (dev a) = (r, d1)" by fastforce
  have "wait_not_busy b' (view (dev a)) = (r, view d1)"
    using poll_not_busy_view [OF assms, of 1000000 "dev a"] 1 by (simp add: wait_not_busy_def)
  moreover have "outb b' ATA_COMMAND CMD_WRITE (select_sector b' lba count (view d1)) =
      view (outb b ATA_COMMAND CMD_WRITE (select_sector b lba count d1))"
    by (simp add: ata_hom_outb [OF assms] select_sector_view [OF assms])
  moreover have "wait_not_busy b' (outb b' ATA_COMMAND CMD_FLUSH (view d)) =
      map_prod id view (wait_not_busy b (outb b ATA_COMMAND CMD_FLUSH d))" for d
    using poll_not_busy_view [OF assms, of 1000000 "outb b ATA_COMMAND CMD_FLUSH d"]
    by (simp add: wait_not_busy_def ata_hom_outb [OF assms])
  ultimately show ?thesis using 1
    by (auto simp: ata_write_def ata_view_def Let_def write_sectors_view [OF assms]
        split: Option.bind_splits prod.splits)
qed

subsection \<open>The driver on the drive\<close>

text \<open>
  A drive that works: its sectors are whole, it is between commands, and every step it makes the
  driver wait for is over within the driver's bound, its status valid within 400 ns.
\<close>

definition drive_ok :: "drive \<Rightarrow> bool" where
  "drive_ok h \<longleftrightarrow> (\<forall>lba. length (sectors h lba) = 256) \<and> (phase h = Idle \<or> phase h = Failed) \<and>
     busy h < 1000000 \<and> list_all (\<lambda>n. n < 1000000) (delays h) \<and> lag h \<le> 4 \<and> settle h = 0"

definition prompt :: "drive \<Rightarrow> bool" where
  "prompt h \<longleftrightarrow> busy h < 1000000 \<and> list_all (\<lambda>n. n < 1000000) (delays h) \<and> lag h \<le> 4 \<and> settle h = 0"

lemma drive_ok_prompt:
  "drive_ok h \<longleftrightarrow> prompt h \<and> (\<forall>lba. length (sectors h lba) = 256) \<and> (phase h = Idle \<or> phase h = Failed)"
  by (auto simp: drive_ok_def prompt_def)

lemma prompt_simps [simp]:
  "prompt (h\<lparr>phase := ph\<rparr>) = prompt h" "prompt h \<Longrightarrow> prompt (h\<lparr>busy := busy h - k\<rparr>)"
  "prompt (h\<lparr>sectors := s\<rparr>) = prompt h" "prompt h \<Longrightarrow> prompt (h\<lparr>busy := 0\<rparr>)"
  "prompt h \<Longrightarrow> prompt (working ph h)" "prompt h \<Longrightarrow> prompt (h\<lparr>busy := busy h - k, settle := 0\<rparr>)"
  by (auto simp: prompt_def working_def split: list.splits)

lemma working_simps [simp]:
  "sectors (working ph h) = sectors h" "faulty (working ph h) = faulty h" "phase (working ph h) = ph"
  "working ph (h\<lparr>phase := ph'\<rparr>) = working ph h" "lag (working ph h) = lag h" "deaf (working ph h) = deaf h"
  "settle (working ph h) = settle h" "identity (working ph h) = identity h"
  by (simp_all add: working_def)

lemma bare_inb: "settle h = 0 \<Longrightarrow> inb bare_bus p h = (status_byte h, h\<lparr>busy := busy h - 1\<rparr>)"
  by (cases h) (simp add: inb_def bare_bus_def drive_in_def)

lemma bare_delay: "settle h \<le> 4 \<Longrightarrow> delay_400ns bare_bus h = h\<lparr>busy := busy h - 4, settle := 0\<rparr>"
  by (simp add: delay_400ns_def inb_def bare_bus_def drive_in_def Let_def)

lemma heard [simp]: "busy h = 0 \<Longrightarrow> \<not> unheard h"
  by (simp add: unheard_def)

lemma status_bits:
  "STATUS_BSY AND STATUS_BSY \<noteq> 0" "STATUS_RDY AND STATUS_BSY = 0"
  "(STATUS_RDY OR STATUS_ERR) AND STATUS_BSY = 0" "(STATUS_RDY OR STATUS_DRQ) AND STATUS_BSY = 0"
  "(STATUS_RDY OR STATUS_ERR) AND (STATUS_ERR OR STATUS_DF) \<noteq> 0"
  "(STATUS_RDY OR STATUS_DRQ) AND (STATUS_ERR OR STATUS_DF) = 0"
  "(STATUS_RDY OR STATUS_DRQ) AND STATUS_DRQ \<noteq> 0"
  "STATUS_DRQ \<noteq> 0" "STATUS_BSY \<noteq> 0" "STATUS_RDY AND (STATUS_ERR OR STATUS_DF) = 0" "STATUS_RDY AND STATUS_DRQ = 0"
  by (simp_all add: ata_status)

lemma poll_ready_drive:
  "busy h < n \<Longrightarrow> settle h = 0 \<Longrightarrow> phase h \<noteq> Idle \<Longrightarrow>
   poll_ready bare_bus n h = (if phase h = Failed then - 1 else 0, h\<lparr>busy := 0\<rparr>)"
proof (induction n arbitrary: h)
  case (Suc n)
  show ?case
  proof (cases "busy h")
    case 0
    then have h: "h\<lparr>busy := 0\<rparr> = h" by simp
    with 0 Suc.prems show ?thesis
      by (cases "phase h") (simp_all add: bare_inb status_byte_def status_bits Let_def)
  next
    case (Suc k)
    with Suc.prems Suc.IH [of "h\<lparr>busy := k\<rparr>"] show ?thesis
      by (simp add: bare_inb status_byte_def status_bits Let_def)
  qed
qed simp

lemma poll_not_busy_drive:
  "busy h < n \<Longrightarrow> settle h = 0 \<Longrightarrow> poll_not_busy bare_bus n h = (0, h\<lparr>busy := 0\<rparr>)"
proof (induction n arbitrary: h)
  case (Suc n)
  show ?case
  proof (cases "busy h")
    case 0
    then have h: "h\<lparr>busy := 0\<rparr> = h" by simp
    with 0 Suc.prems show ?thesis
      by (cases "phase h") (simp_all add: bare_inb status_byte_def status_bits Let_def)
  next
    case (Suc k)
    with Suc.prems Suc.IH [of "h\<lparr>busy := k\<rparr>"] show ?thesis
      by (simp add: bare_inb status_byte_def status_bits Let_def)
  qed
qed simp

lemma wait_ready_drive:
  "prompt h \<Longrightarrow> phase h \<noteq> Idle \<Longrightarrow>
   wait_ready bare_bus h = (if phase h = Failed then - 1 else 0, h\<lparr>busy := 0\<rparr>)"
  by (simp add: wait_ready_def poll_ready_drive prompt_def)

lemma wait_not_busy_drive: "prompt h \<Longrightarrow> wait_not_busy bare_bus h = (0, h\<lparr>busy := 0\<rparr>)"
  by (simp add: wait_not_busy_def poll_not_busy_drive prompt_def)

lemma address_pieces:
  "un_le32 (ucast (lba AND 0xFF)) (ucast (drop_bit 8 lba AND 0xFF)) (ucast (drop_bit 16 lba AND 0xFF))
     (ucast (0xE0 OR (drop_bit 24 lba AND 0x0F)) AND 0x0F) = take_bit 28 (lba :: u32)"
  (is "?l = _")
proof (rule bit_word_eqI)
  have m: "(0xFF :: u32) = mask 8" "(0x0F :: u32) = mask 4" "(0x0F :: u8) = mask 4"
    "(0xE0 :: u32) = push_bit 5 (mask 3)"
    by (simp_all add: mask_eq_exp_minus_1)
  fix n assume "n < LENGTH(32)"
  then consider "n < 8" | "8 \<le> n" "n < 16" | "16 \<le> n" "n < 24" | "24 \<le> n" "n < 28" | "28 \<le> n" "n < 32"
    by fastforce
  then show "bit ?l n \<longleftrightarrow> bit (take_bit 28 lba) n"
    unfolding m
    by cases (auto simp: un_le32_def bit_or_iff bit_and_iff bit_push_bit_iff bit_unsigned_iff
        bit_drop_bit_eq bit_take_bit_iff bit_mask_iff)
qed

lemma selected:
  "busy h = 0 \<Longrightarrow> select_sector bare_bus lba count h = h\<lparr>r_drive := ucast (0xE0 OR (drop_bit 24 lba AND 0x0F)),
     r_count := count, r_low := ucast (lba AND 0xFF), r_mid := ucast (drop_bit 8 lba AND 0xFF),
     r_high := ucast (drop_bit 16 lba AND 0xFF)\<rparr>"
  by (simp add: select_sector_def outb_def bare_bus_def drive_out_def ata_ports Let_def)

lemma outb_command: "\<not> unheard h \<Longrightarrow> outb bare_bus ATA_COMMAND c h = command c h"
  by (simp add: outb_def bare_bus_def drive_out_def ata_ports)

lemma selected_address:
  assumes "busy h = 0"
  shows "address (select_sector bare_bus lba count h) = unat (take_bit 28 lba)"
proof -
  let ?s = "select_sector bare_bus lba count h"
  have "r_low ?s = ucast (lba AND 0xFF)" "r_mid ?s = ucast (drop_bit 8 lba AND 0xFF)"
    "r_high ?s = ucast (drop_bit 16 lba AND 0xFF)"
    "r_drive ?s = ucast (0xE0 OR (drop_bit 24 lba AND 0x0F))"
    by (simp_all add: selected assms)
  then show ?thesis by (simp only: address_def address_pieces)
qed

lemma selected_simps [simp]:
  assumes "busy h = 0"
  shows "sectors (select_sector bare_bus lba count h) = sectors h"
    and "faulty (select_sector bare_bus lba count h) = faulty h"
    and "prompt (select_sector bare_bus lba count h) = prompt h"
    and "r_count (select_sector bare_bus lba count h) = count"
    and "busy (select_sector bare_bus lba count h) = 0"
  using assms by (simp_all add: selected prompt_def)

subsection \<open>Transfers\<close>

lemma in_words_drive:
  "ws \<noteq> [] \<Longrightarrow> phase h = DataIn ws lba n \<Longrightarrow> busy h = 0 \<Longrightarrow>
   in_words bare_bus (length ws) h =
     (ws, if n = 0 then h\<lparr>phase := Idle\<rparr> else (next_in (lba + 1) (n - 1) h)\<lparr>settle := lag h\<rparr>)"
proof (induction ws arbitrary: h)
  case (Cons w ws)
  show ?case
  proof (cases "ws = []")
    case True
    with Cons.prems show ?thesis
      by (simp add: inw_def bare_bus_def drive_inw_def Let_def)
  next
    case False
    let ?h = "h\<lparr>phase := DataIn ws lba n\<rparr>"
    have "inw bare_bus ATA_DATA h = (w, ?h)"
      using Cons.prems False by (simp add: inw_def bare_bus_def drive_inw_def)
    with Cons.IH [OF False, of ?h] Cons.prems show ?thesis by (simp add: next_in_def)
  qed
qed simp

lemma out_words_drive:
  "phase h = DataOut us lba n \<Longrightarrow> ws \<noteq> [] \<Longrightarrow> length us + length ws = 256 \<Longrightarrow> busy h = 0 \<Longrightarrow>
   out_words bare_bus ws h =
     (let h = h\<lparr>sectors := (sectors h)(lba := us @ ws)\<rparr> in
      (if n = 0 then working Idle h else next_out (lba + 1) (n - 1) h)\<lparr>settle := lag h\<rparr>)"
proof (induction ws arbitrary: h us)
  case (Cons w ws)
  show ?case
  proof (cases "ws = []")
    case True
    with Cons.prems show ?thesis
      by (simp add: outw_def bare_bus_def drive_outw_def Let_def fun_upd_def)
  next
    case False
    let ?h = "h\<lparr>phase := DataOut (us @ [w]) lba n\<rparr>"
    have "length us < 255" using Cons.prems False by (cases ws) auto
    then have "outw bare_bus ATA_DATA w h = ?h"
      using Cons.prems by (simp add: outw_def bare_bus_def drive_outw_def)
    with Cons.IH [of ?h "us @ [w]"] Cons.prems False show ?thesis
      by (simp add: next_out_def working_def Let_def)
  qed
qed simp

text \<open>What a transfer of \<open>n\<close> sectors gives: it stops at the first faulty one.\<close>

definition sector_bytes :: "drive \<Rightarrow> nat \<Rightarrow> bytes" where
  "sector_bytes h lba = concat (map le16 (sectors h lba))"

fun fetch :: "drive \<Rightarrow> nat \<Rightarrow> nat \<Rightarrow> int \<times> bytes" where
  "fetch h lba 0 = (0, [])"
| "fetch h lba (Suc n) =
     (if faulty h lba then (- 1, [])
      else let (r, bs) = fetch h (lba + 1) n in (r, sector_bytes h lba @ bs))"

fun commit :: "drive \<Rightarrow> nat \<Rightarrow> nat \<Rightarrow> bytes \<Rightarrow> int \<times> (nat \<Rightarrow> u16 list)" where
  "commit h lba 0 bs = (0, sectors h)"
| "commit h lba (Suc n) bs =
     (if faulty h lba then (- 1, sectors h)
      else commit (h\<lparr>sectors := (sectors h)(lba := words_of (take 512 bs))\<rparr>) (lba + 1) n (drop 512 bs))"

lemma fetch_cong: "sectors h = sectors h' \<Longrightarrow> faulty h = faulty h' \<Longrightarrow> fetch h lba n = fetch h' lba n"
  by (induction n arbitrary: lba) (auto simp: sector_bytes_def)

lemma commit_cong:
  "sectors h = sectors h' \<Longrightarrow> faulty h = faulty h' \<Longrightarrow> commit h lba n bs = commit h' lba n bs"
proof (induction n arbitrary: h h' lba bs)
  case (Suc n)
  have "commit (h\<lparr>sectors := s\<rparr>) (lba + 1) n bs' = commit (h'\<lparr>sectors := s\<rparr>) (lba + 1) n bs'" for s bs'
    using Suc.prems by (intro Suc.IH) simp_all
  with Suc.prems show ?case by simp
qed simp

lemma fetch_length:
  "(\<And>k. length (sectors h k) = 256) \<Longrightarrow> fetch h lba n = (r, bs) \<Longrightarrow>
   length bs \<le> 512 * n \<and> (r = 0 \<longrightarrow> length bs = 512 * n) \<and> (r = 0 \<or> r = - 1)"
  by (induction n arbitrary: lba bs) (fastforce simp: sector_bytes_def split: prod.splits if_splits)+

text \<open>What was committed is fetched again; sectors in front of a transfer are not written.\<close>

lemma commit_below: "commit h lba n bs = (r, s) \<Longrightarrow> k < lba \<Longrightarrow> s k = sectors h k"
  by (induction n arbitrary: h lba bs) (fastforce split: if_splits)+

lemma fetch_commit:
  assumes "faulty h' = faulty h" and "sectors h' = s"
  shows "commit h lba n bs = (0, s) \<Longrightarrow> 512 * n \<le> length bs \<Longrightarrow> fetch h' lba n = (0, take (512 * n) bs)"
  using assms(1)
proof (induction n arbitrary: h lba bs)
  case (Suc n)
  let ?h = "h\<lparr>sectors := (sectors h)(lba := words_of (take 512 bs))\<rparr>"
  have ok: "\<not> faulty h lba" and c: "commit ?h (lba + 1) n (drop 512 bs) = (0, s)"
    using Suc.prems(1) by (auto split: if_splits)
  have "s lba = words_of (take 512 bs)" using commit_below [OF c, of lba] by simp
  then have "sector_bytes h' lba = take 512 bs"
    using bytes_of_words [of "take 512 bs"] Suc.prems(2) assms(2) by (simp add: sector_bytes_def)
  moreover have "fetch h' (lba + 1) n = (0, take (512 * n) (drop 512 bs))"
    using Suc.IH [OF c] Suc.prems(2,3) by simp
  ultimately show ?case using ok Suc.prems(3) by (simp add: take_add)
qed simp

definition same_media :: "drive \<Rightarrow> drive \<Rightarrow> bool" where
  "same_media h h' \<longleftrightarrow> sectors h' = sectors h \<and> faulty h' = faulty h"

lemma same_media_bytes: "same_media h h' \<Longrightarrow> sector_bytes h' = sector_bytes h"
  by (rule ext) (simp add: same_media_def sector_bytes_def)

lemma same_media_fetch: "same_media h h' \<Longrightarrow> fetch h' lba n = fetch h lba n"
  by (rule fetch_cong) (simp_all add: same_media_def)

text \<open>The drive is about to hand over sector \<open>lba\<close>, with \<open>n\<close> more to follow.\<close>

definition sending :: "drive \<Rightarrow> nat \<Rightarrow> nat \<Rightarrow> bool" where
  "sending g lba n \<longleftrightarrow> prompt g \<and> (\<forall>k. length (sectors g k) = 256) \<and>
     phase g = (if faulty g lba then Failed else DataIn (sectors g lba) lba n)"

lemma next_in_sending:
  "prompt g \<Longrightarrow> (\<And>k. length (sectors g k) = 256) \<Longrightarrow> sending (next_in lba n g) lba n"
  by (simp add: sending_def next_in_def)

lemma sending_failed:
  "sending g lba n \<Longrightarrow> faulty g lba \<Longrightarrow>
   read_sectors bare_bus (Suc m) pos buffer g = Some (- 1, buffer, g\<lparr>busy := 0\<rparr>) \<and>
   same_media g (g\<lparr>busy := 0\<rparr>) \<and> drive_ok (g\<lparr>busy := 0\<rparr>)"
  by (auto simp: sending_def wait_ready_drive same_media_def drive_ok_def prompt_def)

lemma sending_step:
  assumes g: "sending g lba n" "\<not> faulty g lba" and fits: "pos + 512 \<le> length buffer"
  shows "\<exists>g'. read_sectors bare_bus (Suc m) pos buffer g =
      read_sectors bare_bus m (pos + 512) (take pos buffer @ sector_bytes g lba @ drop (pos + 512) buffer) g' \<and>
    same_media g g' \<and> (if n = 0 then drive_ok g' else sending g' (lba + 1) (n - 1))"
proof -
  let ?h = "g\<lparr>busy := 0\<rparr>"
  let ?next = "if n = 0 then ?h\<lparr>phase := Idle\<rparr> else (next_in (lba + 1) (n - 1) ?h)\<lparr>settle := lag ?h\<rparr>"
  have len: "length (sectors g k) = 256" for k using g by (simp add: sending_def)
  have p: "prompt g" "phase ?h = DataIn (sectors g lba) lba n" "busy ?h = 0" using g by (simp_all add: sending_def)
  have l: "lag g \<le> 4" "settle g = 0" using p(1) by (simp_all add: prompt_def)
  have "sectors g lba \<noteq> []" using len [of lba] by auto
  from in_words_drive [OF this p(2,3)] len [of lba]
  have w: "in_words bare_bus 256 ?h = (sectors g lba, ?next)" by simp
  have "wait_ready bare_bus g = (0, ?h)" using wait_ready_drive [OF p(1)] p(2) by simp
  with w fits len have "read_sectors bare_bus (Suc m) pos buffer g =
      read_sectors bare_bus m (pos + 512) (take pos buffer @ sector_bytes g lba @ drop (pos + 512) buffer)
        (delay_400ns bare_bus ?next)"
    by (simp add: ATA_SECTOR_SIZE_def awrite_in sector_bytes_def)
  moreover have "same_media g (delay_400ns bare_bus ?next)"
    using l by (simp add: same_media_def bare_delay next_in_def)
  moreover have "if n = 0 then drive_ok (delay_400ns bare_bus ?next)
      else sending (delay_400ns bare_bus ?next) (lba + 1) (n - 1)"
  proof (cases "n = 0")
    case True
    with p(1) len l show ?thesis by (simp add: drive_ok_def prompt_def bare_delay)
  next
    case False
    have "prompt (next_in (lba + 1) (n - 1) ?h)" using p(1) by (simp add: next_in_def)
    then show ?thesis using False len l by (simp add: sending_def next_in_def bare_delay)
  qed
  ultimately show ?thesis by blast
qed

lemma read_sectors_drive:
  "sending g lba n \<Longrightarrow> pos + 512 * Suc n \<le> length buffer \<Longrightarrow>
   \<exists>r bs h'. read_sectors bare_bus (Suc n) pos buffer g =
       Some (r, take pos buffer @ bs @ drop (pos + length bs) buffer, h') \<and>
     fetch g lba (Suc n) = (r, bs) \<and> same_media g h' \<and> drive_ok h'"
proof (induction n arbitrary: g lba pos buffer)
  case 0
  show ?case
  proof (cases "faulty g lba")
    case True
    with sending_failed [OF 0(1) True, of 0 pos buffer] show ?thesis by simp
  next
    case False
    have "pos + 512 \<le> length buffer" using 0(2) by simp
    from sending_step [OF 0(1) False this, of 0] obtain g' where
      "read_sectors bare_bus (Suc 0) pos buffer g =
         Some (0, take pos buffer @ sector_bytes g lba @ drop (pos + 512) buffer, g')"
      "same_media g g'" "drive_ok g'" by auto
    moreover have "length (sector_bytes g lba) = 512" using 0(1) by (simp add: sending_def sector_bytes_def)
    ultimately show ?thesis using False by simp
  qed
next
  case (Suc n)
  show ?case
  proof (cases "faulty g lba")
    case True
    with sending_failed [OF Suc.prems(1) True, of "Suc n" pos buffer] show ?thesis by simp
  next
    case False
    have fits: "pos + 512 \<le> length buffer" using Suc.prems(2) by simp
    let ?b = "take pos buffer @ sector_bytes g lba @ drop (pos + 512) buffer"
    have len: "length (sector_bytes g lba) = 512" using Suc.prems(1) by (simp add: sending_def sector_bytes_def)
    from sending_step [OF Suc.prems(1) False fits, of "Suc n"] obtain g' where
      g': "read_sectors bare_bus (Suc (Suc n)) pos buffer g = read_sectors bare_bus (Suc n) (pos + 512) ?b g'"
        "same_media g g'" "sending g' (lba + 1) n" by auto
    have "pos + 512 + 512 * Suc n \<le> length ?b" using Suc.prems(2) len by simp
    from Suc.IH [OF g'(3) this] obtain r bs h' where
      h': "read_sectors bare_bus (Suc n) (pos + 512) ?b g' =
         Some (r, take (pos + 512) ?b @ bs @ drop (pos + 512 + length bs) ?b, h')"
      "fetch g' (lba + 1) (Suc n) = (r, bs)" "same_media g' h'" "drive_ok h'" by blast
    have "take (pos + 512) ?b = take pos buffer @ sector_bytes g lba"
      using fits len by simp
    moreover have "drop (pos + 512 + length bs) ?b = drop (pos + (512 + length bs)) buffer"
      using fits len by (simp add: ac_simps)
    ultimately have "read_sectors bare_bus (Suc (Suc n)) pos buffer g =
        Some (r, take pos buffer @ (sector_bytes g lba @ bs) @ drop (pos + length (sector_bytes g lba @ bs)) buffer, h')"
      using g'(1) h'(1) len by (simp only: append_assoc length_append)
    moreover have "fetch g lba (Suc (Suc n)) = (r, sector_bytes g lba @ bs)"
      using False h'(2) same_media_fetch [OF g'(2)]
      by (simp add: fetch.simps(2) [of g lba "Suc n"] del: fetch.simps(2))
    moreover have "same_media g h'" using g'(2) h'(3) by (simp add: same_media_def)
    ultimately show ?thesis using h'(4) by blast
  qed
qed

text \<open>The drive waits for the words of sector \<open>lba\<close>, with \<open>n\<close> more sectors to follow.\<close>

definition receiving :: "drive \<Rightarrow> nat \<Rightarrow> nat \<Rightarrow> bool" where
  "receiving g lba n \<longleftrightarrow> prompt g \<and> (\<forall>k. length (sectors g k) = 256) \<and>
     phase g = (if faulty g lba then Failed else DataOut [] lba n)"

lemma next_out_receiving:
  "prompt g \<Longrightarrow> (\<And>k. length (sectors g k) = 256) \<Longrightarrow> receiving (next_out lba n g) lba n"
  by (simp add: receiving_def next_out_def)

lemma receiving_failed:
  "receiving g lba n \<Longrightarrow> faulty g lba \<Longrightarrow>
   write_sectors bare_bus (Suc m) pos buffer g = Some (- 1, g\<lparr>busy := 0\<rparr>) \<and> drive_ok (g\<lparr>busy := 0\<rparr>)"
  by (auto simp: receiving_def wait_ready_drive drive_ok_def prompt_def)

lemma receiving_step:
  assumes g: "receiving g lba n" "\<not> faulty g lba" and fits: "pos + 512 \<le> length buffer"
  shows "\<exists>g'. write_sectors bare_bus (Suc m) pos buffer g = write_sectors bare_bus m (pos + 512) buffer g' \<and>
    sectors g' = (sectors g)(lba := words_of (take 512 (drop pos buffer))) \<and> faulty g' = faulty g \<and>
    (if n = 0 then drive_ok g' else receiving g' (lba + 1) (n - 1))"
proof -
  let ?ws = "words_of (take 512 (drop pos buffer))"
  let ?h = "g\<lparr>busy := 0\<rparr>"
  let ?s = "?h\<lparr>sectors := (sectors g)(lba := ?ws)\<rparr>"
  let ?next = "(if n = 0 then working Idle ?s else next_out (lba + 1) (n - 1) ?s)\<lparr>settle := lag ?s\<rparr>"
  have len: "length (sectors g k) = 256" for k using g by (simp add: receiving_def)
  have ws: "length ?ws = 256" "?ws \<noteq> []" using fits by (auto simp flip: length_0_conv)
  have p: "prompt g" "phase ?h = DataOut [] lba n" "busy ?h = 0" using g by (simp_all add: receiving_def)
  have l: "lag g \<le> 4" "settle g = 0" using p(1) by (simp_all add: prompt_def)
  from out_words_drive [OF p(2) ws(2) _ p(3)] ws(1)
  have w: "out_words bare_bus ?ws ?h = ?next" by (simp add: Let_def)
  have "wait_ready bare_bus g = (0, ?h)" using wait_ready_drive [OF p(1)] p(2) by simp
  with w fits have "write_sectors bare_bus (Suc m) pos buffer g =
      write_sectors bare_bus m (pos + 512) buffer (delay_400ns bare_bus ?next)"
    by (simp add: ATA_SECTOR_SIZE_def)
  moreover have "sectors (delay_400ns bare_bus ?next) = (sectors g)(lba := ?ws)"
      "faulty (delay_400ns bare_bus ?next) = faulty g"
    using l by (simp_all add: bare_delay next_out_def)
  moreover have "if n = 0 then drive_ok (delay_400ns bare_bus ?next)
      else receiving (delay_400ns bare_bus ?next) (lba + 1) (n - 1)"
  proof (cases "n = 0")
    case True
    have "prompt (working Idle ?s)" using p(1) by simp
    with True len ws l show ?thesis by (simp add: drive_ok_prompt bare_delay)
  next
    case False
    have "prompt (next_out (lba + 1) (n - 1) ?s)" using p(1) by (simp add: next_out_def)
    then show ?thesis using False len ws l by (simp add: receiving_def next_out_def bare_delay)
  qed
  ultimately show ?thesis by blast
qed

lemma write_sectors_drive:
  "receiving g lba n \<Longrightarrow> pos + 512 * Suc n \<le> length buffer \<Longrightarrow>
   \<exists>h'. write_sectors bare_bus (Suc n) pos buffer g = Some (fst (commit g lba (Suc n) (drop pos buffer)), h') \<and>
     sectors h' = snd (commit g lba (Suc n) (drop pos buffer)) \<and> faulty h' = faulty g \<and> drive_ok h'"
proof (induction n arbitrary: g lba pos)
  case 0
  show ?case
  proof (cases "faulty g lba")
    case True
    with receiving_failed [OF 0(1) True, of 0 pos buffer] show ?thesis by simp
  next
    case False
    have "pos + 512 \<le> length buffer" using 0(2) by simp
    from receiving_step [OF 0(1) False this, of 0] False show ?thesis by auto
  qed
next
  case (Suc n)
  show ?case
  proof (cases "faulty g lba")
    case True
    with receiving_failed [OF Suc.prems(1) True, of "Suc n" pos buffer] show ?thesis by simp
  next
    case False
    have fits: "pos + 512 \<le> length buffer" using Suc.prems(2) by simp
    let ?g = "g\<lparr>sectors := (sectors g)(lba := words_of (take 512 (drop pos buffer)))\<rparr>"
    from receiving_step [OF Suc.prems(1) False fits, of "Suc n"] obtain g' where
      g': "write_sectors bare_bus (Suc (Suc n)) pos buffer g = write_sectors bare_bus (Suc n) (pos + 512) buffer g'"
        "sectors g' = sectors ?g" "faulty g' = faulty g" "receiving g' (lba + 1) n" by auto
    have "pos + 512 + 512 * Suc n \<le> length buffer" using Suc.prems(2) by simp
    from Suc.IH [OF g'(4) this] obtain h' where
      h': "write_sectors bare_bus (Suc n) (pos + 512) buffer g' =
         Some (fst (commit g' (lba + 1) (Suc n) (drop (pos + 512) buffer)), h')"
      "sectors h' = snd (commit g' (lba + 1) (Suc n) (drop (pos + 512) buffer))"
      "faulty h' = faulty g'" "drive_ok h'" by blast
    have "commit g' (lba + 1) (Suc n) (drop (pos + 512) buffer) =
        commit ?g (lba + 1) (Suc n) (drop 512 (drop pos buffer))"
      using commit_cong [of g' ?g] g'(2,3) by (simp add: add.commute del: commit.simps)
    also have "\<dots> = commit g lba (Suc (Suc n)) (drop pos buffer)"
      using False by (subst (2) commit.simps) simp
    finally show ?thesis using h' g'(1,3) by (simp del: commit.simps write_sectors.simps)
  qed
qed

subsection \<open>Whole requests\<close>

lemma take_bit_28_small: "unat (lba :: u32) < 2 ^ 28 \<Longrightarrow> unat (take_bit 28 lba) = unat lba"
  by (simp add: unsigned_take_bit_eq take_bit_nat_eq_self)

lemma ata_read_drive:
  assumes a: "present a \<noteq> 0" "drive_ok (dev a)" and n: "count \<noteq> 0" and lba: "unat lba < 2 ^ 28"
    and fits: "512 * unat count \<le> length buffer"
  shows "\<exists>r bs a'. ata_read bare_bus lba count buffer a = Some (r, bs @ drop (length bs) buffer, a') \<and>
    fetch (dev a) (unat lba) (unat count) = (r, bs) \<and> present a' = present a \<and>
    same_media (dev a) (dev a') \<and> drive_ok (dev a')"
proof -
  from n obtain m where m: "unat count = Suc m"
    by (metis not0_implies_Suc unat_eq_zero)
  have p: "prompt (dev a)" and len: "\<And>k. length (sectors (dev a) k) = 256"
    using a(2) by (simp_all add: drive_ok_def prompt_def)
  let ?h = "(dev a)\<lparr>busy := 0\<rparr>"
  let ?s = "select_sector bare_bus lba count ?h"
  have "outb bare_bus ATA_COMMAND CMD_READ ?s = next_in (unat lba) m ?s"
    using n m take_bit_28_small [OF lba]
    by (simp add: outb_command command_def selected_address sector_count_def)
  moreover have "sending (next_in (unat lba) m ?s) (unat lba) m"
    by (rule next_in_sending) (use p len in simp_all)
  then obtain r bs h' where h': "read_sectors bare_bus (Suc m) 0 buffer (next_in (unat lba) m ?s) =
      Some (r, take 0 buffer @ bs @ drop (0 + length bs) buffer, h')"
    "fetch (next_in (unat lba) m ?s) (unat lba) (Suc m) = (r, bs)"
    "same_media (next_in (unat lba) m ?s) h'" "drive_ok h'"
    using read_sectors_drive [of "next_in (unat lba) m ?s" "unat lba" m 0 buffer] fits m by auto
  moreover have media: "same_media (dev a) (next_in (unat lba) m ?s)"
    by (simp add: same_media_def next_in_def)
  ultimately have "ata_read bare_bus lba count buffer a = Some (r, bs @ drop (length bs) buffer, a\<lparr>dev := h'\<rparr>)"
    using a(1) n m wait_not_busy_drive [OF p] by (simp add: ata_read_def Let_def del: read_sectors.simps)
  moreover have "fetch (dev a) (unat lba) (unat count) = (r, bs)"
    using h'(2) same_media_fetch [OF media] m by (simp del: fetch.simps)
  moreover have "same_media (dev a) h'" using media h'(3) by (simp add: same_media_def)
  ultimately show ?thesis using h'(4) by (intro exI [of _ r] exI [of _ bs] exI [of _ "a\<lparr>dev := h'\<rparr>"]) simp
qed

lemma ata_write_drive:
  assumes a: "present a \<noteq> 0" "drive_ok (dev a)" and n: "count \<noteq> 0" and lba: "unat lba < 2 ^ 28"
    and fits: "512 * unat count \<le> length buffer"
  shows "\<exists>r a'. ata_write bare_bus lba count buffer a = Some (r, a') \<and>
    commit (dev a) (unat lba) (unat count) buffer = (r, sectors (dev a')) \<and> present a' = present a \<and>
    faulty (dev a') = faulty (dev a) \<and> drive_ok (dev a')"
proof -
  from n obtain m where m: "unat count = Suc m"
    by (metis not0_implies_Suc unat_eq_zero)
  have p: "prompt (dev a)" and len: "\<And>k. length (sectors (dev a) k) = 256"
    using a(2) by (simp_all add: drive_ok_def prompt_def)
  let ?h = "(dev a)\<lparr>busy := 0\<rparr>"
  let ?s = "select_sector bare_bus lba count ?h"
  let ?g = "next_out (unat lba) m ?s"
  have cmd: "outb bare_bus ATA_COMMAND CMD_WRITE ?s = ?g"
    using n m take_bit_28_small [OF lba]
    by (simp add: outb_command command_def selected_address sector_count_def ata_commands)
  have "receiving ?g (unat lba) m"
    by (rule next_out_receiving) (use p len in simp_all)
  then obtain h' where h': "write_sectors bare_bus (Suc m) 0 buffer ?g =
      Some (fst (commit ?g (unat lba) (Suc m) buffer), h')"
    "sectors h' = snd (commit ?g (unat lba) (Suc m) buffer)" "faulty h' = faulty ?g" "drive_ok h'"
    using write_sectors_drive [of ?g "unat lba" m 0 buffer] fits m by auto
  have c: "commit ?g (unat lba) (Suc m) buffer = commit (dev a) (unat lba) (unat count) buffer"
    unfolding m by (rule commit_cong) (simp_all add: next_out_def)
  let ?f = "outb bare_bus ATA_COMMAND CMD_FLUSH h'"
  have flush: "?f = (if unheard h' then h' else working Idle h')"
    by (simp add: outb_command command_def ata_commands) (simp add: outb_def bare_bus_def drive_out_def)
  have "prompt h'" using h'(4) by (simp add: drive_ok_def prompt_def)
  then have pf: "prompt ?f" by (simp add: flush)
  let ?d = "if fst (commit ?g (unat lba) (Suc m) buffer) \<noteq> 0 then h' else ?f\<lparr>busy := 0\<rparr>"
  have "ata_write bare_bus lba count buffer a = Some (fst (commit ?g (unat lba) (Suc m) buffer), a\<lparr>dev := ?d\<rparr>)"
    using a(1) n m wait_not_busy_drive [OF p] wait_not_busy_drive [OF pf] h'(1) cmd
    by (simp add: ata_write_def Let_def del: write_sectors.simps commit.simps)
  moreover have "drive_ok ?d"
    using h'(4) pf by (auto simp: drive_ok_def prompt_def flush)
  moreover have "sectors ?d = snd (commit ?g (unat lba) (Suc m) buffer)" "faulty ?d = faulty (dev a)"
    using h'(2,3) by (auto simp: flush next_out_def simp del: commit.simps)
  ultimately obtain d where d:
    "ata_write bare_bus lba count buffer a = Some (fst (commit (dev a) (unat lba) (unat count) buffer), a\<lparr>dev := d\<rparr>)"
    "drive_ok d" "sectors d = snd (commit (dev a) (unat lba) (unat count) buffer)" "faulty d = faulty (dev a)"
    unfolding c by blast
  then show ?thesis
    by (intro exI [of _ "fst (commit (dev a) (unat lba) (unat count) buffer)"] exI [of _ "a\<lparr>dev := d\<rparr>"])
       simp
qed

subsection \<open>The driver as a sector store\<close>

text \<open>A driver that found a drive, on a bus where the drive is.\<close>

definition ata_good :: "'d bus \<Rightarrow> ('d \<Rightarrow> drive) \<Rightarrow> 'd ata \<Rightarrow> bool" where
  "ata_good b view a \<longleftrightarrow> drive_bus b view \<and> present a \<noteq> 0 \<and> drive_ok (view (dev a))"

lemma ata_read_good:
  assumes a: "ata_good b view a" and n: "count \<noteq> 0" and lba: "unat lba < 2 ^ 28"
    and fits: "512 * unat count \<le> length buffer"
  shows "\<exists>r bs a'. ata_read b lba count buffer a = Some (r, bs @ drop (length bs) buffer, a') \<and>
    fetch (view (dev a)) (unat lba) (unat count) = (r, bs) \<and>
    same_media (view (dev a)) (view (dev a')) \<and> ata_good b view a'"
proof -
  from a have b: "drive_bus b view" by (simp add: ata_good_def)
  from ata_read_drive [of "ata_view view a", OF _ _ n lba fits] a obtain r bs v where
    v: "ata_read bare_bus lba count buffer (ata_view view a) = Some (r, bs @ drop (length bs) buffer, v)"
    "fetch (view (dev a)) (unat lba) (unat count) = (r, bs)" "present v = present a"
    "same_media (view (dev a)) (dev v)" "drive_ok (dev v)"
    by (auto simp: ata_good_def ata_view_def)
  from v(1) ata_read_view [OF b [unfolded drive_bus_hom], of lba count buffer a] obtain a' where
    "ata_read b lba count buffer a = Some (r, bs @ drop (length bs) buffer, a')" "v = ata_view view a'"
    by auto
  with v a show ?thesis by (auto simp: ata_good_def ata_view_def)
qed

lemma ata_write_good:
  assumes a: "ata_good b view a" and n: "count \<noteq> 0" and lba: "unat lba < 2 ^ 28"
    and fits: "512 * unat count \<le> length buffer"
  shows "\<exists>r a'. ata_write b lba count buffer a = Some (r, a') \<and>
    commit (view (dev a)) (unat lba) (unat count) buffer = (r, sectors (view (dev a'))) \<and>
    faulty (view (dev a')) = faulty (view (dev a)) \<and> ata_good b view a'"
proof -
  from a have b: "drive_bus b view" by (simp add: ata_good_def)
  from ata_write_drive [of "ata_view view a", OF _ _ n lba fits] a obtain r v where
    v: "ata_write bare_bus lba count buffer (ata_view view a) = Some (r, v)"
    "commit (view (dev a)) (unat lba) (unat count) buffer = (r, sectors (dev v))" "present v = present a"
    "faulty (dev v) = faulty (view (dev a))" "drive_ok (dev v)"
    by (auto simp: ata_good_def ata_view_def)
  from v(1) ata_write_view [OF b [unfolded drive_bus_hom], of lba count buffer a] obtain a' where
    "ata_write b lba count buffer a = Some (r, a')" "v = ata_view view a'" by auto
  with v a show ?thesis by (auto simp: ata_good_def ata_view_def)
qed

lemma sector_bytes_length: "drive_ok h \<Longrightarrow> length (sector_bytes h k) = 512"
  by (simp add: sector_bytes_def drive_ok_def)

lemma ata_read_one:
  assumes "ata_good b view a" "unat lba < 2 ^ 28" "length buf = 512"
  shows "\<exists>a'. ata_read b lba 1 buf a = Some (if faulty (view (dev a)) (unat lba) then (- 1, buf, a')
      else (0, sector_bytes (view (dev a)) (unat lba), a')) \<and>
    ata_good b view a' \<and> sector_bytes (view (dev a')) = sector_bytes (view (dev a)) \<and>
    faulty (view (dev a')) = faulty (view (dev a))"
proof -
  let ?h = "view (dev a)"
  from ata_read_good [of b view a 1 lba buf] assms obtain r bs a' where
    a': "ata_read b lba 1 buf a = Some (r, bs @ drop (length bs) buf, a')"
    "fetch ?h (unat lba) 1 = (r, bs)" "same_media ?h (view (dev a'))" "ata_good b view a'" by auto
  have "length (sector_bytes ?h (unat lba)) = 512"
    using assms(1) by (simp add: ata_good_def sector_bytes_length)
  with a'(2) assms(3) have "if faulty ?h (unat lba) then r = - 1 \<and> bs = []
      else r = 0 \<and> bs = sector_bytes ?h (unat lba) \<and> drop (length bs) buf = []"
    by (simp split: if_splits)
  moreover have "faulty (view (dev a')) = faulty ?h" using a'(3) by (simp add: same_media_def)
  ultimately show ?thesis using a'(1,4) same_media_bytes [OF a'(3)] by (auto split: if_splits)
qed

lemma ata_write_one:
  assumes "ata_good b view a" "unat lba < 2 ^ 28" "length buf = 512"
  shows "\<exists>a'. ata_write b lba 1 buf a = Some (if faulty (view (dev a)) (unat lba) then - 1 else 0, a') \<and>
    ata_good b view a' \<and> faulty (view (dev a')) = faulty (view (dev a)) \<and>
    sector_bytes (view (dev a')) = (if faulty (view (dev a)) (unat lba) then sector_bytes (view (dev a))
       else (sector_bytes (view (dev a)))(unat lba := buf))"
proof -
  from ata_write_good [of b view a 1 lba buf] assms obtain r a' where
    a': "ata_write b lba 1 buf a = Some (r, a')"
    "commit (view (dev a)) (unat lba) 1 buf = (r, sectors (view (dev a')))"
    "faulty (view (dev a')) = faulty (view (dev a))" "ata_good b view a'" by auto
  show ?thesis
  proof (cases "faulty (view (dev a)) (unat lba)")
    case True
    with a' show ?thesis by (auto simp: sector_bytes_def)
  next
    case False
    with a'(2) assms(3) have "r = 0" "sectors (view (dev a')) = (sectors (view (dev a)))(unat lba := words_of buf)"
      by simp_all
    with a' False assms(3) bytes_of_words [of buf] show ?thesis by (auto simp: sector_bytes_def)
  qed
qed

interpretation ata: sector_store "\<lambda>lba. ata_read b lba 1" "\<lambda>lba. ata_write b lba 1" "ata_good b view"
    "\<lambda>a. sector_bytes (view (dev a))" "\<lambda>a. faulty (view (dev a))" for b view
  by unfold_locales
     (simp_all only: ata_read_one ata_write_one, simp add: ata_good_def sector_bytes_length)

end
