(* ===== verification/Fish_Disk.thy ===== *)
theory Fish_Disk
  imports Fish_Ops Ata_Drive
begin

text \<open>
  \<^verbatim>\<open>fs/fish.c\<close>, saving and loading: the node array goes to the disk byte for byte behind a
  superblock, through the driver of \<^verbatim>\<open>drivers/ata.c\<close>. The structures are laid out as the 32-bit
  ABI does, little endian, without padding.
\<close>

subsection \<open>The structures in memory\<close>

definition node_bytes :: "node \<Rightarrow> bytes" where
  "node_bytes n = n_name n @ le32 (n_used n) @ le32 (n_is_dir n) @ le32 (n_parent n) @
     le32 (n_size n) @ n_data n"

definition word_at :: "bytes \<Rightarrow> nat \<Rightarrow> u32" where
  "word_at bs i = un_le32 (bs ! i) (bs ! (i + 1)) (bs ! (i + 2)) (bs ! (i + 3))"

definition node_of :: "bytes \<Rightarrow> node" where
  "node_of bs = \<lparr>n_name = take 32 bs, n_used = word_at bs 32, n_is_dir = word_at bs 36,
     n_parent = word_at bs 40, n_size = word_at bs 44, n_data = drop 48 bs\<rparr>"

definition NODE_SIZE :: nat where "NODE_SIZE = FISH_NAME_MAX + 16 + FISH_FILE_MAX"
definition NODE_BYTES :: nat where "NODE_BYTES = FISH_MAX_NODES * NODE_SIZE"
definition NODE_SECTORS :: nat where
  "NODE_SECTORS = (NODE_BYTES + ATA_SECTOR_SIZE - 1) div ATA_SECTOR_SIZE"

definition nodes_bytes :: "node list \<Rightarrow> bytes" where
  "nodes_bytes ns = concat (map node_bytes ns)"

definition nodes_of :: "bytes \<Rightarrow> node list" where
  "nodes_of bs = map (\<lambda>i. node_of (take NODE_SIZE (drop (NODE_SIZE * i) bs))) [0..<FISH_MAX_NODES]"

definition FISH_MAGIC :: u32 where "FISH_MAGIC = 0x48534946"
definition FISH_VERSION :: u32 where "FISH_VERSION = 1"
definition FISH_START_LBA :: u32 where "FISH_START_LBA = 2048"

record superblock =
  sb_magic :: u32
  sb_version :: u32
  sb_node_count :: u32
  sb_node_size :: u32
  sb_current :: u32

definition superblock_bytes :: "superblock \<Rightarrow> bytes" where
  "superblock_bytes sb = le32 (sb_magic sb) @ le32 (sb_version sb) @ le32 (sb_node_count sb) @
     le32 (sb_node_size sb) @ le32 (sb_current sb)"

definition superblock_of :: "bytes \<Rightarrow> superblock" where
  "superblock_of bs = \<lparr>sb_magic = word_at bs 0, sb_version = word_at bs 4, sb_node_count = word_at bs 8,
     sb_node_size = word_at bs 12, sb_current = word_at bs 16\<rparr>"

subsection \<open>Saving\<close>

text \<open>The loop of \<open>fish_save\<close>: \<open>n\<close> rounds left, the next sector number and what is written.\<close>

fun save_nodes :: "'d bus \<Rightarrow> nat \<Rightarrow> u32 \<Rightarrow> nat \<Rightarrow> bytes \<Rightarrow> 'd ata \<Rightarrow> (int \<times> 'd ata) option" where
  "save_nodes b 0 s written source a = Some (FISH_OK, a)"
| "save_nodes b (Suc n) s written source a =
     (let remaining = NODE_BYTES - written;
          chunk = (if remaining < ATA_SECTOR_SIZE then remaining else ATA_SECTOR_SIZE)
      in do {
        sector \<leftarrow> memcpy (replicate ATA_SECTOR_SIZE 0) 0 (drop written source) chunk;
        (r, a) \<leftarrow> ata_write b (FISH_START_LBA + 1 + s) 1 sector a;
        if r \<noteq> 0 then Some (FISH_ERR_IO, a)
        else save_nodes b n (s + 1) (written + chunk) source a })"

definition fish_save :: "'d bus \<Rightarrow> fish \<Rightarrow> 'd ata \<Rightarrow> (int \<times> 'd ata) option" where
  "fish_save b fs a =
     (if ata_present a = 0 then Some (FISH_ERR_NODISK, a)
      else
        let sb = \<lparr>sb_magic = FISH_MAGIC, sb_version = FISH_VERSION, sb_node_count = of_nat FISH_MAX_NODES,
                  sb_node_size = of_nat NODE_SIZE, sb_current = current fs\<rparr>
        in do {
          sector \<leftarrow> memcpy (replicate ATA_SECTOR_SIZE 0) 0 (superblock_bytes sb) 20;
          (r, a) \<leftarrow> ata_write b FISH_START_LBA 1 sector a;
          if r \<noteq> 0 then Some (FISH_ERR_IO, a)
          else save_nodes b NODE_SECTORS 0 0 (nodes_bytes (nodes fs)) a })"

subsection \<open>Loading\<close>

text \<open>
  The loop of \<open>fish_load\<close>; \<open>dest\<close> is the memory of the node array, overwritten sector by sector.
\<close>

fun load_nodes :: "'d bus \<Rightarrow> nat \<Rightarrow> u32 \<Rightarrow> nat \<Rightarrow> bytes \<Rightarrow> bytes \<Rightarrow> 'd ata \<Rightarrow> (int \<times> bytes \<times> 'd ata) option" where
  "load_nodes b 0 s read_so_far sector dest a = Some (FISH_OK, dest, a)"
| "load_nodes b (Suc n) s read_so_far sector dest a =
     (let remaining = NODE_BYTES - read_so_far;
          chunk = (if remaining < ATA_SECTOR_SIZE then remaining else ATA_SECTOR_SIZE)
      in do {
        (r, sector, a) \<leftarrow> ata_read b (FISH_START_LBA + 1 + s) 1 sector a;
        if r \<noteq> 0 then Some (FISH_ERR_IO, dest, a)
        else do {
          dest \<leftarrow> memcpy dest read_so_far sector chunk;
          load_nodes b n (s + 1) (read_so_far + chunk) sector dest a } })"

text \<open>The end of \<open>fish_load\<close>: the directory index and the root, which came off the disk, are checked.\<close>

definition load_finish :: "u32 \<Rightarrow> fish \<Rightarrow> 'd ata \<Rightarrow> (int \<times> fish \<times> 'd ata) option" where
  "load_finish c fs a = do {
     bad \<leftarrow> (if c \<ge> of_nat FISH_MAX_NODES then Some True
             else do { n \<leftarrow> aget (nodes fs) (unat c); Some (n_used n = 0 \<or> n_is_dir n = 0) });
     let fs = fs\<lparr>current := if bad then 0 else c\<rparr> in do {
       root \<leftarrow> aget (nodes fs) 0;
       if n_used root = 0 \<or> n_is_dir root = 0
       then do { fs \<leftarrow> fish_init fs; Some (FISH_ERR_FORMAT, fs, a) }
       else Some (FISH_OK, fs, a) } }"

text \<open>\<open>stack\<close> is what the uninitialised buffer \<open>sector\<close> happens to hold.\<close>

definition fish_load :: "'d bus \<Rightarrow> bytes \<Rightarrow> fish \<Rightarrow> 'd ata \<Rightarrow> (int \<times> fish \<times> 'd ata) option" where
  "fish_load b stack fs a =
     (if ata_present a = 0 then Some (FISH_ERR_NODISK, fs, a)
      else do {
        (r, sector, a) \<leftarrow> ata_read b FISH_START_LBA 1 stack a;
        if r \<noteq> 0 then Some (FISH_ERR_IO, fs, a)
        else
          let sb = superblock_of (take 20 sector) in
          if sb_magic sb \<noteq> FISH_MAGIC then Some (FISH_ERR_FORMAT, fs, a)
          else if sb_version sb \<noteq> FISH_VERSION then Some (FISH_ERR_FORMAT, fs, a)
          else if sb_node_count sb \<noteq> of_nat FISH_MAX_NODES then Some (FISH_ERR_FORMAT, fs, a)
          else if sb_node_size sb \<noteq> of_nat NODE_SIZE then Some (FISH_ERR_FORMAT, fs, a)
          else do {
            (r, dest, a) \<leftarrow> load_nodes b NODE_SECTORS 0 0 sector (nodes_bytes (nodes fs)) a;
            let fs = fs\<lparr>nodes := nodes_of dest\<rparr> in
            if r \<noteq> FISH_OK then Some (r, fs, a)
            else load_finish (sb_current sb) fs a } })"

subsection \<open>Encoding and decoding\<close>

definition node_shape :: "node \<Rightarrow> bool" where
  "node_shape n \<longleftrightarrow> length (n_name n) = 32 \<and> length (n_data n) = 512"

text \<open>The node array has its declared size: true of any C state.\<close>

definition fish_shape :: "fish \<Rightarrow> bool" where
  "fish_shape fs \<longleftrightarrow> length (nodes fs) = 64 \<and> list_all node_shape (nodes fs)"

lemma fish_ok_shape: "fish_ok fs \<Longrightarrow> fish_shape fs"
  by (auto simp: fish_shape_def fish_length nodes_ok_def node_ok_def node_shape_def fish_sizes
      list_all_iff dest!: fish_nodes)

lemma disk_sizes: "NODE_SIZE = 560" "NODE_BYTES = 35840" "NODE_SECTORS = 70"
  by (simp_all add: NODE_SIZE_def NODE_BYTES_def NODE_SECTORS_def fish_sizes ATA_SECTOR_SIZE_def)

lemma length_node_bytes [simp]: "node_shape n \<Longrightarrow> length (node_bytes n) = 560"
  by (simp add: node_bytes_def node_shape_def)

lemma word_at_le32: "length us = i \<Longrightarrow> word_at (us @ le32 v @ vs) i = v"
  by (auto simp: word_at_def le32_def nth_append)

lemma word_at_take: "i + 3 < n \<Longrightarrow> word_at (take n bs) i = word_at bs i"
  by (simp add: word_at_def)

lemma node_of_bytes: "node_shape n \<Longrightarrow> node_of (node_bytes n) = n"
proof -
  assume n: "node_shape n"
  let ?b = "node_bytes n"
  have "word_at ?b 32 = n_used n" "word_at ?b 36 = n_is_dir n" "word_at ?b 40 = n_parent n"
    "word_at ?b 44 = n_size n"
    using n word_at_le32 [of "n_name n" 32 "n_used n"]
      word_at_le32 [of "n_name n @ le32 (n_used n)" 36 "n_is_dir n"]
      word_at_le32 [of "n_name n @ le32 (n_used n) @ le32 (n_is_dir n)" 40 "n_parent n"]
      word_at_le32 [of "n_name n @ le32 (n_used n) @ le32 (n_is_dir n) @ le32 (n_parent n)" 44 "n_size n"]
    by (simp_all add: node_bytes_def node_shape_def)
  moreover have "take 32 ?b = n_name n" "drop 48 ?b = n_data n"
    using n by (simp_all add: node_bytes_def node_shape_def)
  ultimately show ?thesis by (simp add: node_of_def)
qed

lemma node_shape_of: "length bs = 560 \<Longrightarrow> node_shape (node_of bs)"
  by (simp add: node_shape_def node_of_def)

lemma bytes_of_node: "length bs = 560 \<Longrightarrow> node_bytes (node_of bs) = bs"
proof -
  assume l: "length bs = 560"
  have w: "le32 (word_at bs i) = take 4 (drop i bs)" if "i + 4 \<le> 560" for i
    using that l by (simp add: word_at_def nth_drop_Cons numeral_eq_Suc)
  have "take 32 bs @ take 4 (drop 32 bs) @ take 4 (drop 36 bs) @ take 4 (drop 40 bs) @
      take 4 (drop 44 bs) @ drop 48 bs = bs"
    using take_add [of 32 4 bs] take_add [of 36 4 bs] take_add [of 40 4 bs] take_add [of 44 4 bs]
      append_take_drop_id [of 48 bs] by simp
  then show ?thesis by (simp add: node_bytes_def node_of_def w)
qed

text \<open>Cutting a concatenation of equally long pieces.\<close>

lemma piece:
  "list_all (\<lambda>x. length x = k) xs \<Longrightarrow> i < length xs \<Longrightarrow> take k (drop (k * i) (concat xs)) = xs ! i"
proof (induction xs arbitrary: i)
  case (Cons x xs)
  then show ?case by (cases i) auto
qed simp

lemma length_pieces: "list_all (\<lambda>x. length x = k) xs \<Longrightarrow> length (concat xs) = k * length xs"
  by (induction xs) auto

lemma concat_pieces:
  "length bs = k * n \<Longrightarrow> concat (map (\<lambda>i. take k (drop (k * i) bs)) [0..<n]) = bs"
proof (induction n arbitrary: bs)
  case (Suc n)
  have "concat (map (\<lambda>i. take k (drop (k * i) (take (k * n) bs))) [0..<n]) = take (k * n) bs"
    using Suc.prems by (intro Suc.IH) simp
  moreover have "take k (drop (k * i) (take (k * n) bs)) = take k (drop (k * i) bs)" if "i < n" for i
  proof -
    have "k \<le> k * n - k * i" using that by (metis Suc_leI diff_mult_distrib2 le_add1 mult.right_neutral
          mult_le_mono2 zero_less_diff One_nat_def)
    then show ?thesis by (simp add: drop_take min_absorb1)
  qed
  ultimately have "concat (map (\<lambda>i. take k (drop (k * i) bs)) [0..<n]) = take (k * n) bs"
    by (metis (no_types, lifting) atLeastLessThan_iff map_cong set_upt)
  with Suc.prems show ?case by simp
qed simp

lemma shape_pieces: "list_all node_shape ns \<Longrightarrow> list_all (\<lambda>x. length x = 560) (map node_bytes ns)"
  by (simp add: list_all_iff)

lemma nodes_of_bytes:
  assumes "length ns = 64" "list_all node_shape ns"
  shows "nodes_of (nodes_bytes ns) = ns"
proof (rule nth_equalityI)
  fix i assume "i < length (nodes_of (nodes_bytes ns))"
  then have i: "i < 64" by (simp add: nodes_of_def FISH_MAX_NODES_def)
  with assms piece [OF shape_pieces [OF assms(2)], of i] show "nodes_of (nodes_bytes ns) ! i = ns ! i"
    by (simp add: nodes_of_def nodes_bytes_def disk_sizes FISH_MAX_NODES_def node_of_bytes list_all_length)
qed (simp add: nodes_of_def FISH_MAX_NODES_def assms)

lemma length_nodes_bytes: "length ns = 64 \<Longrightarrow> list_all node_shape ns \<Longrightarrow> length (nodes_bytes ns) = 35840"
  using length_pieces [OF shape_pieces [of ns]] by (simp add: nodes_bytes_def)

lemma nodes_of_shape: "length bs = 35840 \<Longrightarrow> length (nodes_of bs) = 64 \<and> list_all node_shape (nodes_of bs)"
  by (auto simp: nodes_of_def disk_sizes FISH_MAX_NODES_def list_all_iff intro!: node_shape_of)

lemma superblock_of_bytes: "superblock_of (superblock_bytes sb @ bs) = sb"
proof -
  let ?m = "le32 (sb_magic sb)" and ?v = "le32 (sb_version sb)" and ?c = "le32 (sb_node_count sb)"
    and ?s = "le32 (sb_node_size sb)" and ?d = "le32 (sb_current sb)"
  have "word_at (?m @ ?v @ ?c @ ?s @ ?d @ bs) 0 = sb_magic sb"
    "word_at (?m @ ?v @ ?c @ ?s @ ?d @ bs) 4 = sb_version sb"
    "word_at (?m @ ?v @ ?c @ ?s @ ?d @ bs) 8 = sb_node_count sb"
    "word_at (?m @ ?v @ ?c @ ?s @ ?d @ bs) 12 = sb_node_size sb"
    "word_at (?m @ ?v @ ?c @ ?s @ ?d @ bs) 16 = sb_current sb"
    using word_at_le32 [of "[]" 0] word_at_le32 [of ?m 4] word_at_le32 [of "?m @ ?v" 8]
      word_at_le32 [of "?m @ ?v @ ?c" 12] word_at_le32 [of "?m @ ?v @ ?c @ ?s" 16]
    by simp_all
  then show ?thesis by (simp add: superblock_of_def superblock_bytes_def)
qed

subsection \<open>What saving writes\<close>

text \<open>The sectors of a saved filesystem, in the order of the disk.\<close>

definition fish_superblock :: "fish \<Rightarrow> superblock" where
  "fish_superblock fs = \<lparr>sb_magic = FISH_MAGIC, sb_version = FISH_VERSION,
     sb_node_count = of_nat FISH_MAX_NODES, sb_node_size = of_nat NODE_SIZE, sb_current = current fs\<rparr>"

definition sector_cut :: "bytes \<Rightarrow> nat \<Rightarrow> bytes" where
  "sector_cut bs j = take 512 (drop (512 * j) bs)"

definition fish_image :: "fish \<Rightarrow> bytes list" where
  "fish_image fs = (superblock_bytes (fish_superblock fs) @ replicate 492 0) #
     map (sector_cut (nodes_bytes (nodes fs))) [0..<70]"

lemma length_fish_image [simp]: "length (fish_image fs) = 71"
  by (simp add: fish_image_def)

lemma length_superblock_bytes [simp]: "length (superblock_bytes sb) = 20"
  by (simp add: superblock_bytes_def)

lemma shape_bytes: "fish_shape fs \<Longrightarrow> length (nodes_bytes (nodes fs)) = 35840"
  by (simp add: fish_shape_def length_nodes_bytes)

lemma length_sector_cut: "length bs = 35840 \<Longrightarrow> j < 70 \<Longrightarrow> length (sector_cut bs j) = 512"
  by (simp add: sector_cut_def)

lemma fish_image_sectors: "fish_shape fs \<Longrightarrow> list_all (\<lambda>x. length x = 512) (fish_image fs)"
  by (auto simp: fish_image_def list_all_iff length_sector_cut shape_bytes)

abbreviation write_one :: "'d bus \<Rightarrow> u32 \<Rightarrow> bytes \<Rightarrow> 'd ata \<Rightarrow> (int \<times> 'd ata) option" where
  "write_one b lba \<equiv> ata_write b lba 1"

definition save_code :: "int \<times> 'd ata \<Rightarrow> int \<times> 'd ata" where
  "save_code = (\<lambda>(r, a). (if r = 0 then FISH_OK else FISH_ERR_IO, a))"

lemma save_nodes_run:
  assumes "length source = 35840"
  shows "i + n = 70 \<Longrightarrow> save_nodes b n (of_nat i) (512 * i) source a =
    map_option save_code (store_run (write_one b) (2049 + of_nat i) (map (sector_cut source) [i..<70]) a)"
proof (induction n arbitrary: i a)
  case 0
  then show ?case by (simp add: save_code_def)
next
  case (Suc n)
  have i: "i < 70" using Suc.prems by simp
  have rem: "(if NODE_BYTES - 512 * i < ATA_SECTOR_SIZE then NODE_BYTES - 512 * i else ATA_SECTOR_SIZE) = 512"
    using i by (simp add: disk_sizes ATA_SECTOR_SIZE_def)
  have sector: "memcpy (replicate ATA_SECTOR_SIZE 0) 0 (drop (512 * i) source) 512 = Some (sector_cut source i)"
    using assms i by (simp add: memcpy_def awrite_def ATA_SECTOR_SIZE_def sector_cut_def)
  have lba: "FISH_START_LBA + 1 + of_nat i = 2049 + of_nat i" by (simp add: FISH_START_LBA_def)
  have "save_nodes b n (of_nat i + 1) (512 * i + 512) source a' =
     map_option save_code (store_run (write_one b) (2049 + of_nat i + 1) (map (sector_cut source) [Suc i..<70]) a')" for a'
    using Suc.IH [of "Suc i" a'] Suc.prems by (simp add: ac_simps)
  moreover have "save_nodes b (Suc n) (of_nat i) (512 * i) source a = do {
      (r, a) \<leftarrow> write_one b (2049 + of_nat i) (sector_cut source i) a;
      if r \<noteq> 0 then Some (FISH_ERR_IO, a) else save_nodes b n (of_nat i + 1) (512 * i + 512) source a }"
    by (simp only: save_nodes.simps Let_def rem sector lba bind.bind_lunit)
  ultimately show ?case
    using i by (auto simp: upt_conv_Cons save_code_def split: Option.bind_splits)
qed

lemma fish_save_run:
  assumes "fish_shape fs" "present a \<noteq> 0"
  shows "fish_save b fs a = map_option save_code (store_run (write_one b) 2048 (fish_image fs) a)"
proof -
  have "memcpy (replicate ATA_SECTOR_SIZE 0) 0 (superblock_bytes (fish_superblock fs)) 20 =
      Some (superblock_bytes (fish_superblock fs) @ replicate 492 0)"
    by (simp add: memcpy_def awrite_def ATA_SECTOR_SIZE_def)
  then show ?thesis
    using save_nodes_run [OF shape_bytes [OF assms(1)], of 0 70 b] assms(2)
    by (auto simp: fish_save_def fish_image_def ata_present_def FISH_START_LBA_def disk_sizes
        fish_superblock_def save_code_def split: Option.bind_splits)
qed

lemma fish_save_total:
  assumes a: "ata_good b view a" and fs: "fish_shape fs"
  shows "\<exists>r a' k. fish_save b fs a = Some (r, a') \<and> ata_good b view a' \<and>
    faulty (view (dev a')) = faulty (view (dev a)) \<and> k \<le> 71 \<and>
    sector_bytes (view (dev a')) = overlay (sector_bytes (view (dev a))) 2048 (take k (fish_image fs)) \<and>
    (r = FISH_OK \<and> k = 71 \<and> (\<forall>i < 71. \<not> faulty (view (dev a)) (2048 + i)) \<or>
     r = FISH_ERR_IO \<and> k < 71 \<and> faulty (view (dev a)) (2048 + k))"
proof -
  have p: "present a \<noteq> 0" using a by (simp add: ata_good_def)
  have "unat (2048 :: u32) + length (fish_image fs) \<le> 2 ^ 28" by simp
  from ata.store_run_total [OF a this fish_image_sectors [OF fs]] obtain r a' k where
    "store_run (write_one b) 2048 (fish_image fs) a = Some (r, a')" "ata_good b view a'"
    "faulty (view (dev a')) = faulty (view (dev a))" "k \<le> 71"
    "sector_bytes (view (dev a')) = overlay (sector_bytes (view (dev a))) 2048 (take k (fish_image fs))"
    "\<forall>i < k. \<not> faulty (view (dev a)) (2048 + i)"
    "r = 0 \<and> k = 71 \<or> r = - 1 \<and> k < 71 \<and> faulty (view (dev a)) (2048 + k)" by auto
  with fish_save_run [OF fs p, of b] show ?thesis
    by (intro exI [of _ "if r = 0 then FISH_OK else FISH_ERR_IO"] exI [of _ a'] exI [of _ k])
       (auto simp: save_code_def)
qed

subsection \<open>What loading reads\<close>

lemma memcpy_sector:
  "length x = 512 \<Longrightarrow> k + 512 \<le> length d \<Longrightarrow> memcpy d k x 512 = Some (take k d @ x @ drop (k + 512) d)"
  by (simp add: memcpy_def awrite_def)

lemma load_nodes_total:
  assumes "ata_good b view a" "length sector = 512" "length dest = 35840" "i + n = 70"
  shows "\<exists>r a' k. i \<le> k \<and> k \<le> 70 \<and>
    load_nodes b n (of_nat i) (512 * i) sector dest a =
      Some (r, take (512 * i) dest @
        concat (map (\<lambda>j. sector_bytes (view (dev a)) (2049 + j)) [i..<k]) @ drop (512 * k) dest, a') \<and>
    ata_good b view a' \<and> sector_bytes (view (dev a')) = sector_bytes (view (dev a)) \<and>
    faulty (view (dev a')) = faulty (view (dev a)) \<and>
    (\<forall>j. i \<le> j \<and> j < k \<longrightarrow> \<not> faulty (view (dev a)) (2049 + j)) \<and>
    (r = FISH_OK \<and> k = 70 \<or> r = FISH_ERR_IO \<and> k < 70 \<and> faulty (view (dev a)) (2049 + k))"
  using assms
proof (induction n arbitrary: i a sector dest)
  case 0
  then show ?case by (intro exI [of _ FISH_OK] exI [of _ a] exI [of _ 70]) auto
next
  case (Suc n)
  note a = Suc.prems(1)
  have i: "i < 70" using Suc.prems(4) by simp
  have rem: "(if NODE_BYTES - 512 * i < ATA_SECTOR_SIZE then NODE_BYTES - 512 * i else ATA_SECTOR_SIZE) = 512"
    using i by (simp add: disk_sizes ATA_SECTOR_SIZE_def)
  have lba: "FISH_START_LBA + 1 + of_nat i = (2049 + of_nat i :: u32)" by (simp add: FISH_START_LBA_def)
  have addr: "unat (2049 + of_nat i :: u32) = 2049 + i"
    using i by (subst unat_add_lem [THEN iffD1]) (simp_all add: unat_of_nat)
  have step: "load_nodes b (Suc n) (of_nat i) (512 * i) sector dest a = do {
      (r, sector, a) \<leftarrow> ata_read b (2049 + of_nat i) 1 sector a;
      if r \<noteq> 0 then Some (FISH_ERR_IO, dest, a)
      else do {
        dest \<leftarrow> memcpy dest (512 * i) sector 512;
        load_nodes b n (of_nat i + 1) (512 * i + 512) sector dest a } }"
    by (simp only: load_nodes.simps Let_def rem lba)
  from addr have small: "unat (2049 + of_nat i :: u32) < 2 ^ 28" using i by simp
  show ?case
  proof (cases "faulty (view (dev a)) (2049 + i)")
    case True
    then have "faulty (view (dev a)) (unat (2049 + of_nat i :: u32))" using addr by simp
    from ata.rd_bad [OF a small Suc.prems(2) this] obtain a' where
      "ata_read b (2049 + of_nat i) 1 sector a = Some (- 1, sector, a')" "ata_good b view a'"
      "sector_bytes (view (dev a')) = sector_bytes (view (dev a))"
      "faulty (view (dev a')) = faulty (view (dev a))" .
    with True i step show ?thesis
      by (intro exI [of _ FISH_ERR_IO] exI [of _ a'] exI [of _ i]) (auto simp del: load_nodes.simps)
  next
    case False
    then have "\<not> faulty (view (dev a)) (unat (2049 + of_nat i :: u32))" using addr by simp
    from ata.rd_good [OF a small Suc.prems(2) this] obtain a1 where
      r: "ata_read b (2049 + of_nat i) 1 sector a = Some (0, sector_bytes (view (dev a)) (2049 + i), a1)"
      and a1: "ata_good b view a1" "sector_bytes (view (dev a1)) = sector_bytes (view (dev a))"
      "faulty (view (dev a1)) = faulty (view (dev a))" unfolding addr .
    let ?x = "sector_bytes (view (dev a)) (2049 + i)"
    let ?dest = "take (512 * i) dest @ ?x @ drop (512 * i + 512) dest"
    have x: "length ?x = 512" using ata.sector_length [OF a] .
    have d: "length ?dest = 35840" "memcpy dest (512 * i) ?x 512 = Some ?dest"
      using x Suc.prems(3) i by (simp_all add: memcpy_sector)
    have "Suc i + n = 70" using Suc.prems(4) by simp
    from Suc.IH [OF a1(1) x d(1) this] obtain r a' k where
      k: "Suc i \<le> k" "k \<le> 70" "load_nodes b n (of_nat (Suc i)) (512 * Suc i) ?x ?dest a1 =
      Some (r, take (512 * Suc i) ?dest @
        concat (map (\<lambda>j. sector_bytes (view (dev a1)) (2049 + j)) [Suc i..<k]) @ drop (512 * k) ?dest, a')"
      "ata_good b view a'" "sector_bytes (view (dev a')) = sector_bytes (view (dev a1))"
      "faulty (view (dev a')) = faulty (view (dev a1))"
      "\<forall>j. Suc i \<le> j \<and> j < k \<longrightarrow> \<not> faulty (view (dev a1)) (2049 + j)"
      "r = FISH_OK \<and> k = 70 \<or> r = FISH_ERR_IO \<and> k < 70 \<and> faulty (view (dev a1)) (2049 + k)" by blast
    have "take (512 * Suc i) ?dest = take (512 * i) dest @ ?x"
      using x Suc.prems(3) i by simp
    moreover have "drop (512 * k) ?dest = drop (512 * k) dest"
      using x Suc.prems(3) i k(1) by (simp add: drop_append)
    moreover have "[i..<k] = i # [Suc i..<k]" using k(1) by (simp add: upt_conv_Cons)
    ultimately have "load_nodes b (Suc n) (of_nat i) (512 * i) sector dest a =
      Some (r, take (512 * i) dest @
        concat (map (\<lambda>j. sector_bytes (view (dev a)) (2049 + j)) [i..<k]) @ drop (512 * k) dest, a')"
      unfolding step using k(3) r d(2) a1(2) by (simp add: ac_simps del: load_nodes.simps)
    moreover have "\<forall>j. i \<le> j \<and> j < k \<longrightarrow> \<not> faulty (view (dev a)) (2049 + j)"
      using k(7) False a1(3) by (auto simp: le_less_Suc_eq not_less_eq_eq elim: le_SucE dest: le_neq_implies_less)
    ultimately show ?thesis using k a1 by (intro exI [of _ r] exI [of _ a'] exI [of _ k]) simp
  qed
qed

text \<open>The checks \<open>fish_load\<close> makes of a superblock, and of the current directory it names.\<close>

definition superblock_ok :: "bytes \<Rightarrow> bool" where
  "superblock_ok x \<longleftrightarrow> (let sb = superblock_of (take 20 x) in
     sb_magic sb = FISH_MAGIC \<and> sb_version sb = FISH_VERSION \<and>
     sb_node_count sb = of_nat FISH_MAX_NODES \<and> sb_node_size sb = of_nat NODE_SIZE)"

definition dir_index :: "node list \<Rightarrow> u32 \<Rightarrow> bool" where
  "dir_index ns c \<longleftrightarrow> unat c < 64 \<and> n_used (ns ! unat c) \<noteq> 0 \<and> n_is_dir (ns ! unat c) \<noteq> 0"

text \<open>The state after all sectors were read: the node array \<open>ns\<close> with the directory checked.\<close>

definition loaded :: "node list \<Rightarrow> u32 \<Rightarrow> int \<times> fish" where
  "loaded ns c = (if dir_index ns 0 then (FISH_OK, \<lparr>nodes = ns, current = if dir_index ns c then c else 0\<rparr>)
     else (FISH_ERR_FORMAT, the (fish_init \<lparr>nodes = ns, current = 0\<rparr>)))"

lemma load_finish_eq:
  assumes "length (nodes fs) = 64"
  shows "load_finish c fs a = Some (fst (loaded (nodes fs) c), snd (loaded (nodes fs) c), a)"
proof -
  have c: "c \<ge> of_nat FISH_MAX_NODES \<longleftrightarrow> \<not> unat c < 64"
    by (simp add: word_le_nat_alt FISH_MAX_NODES_def not_less)
  have bad: "(if c \<ge> of_nat FISH_MAX_NODES then Some True
      else do { n \<leftarrow> aget (nodes fs) (unat c); Some (n_used n = 0 \<or> n_is_dir n = 0) }) =
      Some (\<not> dir_index (nodes fs) c)"
    using assms unfolding c by (auto simp: dir_index_def aget_def)
  have root: "aget (nodes fs) 0 = Some (nodes fs ! 0)" using assms by (simp add: aget_def)
  have "load_finish c fs a = (let fs' = fs\<lparr>current := if dir_index (nodes fs) c then c else 0\<rparr> in
      if dir_index (nodes fs) 0 then Some (FISH_OK, fs', a)
      else do { fs \<leftarrow> fish_init fs'; Some (FISH_ERR_FORMAT, fs, a) })"
    unfolding load_finish_def bad bind.bind_lunit Let_def using root by (auto simp: dir_index_def)
  then show ?thesis by (cases fs) (auto simp: loaded_def fish_init_eq Let_def)
qed

lemma fish_load_cases:
  assumes a: "ata_good b view a" and fs: "fish_shape fs" and stack: "length stack = 512"
  defines "S \<equiv> sector_bytes (view (dev a))" and "F \<equiv> faulty (view (dev a))"
  shows "\<exists>r fs' a'. fish_load b stack fs a = Some (r, fs', a') \<and> ata_good b view a' \<and>
    same_media (view (dev a)) (view (dev a')) \<and>
    (if F 2048 then r = FISH_ERR_IO \<and> fs' = fs
     else if \<not> superblock_ok (S 2048) then r = FISH_ERR_FORMAT \<and> fs' = fs
     else if \<exists>k < 70. F (2049 + k)
     then r = FISH_ERR_IO \<and> (\<exists>k < 70. F (2049 + k) \<and> (\<forall>j < k. \<not> F (2049 + j)) \<and>
       fs' = fs\<lparr>nodes := nodes_of (concat (map (\<lambda>j. S (2049 + j)) [0..<k]) @
                  drop (512 * k) (nodes_bytes (nodes fs)))\<rparr>)
     else (r, fs') = loaded (nodes_of (concat (map (\<lambda>j. S (2049 + j)) [0..<70])))
                       (sb_current (superblock_of (take 20 (S 2048)))))"
proof -
  have media: "same_media h h'" if "sector_bytes h' = sector_bytes h" "faulty h' = faulty h" for h h'
  proof -
    have "sectors h' k = sectors h k" for k
      using words_of_bytes [of "sectors h' k"] words_of_bytes [of "sectors h k"] that(1)
      by (metis sector_bytes_def)
    with that(2) show ?thesis by (auto simp: same_media_def)
  qed
  have p: "ata_present a \<noteq> 0" using a by (simp add: ata_good_def ata_present_def)
  have lba: "unat FISH_START_LBA < 2 ^ 28" "unat FISH_START_LBA = 2048" by (simp_all add: FISH_START_LBA_def)
  show ?thesis
  proof (cases "F 2048")
    case True
    then have "faulty (view (dev a)) (unat FISH_START_LBA)" using lba by (simp add: F_def)
    from ata.rd_bad [OF a lba(1) stack this] obtain a' where
      "ata_read b FISH_START_LBA 1 stack a = Some (- 1, stack, a')" "ata_good b view a'"
      "sector_bytes (view (dev a')) = sector_bytes (view (dev a))"
      "faulty (view (dev a')) = faulty (view (dev a))" .
    with True p media show ?thesis
      by (intro exI [of _ FISH_ERR_IO] exI [of _ fs] exI [of _ a']) (simp add: fish_load_def)
  next
    case False
    then have "\<not> faulty (view (dev a)) (unat FISH_START_LBA)" using lba by (simp add: F_def)
    from ata.rd_good [OF a lba(1) stack this] obtain a1 where
      rd: "ata_read b FISH_START_LBA 1 stack a = Some (0, S 2048, a1)" and a1: "ata_good b view a1"
      "sector_bytes (view (dev a1)) = S" "faulty (view (dev a1)) = F"
      unfolding lba S_def F_def .
    show ?thesis
    proof (cases "superblock_ok (S 2048)")
      case bad: False
      with False p rd a1 media show ?thesis
        by (intro exI [of _ FISH_ERR_FORMAT] exI [of _ fs] exI [of _ a1])
           (auto simp: fish_load_def superblock_ok_def Let_def S_def F_def)
    next
      case sb: True
      let ?sb = "superblock_of (take 20 (S 2048))"
      have "length (S 2048) = 512" using ata.sector_length [OF a] by (simp add: S_def)
      from load_nodes_total [OF a1(1) this shape_bytes [OF fs], of 0 70] obtain r a' k where
        k: "k \<le> 70" "load_nodes b 70 0 0 (S 2048) (nodes_bytes (nodes fs)) a1 =
          Some (r, concat (map (\<lambda>j. S (2049 + j)) [0..<k]) @ drop (512 * k) (nodes_bytes (nodes fs)), a')"
        "ata_good b view a'" "sector_bytes (view (dev a')) = S" "faulty (view (dev a')) = F"
        "\<forall>j < k. \<not> F (2049 + j)"
        "r = FISH_OK \<and> k = 70 \<or> r = FISH_ERR_IO \<and> k < 70 \<and> F (2049 + k)"
        using a1 by auto
      let ?d = "concat (map (\<lambda>j. S (2049 + j)) [0..<k]) @ drop (512 * k) (nodes_bytes (nodes fs))"
      have load: "fish_load b stack fs a =
          (let fs = fs\<lparr>nodes := nodes_of ?d\<rparr> in
            if r \<noteq> FISH_OK then Some (r, fs, a')
            else Some (fst (loaded (nodes_of ?d) (sb_current ?sb)), snd (loaded (nodes_of ?d) (sb_current ?sb)), a'))"
      proof -
        have "length (nodes (fs\<lparr>nodes := nodes_of ?d\<rparr>)) = 64" by (simp add: nodes_of_def FISH_MAX_NODES_def)
        from load_finish_eq [OF this, of "sb_current ?sb" a'] show ?thesis
          using p rd sb k(2) by (simp add: fish_load_def superblock_ok_def Let_def disk_sizes)
      qed
      from k(7) show ?thesis
      proof
        assume ok: "r = FISH_OK \<and> k = 70"
        then have "\<not> (\<exists>k < 70. F (2049 + k))" using k(6) by auto
        moreover have "?d = concat (map (\<lambda>j. S (2049 + j)) [0..<70])"
          using ok shape_bytes [OF fs] by simp
        ultimately show ?thesis using load ok False sb k(3-5) media
          by (intro exI [of _ "fst (loaded (nodes_of ?d) (sb_current ?sb))"]
              exI [of _ "snd (loaded (nodes_of ?d) (sb_current ?sb))"] exI [of _ a'])
             (auto simp: S_def F_def)
      next
        assume io: "r = FISH_ERR_IO \<and> k < 70 \<and> F (2049 + k)"
        then have "fish_load b stack fs a = Some (FISH_ERR_IO, fs\<lparr>nodes := nodes_of ?d\<rparr>, a')"
          using load by (simp add: fish_codes Let_def)
        moreover have "same_media (view (dev a)) (view (dev a'))"
          using k(4,5) by (intro media) (simp_all add: S_def F_def)
        ultimately show ?thesis using io False sb k(3,6)
          by (intro exI [of _ FISH_ERR_IO] exI [of _ "fs\<lparr>nodes := nodes_of ?d\<rparr>"] exI [of _ a']) auto
      qed
    qed
  qed
qed

text \<open>A disk that holds the image of a filesystem.\<close>

definition holds_image :: "(nat \<Rightarrow> bytes) \<Rightarrow> fish \<Rightarrow> bool" where
  "holds_image S g \<longleftrightarrow> (\<forall>i < 71. S (2048 + i) = fish_image g ! i)"

lemma superblock_ok_image: "superblock_ok (superblock_bytes (fish_superblock g) @ xs)"
  "superblock_of (take 20 (superblock_bytes (fish_superblock g) @ xs)) = fish_superblock g"
  using superblock_of_bytes [of "fish_superblock g" "[]"]
  by (simp_all add: superblock_ok_def fish_superblock_def)

lemma holds_image_contents:
  assumes "holds_image S g" "fish_shape g"
  shows "S 2048 = superblock_bytes (fish_superblock g) @ replicate 492 0"
    and "nodes_of (concat (map (\<lambda>j. S (2049 + j)) [0..<70])) = nodes g"
proof -
  show "S 2048 = superblock_bytes (fish_superblock g) @ replicate 492 0"
    using assms(1) by (auto simp: holds_image_def fish_image_def dest: spec [of _ 0])
  have "S (2049 + j) = sector_cut (nodes_bytes (nodes g)) j" if "j < 70" for j
  proof -
    have e: "2049 + j = 2048 + Suc j" by simp
    have "S (2048 + Suc j) = fish_image g ! Suc j"
      using assms(1) that unfolding holds_image_def by (elim allE [of _ "Suc j"]) (simp only: Suc_less_eq2, simp)
    with that show ?thesis unfolding e by (simp add: fish_image_def)
  qed
  then have m: "map (\<lambda>j. S (2049 + j)) [0..<70] = map (sector_cut (nodes_bytes (nodes g))) [0..<70]" by simp
  show "nodes_of (concat (map (\<lambda>j. S (2049 + j)) [0..<70])) = nodes g"
    unfolding m using concat_pieces [of "nodes_bytes (nodes g)" 512 70] shape_bytes [OF assms(2)] assms(2)
    by (simp add: sector_cut_def [abs_def] fish_shape_def nodes_of_bytes)
qed

lemma fish_load_image:
  assumes a: "ata_good b view a" and fs: "fish_shape fs" and stack: "length stack = 512"
    and g: "holds_image (sector_bytes (view (dev a))) g" "fish_shape g" "dir_index (nodes g) 0"
    and ok: "\<forall>i < 71. \<not> faulty (view (dev a)) (2048 + i)"
  shows "\<exists>a'. fish_load b stack fs a =
      Some (FISH_OK, \<lparr>nodes = nodes g, current = if dir_index (nodes g) (current g) then current g else 0\<rparr>, a') \<and>
    ata_good b view a' \<and> same_media (view (dev a)) (view (dev a'))"
proof -
  let ?S = "sector_bytes (view (dev a))" and ?F = "faulty (view (dev a))"
  note c = holds_image_contents [OF g(1,2)]
  have "\<not> ?F 2048" using ok by (auto dest: spec [of _ 0])
  moreover have "\<not> (\<exists>k < 70. ?F (2049 + k))"
  proof
    assume "\<exists>k < 70. ?F (2049 + k)"
    then obtain k where "k < 70" "?F (2049 + k)" by (elim exE conjE) (rule that)
    have e: "2049 + k = 2048 + Suc k" by simp
    have "Suc k < 71" using \<open>k < 70\<close> by simp
    with ok have "\<not> ?F (2048 + Suc k)" by blast
    with \<open>?F (2049 + k)\<close> show False unfolding e by contradiction
  qed
  moreover have "superblock_ok (?S 2048)" "superblock_of (take 20 (?S 2048)) = fish_superblock g"
    using superblock_ok_image by (simp_all only: c(1))
  ultimately obtain r fs' a' where "fish_load b stack fs a = Some (r, fs', a')" "ata_good b view a'"
    "same_media (view (dev a)) (view (dev a'))" "(r, fs') = loaded (nodes g) (current g)"
    using fish_load_cases [OF a fs stack] c(2) by (auto simp: fish_superblock_def)
  with g(3) show ?thesis by (auto simp: loaded_def)
qed

end
