(* ===== verification/File_System.thy ===== *)
theory File_System
  imports Tree_Spec
begin

text \<open>
  The interface of a filesystem for its clients (the shell, \<^verbatim>\<open>kernel/user.c\<close>): calls that may
  change the state, reading a file, and a view of the state as a volume. The laws are that
  every call and every read do to the view what the specification says. The client lemmas are
  proved here once; \<open>Fish_Props\<close> interprets the locale on \<^verbatim>\<open>fs/fish.c\<close>.
\<close>

definition call_ok :: "call \<Rightarrow> bool" where
  "call_ok c \<longleftrightarrow> list_all (\<lambda>s. terminated s \<and> length s < 4294966784) (strings c)"

text \<open>A run: the code of each call, and the final state.\<close>

fun run_calls :: "(call \<Rightarrow> 's \<Rightarrow> (int \<times> 's) option) \<Rightarrow> call list \<Rightarrow> 's \<Rightarrow> (int list \<times> 's) option" where
  "run_calls step [] s = Some ([], s)"
| "run_calls step (c # cs) s = do {
     (r, s) \<leftarrow> step c s;
     (rs, s) \<leftarrow> run_calls step cs s;
     Some (r # rs, s) }"

fun spec_run :: "call list \<Rightarrow> volume \<Rightarrow> int list \<times> volume" where
  "spec_run [] v = ([], v)"
| "spec_run (c # cs) v =
     (let (r, v) = spec_call c v; (rs, v) = spec_run cs v in (r # rs, v))"

lemma spec_update_OK:
  "spec_update f x v = (FISH_OK, v') \<Longrightarrow>
   \<exists>old. tree v (cwd v @ [x]) = Some (File old) \<and> length (f old) \<le> FISH_FILE_MAX \<and>
     v' = ((tree v)(cwd v @ [x] \<mapsto> File (f old)), cwd v)"
  by (cases v) (auto simp: spec_update_def fish_codes split: option.splits entry.splits if_splits)

lemma spec_call_error: "spec_call c v = (r, v') \<Longrightarrow> r \<noteq> FISH_OK \<Longrightarrow> v' = v"
  by (cases v; cases c)
     (auto simp: spec_make_def spec_chdir_def spec_remove_def spec_update_def
       split: option.splits entry.splits if_splits)

lemma spec_call_code: "spec_call c v = (r, v') \<Longrightarrow> - 11 < r \<and> r \<le> 0"
  by (cases v; cases c)
     (auto simp: spec_make_def spec_chdir_def spec_remove_def spec_update_def fish_codes
       split: option.splits entry.splits if_splits)

text \<open>A call touches at most the entry it names, in the current directory.\<close>

lemma spec_call_frame:
  assumes "spec_call c v = (r, v')" "path \<noteq> cwd v @ [text_of (hd (strings c))]"
  shows "tree v' path = tree v path"
  using assms
  by (cases v; cases c)
     (auto simp: spec_make_def spec_chdir_def spec_remove_def spec_update_def
       split: option.splits entry.splits if_splits)

locale file_system =
  fixes step :: "call \<Rightarrow> 's \<Rightarrow> (int \<times> 's) option"
    and rd :: "bytes \<Rightarrow> 's \<Rightarrow> (u32 \<times> bytes) option option"
    and good :: "'s \<Rightarrow> bool"
    and view :: "'s \<Rightarrow> volume"
  assumes step_law: "good s \<Longrightarrow> call_ok c \<Longrightarrow>
      \<exists>r s'. step c s = Some (r, s') \<and> good s' \<and> spec_call c (view s) = (r, view s')"
    and read_law: "good s \<Longrightarrow> terminated x \<Longrightarrow>
      \<exists>r. rd x s = Some r \<and> map_option (\<lambda>(k, d). take (unat k) d) r = spec_read (text_of x) (view s) \<and>
        (\<forall>k d. r = Some (k, d) \<longrightarrow> unat k \<le> length d)"
begin

lemma step_total:
  assumes "good s" "call_ok c"
  obtains r s' where "step c s = Some (r, s')" "good s'" "spec_call c (view s) = (r, view s')"
  using step_law [OF assms] by blast

lemma run_refines:
  "good s \<Longrightarrow> list_all call_ok cs \<Longrightarrow>
   \<exists>rs s'. run_calls step cs s = Some (rs, s') \<and> good s' \<and> spec_run cs (view s) = (rs, view s')"
proof (induction cs arbitrary: s)
  case Nil
  then show ?case by simp
next
  case (Cons c cs)
  then obtain r s' where c: "step c s = Some (r, s')" "good s'" "spec_call c (view s) = (r, view s')"
    by (auto elim: step_total)
  from Cons.IH [OF c(2)] Cons.prems obtain rs s'' where
    "run_calls step cs s' = Some (rs, s'')" "good s''" "spec_run cs (view s') = (rs, view s'')" by auto
  with c show ?case by simp
qed

lemma failed_call_harmless:
  "good s \<Longrightarrow> call_ok c \<Longrightarrow> step c s = Some (r, s') \<Longrightarrow> r \<noteq> FISH_OK \<Longrightarrow> view s' = view s"
  by (erule (1) step_total) (auto dest: spec_call_error)

lemma read_content:
  assumes "good s" "terminated x" "tree (view s) (cwd (view s) @ [text_of x]) = Some (File t)"
  shows "\<exists>k d. rd x s = Some (Some (k, d)) \<and> take (unat k) d = t \<and> unat k \<le> length d"
  using read_law [OF assms(1,2)] assms(3) by (auto simp: spec_read_def split: prod.splits)

lemma read_missing:
  assumes "good s" "terminated x" "\<nexists>t. tree (view s) (cwd (view s) @ [text_of x]) = Some (File t)"
  shows "rd x s = Some None"
proof -
  have "spec_read (text_of x) (view s) = None"
    using assms(3) by (cases "view s") (auto simp: spec_read_def split: option.splits entry.splits)
  with read_law [OF assms(1,2)] show ?thesis by auto
qed

lemma read_after_write:
  assumes s: "good s" and c: "call_ok (Write x t)" and w: "step (Write x t) s = Some (FISH_OK, s')"
  shows "\<exists>k d. rd x s' = Some (Some (k, d)) \<and> take (unat k) d = text_of t \<and> unat k \<le> length d"
proof -
  from step_law [OF s c] w have s': "good s'"
    "spec_update (\<lambda>_. text_of t) (text_of x) (view s) = (FISH_OK, view s')" by auto
  from spec_update_OK [OF s'(2)] have "tree (view s') (cwd (view s') @ [text_of x]) = Some (File (text_of t))"
    by auto
  with s'(1) c show ?thesis by (intro read_content) (auto simp: call_ok_def)
qed

lemma read_after_append:
  assumes s: "good s" and c: "call_ok (Append x t)" and w: "step (Append x t) s = Some (FISH_OK, s')"
  shows "\<exists>old k d. tree (view s) (cwd (view s) @ [text_of x]) = Some (File old) \<and>
    rd x s' = Some (Some (k, d)) \<and> take (unat k) d = old @ text_of t \<and> unat k \<le> length d"
proof -
  from step_law [OF s c] w have s': "good s'"
    "spec_update (\<lambda>old. old @ text_of t) (text_of x) (view s) = (FISH_OK, view s')" by auto
  from spec_update_OK [OF s'(2)] obtain old where
    "tree (view s) (cwd (view s) @ [text_of x]) = Some (File old)"
    "tree (view s') (cwd (view s') @ [text_of x]) = Some (File (old @ text_of t))"
    by auto
  moreover from this(2) s'(1) c have "\<exists>k d. rd x s' = Some (Some (k, d)) \<and>
      take (unat k) d = old @ text_of t \<and> unat k \<le> length d"
    by (intro read_content) (auto simp: call_ok_def)
  ultimately show ?thesis by blast
qed

text \<open>Another file of the directory reads the same after a write, an append, a creation or a removal.\<close>

lemma read_other:
  assumes s: "good s" and c: "call_ok c" and w: "step c s = Some (r, s')"
    and stay: "cwd (view s') = cwd (view s)"
    and x: "terminated x" "text_of x \<noteq> text_of (hd (strings c))"
  shows "map_option (map_option (\<lambda>(k, d). take (unat k) d)) (rd x s') =
    map_option (map_option (\<lambda>(k, d). take (unat k) d)) (rd x s)"
proof -
  from step_law [OF s c] w have s': "good s'" "spec_call c (view s) = (r, view s')" by auto
  have "tree (view s') (cwd (view s) @ [text_of x]) = tree (view s) (cwd (view s) @ [text_of x])"
    using spec_call_frame [OF s'(2)] x(2) by simp
  then have "spec_read (text_of x) (view s') = spec_read (text_of x) (view s)"
    using stay by (simp add: spec_read_def case_prod_beta)
  with read_law [OF s x(1)] read_law [OF s'(1) x(1)] show ?thesis by auto
qed

end

text \<open>
  Directory handles: a client may note where it is, make calls that remove nothing, and come back.
\<close>

fun removes :: "call \<Rightarrow> bool" where
  "removes (Remove s) = True"
| "removes _ = False"

locale directory_handles = file_system step rd good view
  for step :: "call \<Rightarrow> 's \<Rightarrow> (int \<times> 's) option" and rd good view +
  fixes take_handle :: "'s \<Rightarrow> int"
    and return_to :: "int \<Rightarrow> 's \<Rightarrow> 's option"
  assumes return_law: "good s \<Longrightarrow> list_all call_ok cs \<Longrightarrow> \<not> list_ex removes cs \<Longrightarrow>
      run_calls step cs s = Some (rs, s') \<Longrightarrow>
      \<exists>s''. return_to (take_handle s) s' = Some s'' \<and> good s'' \<and> view s'' = (tree (view s'), cwd (view s))"
begin

text \<open>An excursion: calls elsewhere, then back. It is the run, seen from where one was.\<close>

lemma excursion:
  assumes "good s" "list_all call_ok cs" "\<not> list_ex removes cs"
  obtains rs s' s'' where "run_calls step cs s = Some (rs, s')" "good s'" "spec_run cs (view s) = (rs, view s')"
    "return_to (take_handle s) s' = Some s''" "good s''" "view s'' = (tree (view s'), cwd (view s))"
  using run_refines [OF assms(1,2)] return_law [OF assms] by metis

end

end
