(* ===== verification/Fish_Props.thy ===== *)
theory Fish_Props
  imports Fish_Ops File_System
begin

text \<open>
  The properties of \<^verbatim>\<open>fs/fish.c\<close> in memory: it refines the specification call by call and run
  by run, and what its clients rely on.
\<close>

text \<open>The operations of \<^verbatim>\<open>fs/fish.c\<close> as a step on a call.\<close>

fun fish_call :: "call \<Rightarrow> fish \<Rightarrow> (int \<times> fish) option" where
  "fish_call (Mkdir s) fs = fish_mkdir (Some s) fs"
| "fish_call (Create s) fs = fish_create (Some s) fs"
| "fish_call (Chdir s) fs = fish_chdir (Some s) fs"
| "fish_call (Remove s) fs = fish_remove s fs"
| "fish_call (Write s s') fs = fish_write s s' fs"
| "fish_call (Append s s') fs = fish_append s s' fs"

lemma fish_make_refines:
  assumes "fish_ok fs" "terminated s"
  shows "\<exists>r fs'. fish_mkdir (Some s) fs = Some (r, fs') \<and> fish_ok fs' \<and>
      spec_make Directory (text_of s) (volume_of fs) = (r, volume_of fs')"
    and "\<exists>r fs'. fish_create (Some s) fs = Some (r, fs') \<and> fish_ok fs' \<and>
      spec_make (File []) (text_of s) (volume_of fs) = (r, volume_of fs')"
  using make_node_refines [OF assms, of 1] make_node_refines [OF assms, of 0]
  by (fastforce simp: fish_mkdir_def fish_create_def)+

lemma fish_call_refines:
  "fish_ok fs \<Longrightarrow> call_ok c \<Longrightarrow>
   \<exists>r fs'. fish_call c fs = Some (r, fs') \<and> fish_ok fs' \<and>
     spec_call c (volume_of fs) = (r, volume_of fs')"
  by (cases c) (simp_all add: call_ok_def fish_make_refines fish_chdir_refines fish_remove_refines
    fish_write_refines fish_append_refines)

interpretation fish: file_system fish_call fish_read fish_ok volume_of
  by unfold_locales (simp_all add: fish_call_refines fish_read_refines)

text \<open>Calls that remove nothing leave every node in use where it is.\<close>

definition keeps :: "fish \<Rightarrow> fish \<Rightarrow> bool" where
  "keeps fs fs' \<longleftrightarrow> length (nodes fs') = length (nodes fs) \<and> (\<forall>i. used_at (nodes fs) i \<longrightarrow> used_at (nodes fs') i \<and>
     n_name (nodes fs' ! i) = n_name (nodes fs ! i) \<and> n_parent (nodes fs' ! i) = n_parent (nodes fs ! i) \<and>
     n_is_dir (nodes fs' ! i) = n_is_dir (nodes fs ! i))"

lemma keeps_refl [simp]: "keeps fs fs"
  by (simp add: keeps_def)

lemma keeps_trans: "keeps a b \<Longrightarrow> keeps b c \<Longrightarrow> keeps a c"
  by (simp add: keeps_def)

lemma keeps_current [simp]: "keeps fs (fs'\<lparr>current := c\<rparr>) = keeps fs fs'"
  by (simp add: keeps_def)

lemma keeps_set_node:
  "set_node i f fs = Some fs' \<Longrightarrow>
   (n_used (nodes fs ! i) \<noteq> 0 \<longrightarrow> n_used (f (nodes fs ! i)) \<noteq> 0 \<and> n_name (f (nodes fs ! i)) = n_name (nodes fs ! i) \<and>
     n_parent (f (nodes fs ! i)) = n_parent (nodes fs ! i) \<and> n_is_dir (f (nodes fs ! i)) = n_is_dir (nodes fs ! i)) \<Longrightarrow>
   keeps fs fs'"
  by (auto simp: set_node_def keeps_def used_at_def nth_list_update
      split: bind_split_asm if_splits dest!: aget_SomeD aset_SomeD)

lemma keeps_located: "keeps fs fs' \<Longrightarrow> located (nodes fs) i d \<Longrightarrow> located (nodes fs') i d"
  by (erule located.induct) (auto simp: keeps_def child_def)

lemma make_node_keeps:
  assumes ok: "fish_ok fs" and m: "make_node name isd fs = Some (r, fs')"
  shows "keeps fs fs'"
proof (cases "fs' = fs")
  case False
  with m obtain w f where f: "set_node (nat (allocate fs)) f fs = Some fs'" "0 \<le> allocate fs"
    by (auto simp: make_node_def Let_def split: bind_split_asm if_splits)
  have "n_used (nodes fs ! nat (allocate fs)) = 0"
    using allocate_cases [OF fish_nodes [OF ok]] f(2) by auto
  with f(1) show ?thesis by (auto intro: keeps_set_node)
qed simp

lemma fish_call_keeps:
  assumes "fish_ok fs" "fish_call c fs = Some (r, fs')" "\<not> removes c"
  shows "keeps fs fs'"
  using assms make_node_keeps [OF assms(1)]
  by (cases c) (auto simp: fish_mkdir_def fish_create_def fish_chdir_def fish_write_def fish_append_def
      intro: keeps_set_node split: bind_split_asm if_splits)

lemma run_calls_keeps:
  "fish_ok fs \<Longrightarrow> list_all call_ok cs \<Longrightarrow> \<not> list_ex removes cs \<Longrightarrow> run_calls fish_call cs fs = Some (rs, fs') \<Longrightarrow>
   keeps fs fs'"
proof (induction cs arbitrary: fs rs)
  case (Cons c cs)
  then obtain r fs1 rs1 where c: "fish_call c fs = Some (r, fs1)" "run_calls fish_call cs fs1 = Some (rs1, fs')"
    by (auto split: bind_split_asm)
  moreover have "fish_ok fs1" using fish_call_refines [of fs c] Cons.prems c(1) by auto
  ultimately show ?case using Cons.IH [of fs1 rs1] Cons.prems fish_call_keeps [of fs c r fs1]
    by (auto intro: keeps_trans)
qed simp

interpretation fish_handles: directory_handles fish_call fish_read fish_ok volume_of fish_save_cwd fish_restore_cwd
proof unfold_locales
  fix fs cs rs fs'
  assume ok: "fish_ok fs" and cs: "list_all call_ok cs" "\<not> list_ex removes cs"
    and run: "run_calls fish_call cs fs = Some (rs, fs')"
  from fish.run_refines [OF ok cs(1)] run have ok': "fish_ok fs'" by auto
  have k: "keeps fs fs'" by (rule run_calls_keeps [OF ok cs run])
  have "n_is_dir (nodes fs' ! unat (current fs)) \<noteq> 0"
    using k fish_current_used [OF ok] fish_current_dir [OF ok] by (simp add: keeps_def)
  from fish_restore_saved [OF ok ok' keeps_located [OF k located_cwd [OF ok]] this]
  show "\<exists>fs''. fish_restore_cwd (fish_save_cwd fs) fs' = Some fs'' \<and> fish_ok fs'' \<and>
      volume_of fs'' = (tree (volume_of fs'), cwd (volume_of fs))"
    by (auto simp: volume_of_def)
qed

text \<open>A sequence of calls on a fresh volume, for the witnesses.\<close>

definition demo_calls :: "call list" where
  "demo_calls = [Mkdir (literal ''notes''), Chdir (literal ''notes''), Create (literal ''a.txt''),
     Write (literal ''a.txt'') (literal ''hello''), Append (literal ''a.txt'') (literal '' world'')]"

lemma demo_calls_ok: "list_all call_ok demo_calls"
  by (simp add: demo_calls_def call_ok_def literal_def)

lemma demo_calls_spec:
  "spec_run demo_calls empty_volume = ([0, 0, 0, 0, 0],
     ([[] \<mapsto> Directory, [bytes_of ''notes''] \<mapsto> Directory,
       [bytes_of ''notes'', bytes_of ''a.txt''] \<mapsto> File (bytes_of ''hello world'')],
      [bytes_of ''notes'']))"
  by (simp add: demo_calls_def empty_volume_def spec_make_def spec_chdir_def spec_update_def
      fish_codes fish_sizes text_of_literal legal_name_def blank_or_control_def)

definition demo_volume :: volume where
  "demo_volume = ([[] \<mapsto> Directory, [bytes_of ''notes''] \<mapsto> Directory,
      [bytes_of ''notes'', bytes_of ''a.txt''] \<mapsto> File (bytes_of ''hello world'')],
     [bytes_of ''notes''])"

lemma demo_state:
  "\<exists>fs0 fs. fish_init \<lparr>nodes = [], current = 0\<rparr> = Some fs0 \<and>
     run_calls fish_call demo_calls fs0 = Some ([0, 0, 0, 0, 0], fs) \<and> fish_ok fs \<and>
     volume_of fs = demo_volume"
proof -
  obtain fs0 where i: "fish_init \<lparr>nodes = [], current = 0\<rparr> = Some fs0" "fish_ok fs0"
    "volume_of fs0 = empty_volume" using fish_init_empty by blast
  from fish.run_refines [OF i(2) demo_calls_ok] i(3) demo_calls_spec obtain fs where
    "run_calls fish_call demo_calls fs0 = Some ([0, 0, 0, 0, 0], fs)" "fish_ok fs"
    "volume_of fs = demo_volume" by (auto simp: demo_volume_def)
  with i show ?thesis by blast
qed

text \<open>
  C5: Fish implements the specification. In a well-formed state, every call with C strings as
  arguments is free of undefined behaviour, keeps the state well formed, and returns the code
  and makes the volume that \<open>spec_call\<close> says: on success exactly the named entry changes, on
  each error nothing does.
\<close>

theorem fish_implements_tree:
  assumes "fish_ok fs" "call_ok c"
  shows "\<exists>r fs'. fish_call c fs = Some (r, fs') \<and> fish_ok fs' \<and>
    spec_call c (volume_of fs) = (r, volume_of fs') \<and>
    (r \<noteq> FISH_OK \<longrightarrow> volume_of fs' = volume_of fs) \<and>
    (\<forall>path. path \<noteq> cwd (volume_of fs) @ [text_of (hd (strings c))] \<longrightarrow>
       tree (volume_of fs') path = tree (volume_of fs) path)"
proof (rule fish.step_total [OF assms])
  fix r fs' assume c: "fish_call c fs = Some (r, fs')" "fish_ok fs'"
    "spec_call c (volume_of fs) = (r, volume_of fs')"
  with spec_call_error [OF c(3)] spec_call_frame [OF c(3)] show ?thesis by blast
qed

theorem fish_implements_tree_witness:
  "\<exists>fs fs'. fish_ok fs \<and> fish_call (Remove (literal ''a.txt'')) fs = Some (FISH_OK, fs') \<and>
     tree (volume_of fs) [bytes_of ''notes'', bytes_of ''a.txt''] \<noteq> None \<and>
     tree (volume_of fs') [bytes_of ''notes'', bytes_of ''a.txt''] = None"
proof -
  from demo_state obtain fs where fs: "fish_ok fs" "volume_of fs = demo_volume" by blast
  have c: "call_ok (Remove (literal ''a.txt''))" by (simp add: call_ok_def literal_def)
  from fish_implements_tree [OF fs(1) c] obtain r fs' where
    f: "fish_remove (literal ''a.txt'') fs = Some (r, fs')"
    "spec_remove (bytes_of ''a.txt'') demo_volume = (r, volume_of fs')"
    by (auto simp: fs(2) text_of_literal)
  have "spec_remove (bytes_of ''a.txt'') demo_volume =
      (FISH_OK, ((tree demo_volume)([bytes_of ''notes'', bytes_of ''a.txt''] := None), [bytes_of ''notes'']))"
    by (auto simp: demo_volume_def spec_remove_def)
  with f(2) have r: "r = FISH_OK"
    and v: "volume_of fs' = ((tree demo_volume)([bytes_of ''notes'', bytes_of ''a.txt''] := None), [bytes_of ''notes''])"
    by (simp_all only: prod.inject)
  have "r = FISH_OK \<and> tree (volume_of fs) [bytes_of ''notes'', bytes_of ''a.txt''] \<noteq> None \<and>
      tree (volume_of fs') [bytes_of ''notes'', bytes_of ''a.txt''] = None"
    by (simp add: r v fs(2)) (simp add: demo_volume_def)
  moreover from this f(1) have "fish_call (Remove (literal ''a.txt'')) fs = Some (FISH_OK, fs')"
    by (simp only: fish_call.simps)
  ultimately show ?thesis using fs(1) by blast
qed

text \<open>
  C10: no run of Fish goes wrong. From a fresh volume every sequence of calls, of any length
  and in any order, runs to its end without undefined behaviour; the codes are those of the
  specification, and the final state is well formed and stands for the specified volume.
\<close>

theorem fish_run_correct:
  assumes "list_all call_ok cs"
  shows "\<exists>fs0 rs fs'. fish_init fs = Some fs0 \<and> run_calls fish_call cs fs0 = Some (rs, fs') \<and>
    fish_ok fs' \<and> spec_run cs empty_volume = (rs, volume_of fs')"
proof -
  obtain fs0 where "fish_init fs = Some fs0" "fish_ok fs0" "volume_of fs0 = empty_volume"
    using fish_init_empty by blast
  with fish.run_refines [OF this(2) assms] show ?thesis by auto
qed

theorem fish_run_correct_witness:
  "\<exists>fs0 fs. fish_init \<lparr>nodes = [], current = 0\<rparr> = Some fs0 \<and>
     run_calls fish_call demo_calls fs0 = Some ([0, 0, 0, 0, 0], fs) \<and> volume_of fs = demo_volume"
  using fish_run_correct [OF demo_calls_ok, of "\<lparr>nodes = [], current = 0\<rparr>"] demo_calls_spec
  by (auto simp: demo_volume_def)

text \<open>
  C22: files hold what was written. After a successful \<open>fish_write\<close>, \<open>fish_read\<close> of the same
  name returns exactly the text; after a successful \<open>fish_append\<close>, the old content followed by
  the text; and the size returned never exceeds the array behind the pointer.
\<close>

theorem fish_read_your_writes:
  assumes "fish_ok fs" "terminated x" "terminated t" "length x < 4294966784" "length t < 4294966784"
  shows "(\<forall>fs'. fish_write x t fs = Some (FISH_OK, fs') \<longrightarrow>
      (\<exists>k d. fish_read x fs' = Some (Some (k, d)) \<and> take (unat k) d = text_of t \<and> unat k \<le> length d)) \<and>
    (\<forall>fs'. fish_append x t fs = Some (FISH_OK, fs') \<longrightarrow>
      (\<exists>old k d. tree (volume_of fs) (cwd (volume_of fs) @ [text_of x]) = Some (File old) \<and>
        fish_read x fs' = Some (Some (k, d)) \<and> take (unat k) d = old @ text_of t \<and> unat k \<le> length d))"
proof (intro conjI allI impI)
  have w: "call_ok (Write x t)" and a: "call_ok (Append x t)" using assms by (auto simp: call_ok_def)
  fix fs'
  show "\<exists>k d. fish_read x fs' = Some (Some (k, d)) \<and> take (unat k) d = text_of t \<and> unat k \<le> length d"
    if "fish_write x t fs = Some (FISH_OK, fs')"
    using fish.read_after_write [OF assms(1) w] that by simp
  show "\<exists>old k d. tree (volume_of fs) (cwd (volume_of fs) @ [text_of x]) = Some (File old) \<and>
      fish_read x fs' = Some (Some (k, d)) \<and> take (unat k) d = old @ text_of t \<and> unat k \<le> length d"
    if "fish_append x t fs = Some (FISH_OK, fs')"
    using fish.read_after_append [OF assms(1) a] that by simp
qed

theorem fish_read_your_writes_witness:
  "\<exists>fs fs' k d. fish_append (literal ''a.txt'') (literal ''!'') fs = Some (FISH_OK, fs') \<and>
     fish_read (literal ''a.txt'') fs' = Some (Some (k, d)) \<and> take (unat k) d = bytes_of ''hello world!''"
proof -
  let ?x = "literal ''a.txt''" and ?t = "literal ''!''"
  from demo_state obtain fs where fs: "fish_ok fs" "volume_of fs = demo_volume" by blast
  have c: "call_ok (Append ?x ?t)" by (simp add: call_ok_def literal_def)
  have "spec_call (Append ?x ?t) demo_volume = (FISH_OK, snd (spec_call (Append ?x ?t) demo_volume))"
    by (simp add: demo_volume_def spec_update_def text_of_literal fish_sizes)
  then obtain fs' where a: "fish_append ?x ?t fs = Some (FISH_OK, fs')"
    using fish.step_law [OF fs(1) c] fs(2) by (metis fish_call.simps(6) prod.inject)
  have "\<exists>old k d. tree (volume_of fs) (cwd (volume_of fs) @ [text_of ?x]) = Some (File old) \<and>
      fish_read ?x fs' = Some (Some (k, d)) \<and> take (unat k) d = old @ text_of ?t \<and> unat k \<le> length d"
    using fish_read_your_writes [OF fs(1), of ?x ?t] a by (simp add: literal_def)
  with fs(2) a show ?thesis by (fastforce simp: demo_volume_def text_of_literal)
qed

text \<open>A list of what \<open>fish_next\<close> hands out is the listing of the current directory.\<close>

definition lists :: "fish \<Rightarrow> (bytes \<times> u32 \<times> u32) list \<Rightarrow> bool" where
  "lists fs es \<longleftrightarrow> distinct (map (\<lambda>(nm, _). text_of nm) es) \<and>
    (\<forall>x. x \<in> set (map (\<lambda>(nm, _). text_of nm) es) \<longleftrightarrow> tree (volume_of fs) (cwd (volume_of fs) @ [x]) \<noteq> None) \<and>
    list_all (\<lambda>(nm, dir, sz). terminated nm \<and>
       (case tree (volume_of fs) (cwd (volume_of fs) @ [text_of nm]) of
          Some Directory \<Rightarrow> dir \<noteq> 0 | Some (File t) \<Rightarrow> dir = 0 \<and> unat sz = length t | None \<Rightarrow> False)) es"

lemma fish_listing:
  assumes "fish_ok fs"
  shows "\<exists>es. list_loop 65 fish_first fs = Some es \<and> lists fs es"
proof -
  note n = fish_nodes [OF assms] and d = located_cwd [OF assms]
  let ?ks = "kids_from 0 fs" and ?nm = "\<lambda>i. text_of (n_name (nodes fs ! i))"
  let ?p = "unat (current fs)"
  have "list_loop 65 fish_first fs = Some (map (\<lambda>i. listed (nodes fs ! i)) ?ks)"
    using list_loop_kids [of 0 fs 65] kids_length [of 0 fs] fish_length [OF assms]
    by (simp add: fish_first_def)
  moreover have "distinct (map ?nm ?ks)"
    using child_unique [OF n] kids_child [OF assms]
    by (auto simp: distinct_map inj_on_def kids_from_def)
  moreover have "x \<in> ?nm ` set ?ks \<longleftrightarrow> tree (volume_of fs) (cwd_of fs @ [x]) \<noteq> None" for x
    using kids_child [OF assms]
    by (auto simp: volume_of_def tree_child [OF n d] lookup_iff [OF n] child_def image_iff)
  moreover have "list_all (\<lambda>i. terminated (n_name (nodes fs ! i)) \<and>
      (case tree_of (nodes fs) (cwd_of fs @ [?nm i]) of
         Some Directory \<Rightarrow> n_is_dir (nodes fs ! i) \<noteq> 0
       | Some (File t) \<Rightarrow> n_is_dir (nodes fs ! i) = 0 \<and> unat (n_size (nodes fs ! i)) = length t
       | None \<Rightarrow> False)) ?ks"
    unfolding list_all_iff
  proof
    fix i assume "i \<in> set ?ks"
    then have c: "child (nodes fs) ?p i (?nm i)" using kids_child [OF assms] by simp
    then have "used_at (nodes fs) i" "node_ok (nodes fs ! i)"
      using node_at [OF n] nodes_length [OF n] by (auto simp: child_def used_at_def)
    moreover have "tree_of (nodes fs) (cwd_of fs @ [?nm i]) = Some (entry_of (nodes fs ! i))"
      using tree_of_located [OF n below [OF d c]] .
    ultimately show "terminated (n_name (nodes fs ! i)) \<and>
      (case tree_of (nodes fs) (cwd_of fs @ [?nm i]) of
         Some Directory \<Rightarrow> n_is_dir (nodes fs ! i) \<noteq> 0
       | Some (File t) \<Rightarrow> n_is_dir (nodes fs ! i) = 0 \<and> unat (n_size (nodes fs ! i)) = length t
       | None \<Rightarrow> False)"
      by (auto simp: node_ok_def used_at_def entry_of_def)
  qed
  ultimately show ?thesis
    by (simp add: lists_def listed_def comp_def list.pred_map volume_of_def image_image)
qed

text \<open>
  C23: a listing is complete. The loop over \<open>fish_next\<close> ends within 65 calls; it hands out every
  entry of the current directory, each exactly once and nothing else, with its kind and, for a
  file, the length of its content.
\<close>

theorem fish_list_complete:
  assumes "fish_ok fs"
  shows "\<exists>es. list_loop 65 fish_first fs = Some es \<and> distinct (map (\<lambda>(nm, _). text_of nm) es) \<and>
    (\<forall>x. x \<in> set (map (\<lambda>(nm, _). text_of nm) es) \<longleftrightarrow>
       tree (volume_of fs) (cwd (volume_of fs) @ [x]) \<noteq> None) \<and>
    list_all (\<lambda>(nm, dir, sz). terminated nm \<and>
       (case tree (volume_of fs) (cwd (volume_of fs) @ [text_of nm]) of
          Some Directory \<Rightarrow> dir \<noteq> 0 | Some (File t) \<Rightarrow> dir = 0 \<and> unat sz = length t | None \<Rightarrow> False)) es"
  using fish_listing [OF assms] unfolding lists_def .

theorem fish_list_complete_witness:
  "\<exists>fs es. volume_of fs = demo_volume \<and> list_loop 65 fish_first fs = Some es \<and>
     bytes_of ''a.txt'' \<in> set (map (\<lambda>(nm, _). text_of nm) es)"
proof -
  from demo_state obtain fs where fs: "fish_ok fs" "volume_of fs = demo_volume" by blast
  from fish_list_complete [OF fs(1)] obtain es where "list_loop 65 fish_first fs = Some es"
    "\<forall>x. x \<in> set (map (\<lambda>(nm, _). text_of nm) es) \<longleftrightarrow>
       tree (volume_of fs) (cwd (volume_of fs) @ [x]) \<noteq> None" by blast
  moreover have "tree (volume_of fs) (cwd (volume_of fs) @ [bytes_of ''a.txt'']) \<noteq> None"
    by (simp add: fs(2) demo_volume_def)
  ultimately show ?thesis using fs(2) by blast
qed

text \<open>
  C36: the prompt's path. \<open>fish_path\<close> returns for every buffer at least as long as the size
  passed; the string in it is the path of the current directory, cut to the size with its
  terminator, and the buffer beyond the size is untouched.
\<close>

theorem fish_path_correct:
  assumes "fish_ok fs" "cap \<le> length buffer" "0 < cap"
  shows "\<exists>b. fish_path buffer cap fs = Some b \<and> length b = length buffer \<and> terminated b \<and>
    text_of b = take (cap - 1) (path_text (cwd (volume_of fs))) \<and> drop cap b = drop cap buffer"
  using assms by (rule fish_path_refines)

theorem fish_path_correct_witness:
  "\<exists>fs b. fish_ok fs \<and> fish_path (replicate 8 0x55) 5 fs = Some b \<and> text_of b = bytes_of ''/not''"
proof -
  from demo_state obtain fs where fs: "fish_ok fs" "volume_of fs = demo_volume" by blast
  have "\<exists>b. fish_path (replicate 8 0x55) 5 fs = Some b \<and> length b = length (replicate 8 (0x55 :: u8)) \<and>
      terminated b \<and> text_of b = take (5 - 1) (path_text (cwd (volume_of fs))) \<and>
      drop 5 b = drop 5 (replicate 8 0x55)"
    by (rule fish_path_correct [OF fs(1)]) simp_all
  then show ?thesis using fs by (auto simp: demo_volume_def path_text_def)
qed

text \<open>
  coming back. A directory handle taken by \<open>fish_save_cwd\<close>, restored after any run of
  other calls, always leaves Fish in a well-formed state whose current directory exists and is
  a directory, and changes no entry; restored at once, it is the directory it was taken in.
\<close>

theorem fish_cwd_handles:
  assumes "fish_ok fs" "list_all call_ok cs"
  shows "\<exists>rs fs' fs''. run_calls fish_call cs fs = Some (rs, fs') \<and>
    fish_restore_cwd (fish_save_cwd fs) fs' = Some fs'' \<and> fish_ok fs'' \<and>
    tree (volume_of fs'') = tree (volume_of fs') \<and>
    tree (volume_of fs'') (cwd (volume_of fs'')) = Some Directory \<and>
    (cs = [] \<longrightarrow> volume_of fs'' = volume_of fs)"
proof -
  from fish.run_refines [OF assms] obtain rs fs' where
    r: "run_calls fish_call cs fs = Some (rs, fs')" "fish_ok fs'" by blast
  from fish_restore_cwd_cases [OF r(2)] obtain fs'' where
    f: "fish_restore_cwd (fish_save_cwd fs) fs' = Some fs''" "fish_ok fs''"
    "tree (volume_of fs'') = tree (volume_of fs')"
    "tree (volume_of fs') (cwd (volume_of fs'')) = Some Directory" by blast
  have "volume_of fs'' = volume_of fs" if "cs = []"
    using that r f(1) fish_restore_saved [OF assms(1) assms(1) located_cwd [OF assms(1)]
      fish_current_dir [OF assms(1)]] by (auto simp: volume_of_def)
  with r f show ?thesis by metis
qed

theorem fish_cwd_handles_witness:
  "\<exists>fs rs fs' fs''. volume_of fs = demo_volume \<and>
     run_calls fish_call [Chdir (literal ''/''), Remove (literal ''notes'')] fs = Some (rs, fs') \<and>
     fish_restore_cwd (fish_save_cwd fs) fs' = Some fs'' \<and>
     tree (volume_of fs'') (cwd (volume_of fs'')) = Some Directory"
proof -
  from demo_state obtain fs where fs: "fish_ok fs" "volume_of fs = demo_volume" by blast
  have "list_all call_ok [Chdir (literal ''/''), Remove (literal ''notes'')]"
    by (simp add: call_ok_def literal_def)
  from fish_cwd_handles [OF fs(1) this] fs(2) show ?thesis by metis
qed

end
