(* ===== verification/Ata_Props.thy ===== *)
theory Ata_Props
  imports Ata_Drive
begin

text \<open>
  The properties of \<^verbatim>\<open>drivers/ata.c\<close>: what it reads and writes on a drive that follows the
  protocol, what it reports for faulty sectors, missing and stuck drives.
\<close>

subsection \<open>Finding the drive\<close>

lemma bare_outb: "outb bare_bus p v h = drive_out p v h"
  by (simp add: outb_def bare_bus_def)

lemma registers_cleared:
  assumes "\<not> unheard h"
  shows "outb bare_bus ATA_LBA_HIGH 0 (outb bare_bus ATA_LBA_MID 0 (outb bare_bus ATA_LBA_LOW 0
     (outb bare_bus ATA_SECCOUNT 0 h))) = h\<lparr>r_count := 0, r_low := 0, r_mid := 0, r_high := 0\<rparr>"
proof -
  have u: "\<not> unheard (h\<lparr>r_count := 0\<rparr>)" "\<not> unheard (h\<lparr>r_count := 0, r_low := 0\<rparr>)"
    "\<not> unheard (h\<lparr>r_count := 0, r_low := 0, r_mid := 0\<rparr>)"
    using assms by (simp_all add: unheard_def)
  show ?thesis using assms u by (simp add: bare_outb drive_out_def ata_ports)
qed

lemma ata_init_bare:
  assumes h: "drive_ok h" "length (identity h) = 256" and quick: "deaf h \<Longrightarrow> busy h \<le> 5"
  shows "\<exists>h'. ata_init bare_bus \<lparr>present = p, dev = h\<rparr> = (1, \<lparr>present = 1, dev = h'\<rparr>) \<and>
    same_media h h' \<and> drive_ok h'"
proof -
  have p: "prompt h" and len: "\<And>k. length (sectors h k) = 256"
    using h(1) by (simp_all add: drive_ok_prompt)
  let ?o = "outb bare_bus ATA_DRIVE 0xA0 h"
  let ?a = "delay_400ns bare_bus ?o"
  have o: "?o = h \<or> ?o = h\<lparr>r_drive := 0xA0\<rparr>" by (auto simp: bare_outb drive_out_def ata_ports)
  then have "prompt ?o" "same_media h ?o" "identity ?o = identity h" "busy ?o = busy h" "deaf ?o = deaf h"
    using p by (auto simp: prompt_def same_media_def)
  then have a: "?a = ?o\<lparr>busy := busy ?o - 4, settle := 0\<rparr>" "prompt ?a" "same_media h ?a" "identity ?a = identity h"
    "busy ?a = busy h - 4" "deaf ?a = deaf h" "settle ?a = 0"
    by (auto simp: bare_delay prompt_def same_media_def)
  have st: "status_byte g \<noteq> 0xFF \<and> status_byte g \<noteq> 0" for g
    by (cases "phase g") (auto simp: status_byte_def ata_status)
  let ?g = "?a\<lparr>busy := busy ?a - 1\<rparr>"
  let ?b = "outb bare_bus ATA_LBA_HIGH 0 (outb bare_bus ATA_LBA_MID 0 (outb bare_bus ATA_LBA_LOW 0
     (outb bare_bus ATA_SECCOUNT 0 ?g)))"
  have heard: "\<not> unheard ?g" using quick a(5,6) by (auto simp: unheard_def)
  note b0 = registers_cleared [OF heard]
  have "unheard ?b = unheard ?g" unfolding b0 by (simp add: unheard_def)
  then have b: "prompt ?b" "same_media h ?b" "identity ?b = identity h" "\<not> unheard ?b"
    using heard a(2-4) unfolding b0 by (auto simp: same_media_def prompt_def unheard_def)
  let ?e = "outb bare_bus ATA_COMMAND CMD_IDENTIFY ?b"
  let ?c = "delay_400ns bare_bus ?e"
  have cmd: "?e = working (DataIn (identity h) 0 0) ?b"
    unfolding outb_command [OF b(4)] using b(3) by (simp add: command_def ata_commands)
  have pe: "prompt ?e" unfolding cmd using b(1) by (rule prompt_simps(5))
  then have e: "settle ?e = 0" by (simp add: prompt_def)
  have me: "same_media h ?e" "phase ?e = DataIn (identity h) 0 0" using b(2) unfolding cmd by (simp_all add: same_media_def)
  from pe e me have c: "prompt ?c" "same_media h ?c" "phase ?c = DataIn (identity h) 0 0" "settle ?c = 0"
    by (simp_all add: bare_delay same_media_def)
  let ?d = "(?c\<lparr>busy := busy ?c - 1\<rparr>)\<lparr>busy := 0\<rparr>"
  have d: "wait_ready bare_bus (?c\<lparr>busy := busy ?c - 1\<rparr>) = (0, ?d)" "phase ?d = DataIn (identity h) 0 0"
    using c wait_ready_drive [of "?c\<lparr>busy := busy ?c - 1\<rparr>"] by simp_all
  have i: "in_words bare_bus 256 ?d = (identity h, ?d\<lparr>phase := Idle\<rparr>)"
    using in_words_drive [OF _ d(2)] h(2) by (cases "identity h = []") auto
  have "ata_init bare_bus \<lparr>present = p, dev = h\<rparr> = (1, \<lparr>present = 1, dev = ?d\<lparr>phase := Idle\<rparr>\<rparr>)"
    unfolding ata_init_def Let_def ata.simps bare_inb [OF a(7)] bare_inb [OF c(4)] prod.case using st d(1) i
    by (simp only: simp_thms if_False prod.case not_False_eq_True)
  moreover have "same_media h (?d\<lparr>phase := Idle\<rparr>)" using c(2) by (simp add: same_media_def)
  moreover have "drive_ok (?d\<lparr>phase := Idle\<rparr>)"
    using c(1,2) len by (simp add: drive_ok_prompt same_media_def)
  ultimately show ?thesis by blast
qed

lemma ata_init_view:
  assumes "ata_hom b b' view"
  shows "ata_init b' (ata_view view a) = map_prod id (ata_view view) (ata_init b a)"
proof -
  note v = delay_400ns_view [OF assms] ata_hom_outb [OF assms]
  let ?d1 = "delay_400ns b (outb b ATA_DRIVE 0xA0 (dev a))"
  obtain s1 d2 where 1: "inb b ATA_STATUS ?d1 = (s1, d2)" by fastforce
  let ?d3 = "delay_400ns b (outb b ATA_COMMAND CMD_IDENTIFY (outb b ATA_LBA_HIGH 0 (outb b ATA_LBA_MID 0
     (outb b ATA_LBA_LOW 0 (outb b ATA_SECCOUNT 0 d2)))))"
  obtain s2 d4 where 2: "inb b ATA_STATUS ?d3 = (s2, d4)" by fastforce
  obtain r d5 where 3: "wait_ready b d4 = (r, d5)" by fastforce
  obtain ws d6 where 4: "in_words b 256 d5 = (ws, d6)" by fastforce
  have "inb b' ATA_STATUS (view ?d1) = (s1, view d2)"
    "inb b' ATA_STATUS (view ?d3) = (s2, view d4)"
    using ata_hom_inb [OF assms _ 1] ata_hom_inb [OF assms _ 2] by simp_all
  moreover have "wait_ready b' (view d4) = (r, view d5)"
    using poll_ready_view [OF assms, of 1000000 d4] 3 by (simp add: wait_ready_def)
  moreover have "in_words b' 256 (view d5) = (ws, view d6)"
    using in_words_view [OF assms, of 256 d5] 4 by simp
  ultimately show ?thesis
    using 1 2 3 4 by (simp add: ata_init_def ata_view_def Let_def v)
qed

text \<open>
  \<open>ata_init\<close> does not wait for a drive that is still busy, as the requests do: if the drive takes nothing meanwhile, the command is
  lost and the drive is reported missing.
\<close>

lemma poll_ready_idle: "settle h = 0 \<Longrightarrow> phase h = Idle \<Longrightarrow> fst (poll_ready bare_bus n h) = - 2"
  by (induction n arbitrary: h) (auto simp: bare_inb status_byte_def status_bits Let_def)

lemma ata_init_misses_busy:
  assumes "deaf h" "5 < busy h" "phase h = Idle" "settle h = 0"
  shows "fst (ata_init bare_bus \<lparr>present = p, dev = h\<rparr>) = 0"
proof -
  have out: "outb bare_bus q v g = g" if "deaf g" "0 < busy g" for q v g
    using that by (simp add: bare_outb drive_out_def unheard_def)
  let ?g = "(h\<lparr>busy := busy h - 4, settle := 0\<rparr>)\<lparr>busy := busy h - 5\<rparr>"
  let ?c = "delay_400ns bare_bus ?g"
  have c: "settle ?c = 0" "phase ?c = Idle" using assms(3) by (simp_all add: bare_delay)
  have "fst (wait_ready bare_bus (?c\<lparr>busy := busy ?c - 1\<rparr>)) = - 2"
    unfolding wait_ready_def using c by (intro poll_ready_idle) simp_all
  then show ?thesis using assms c(1)
    by (auto simp: ata_init_def Let_def out bare_delay bare_inb split: prod.splits)
qed

subsection \<open>A concrete drive\<close>

definition demo_drive :: drive where
  "demo_drive = \<lparr>sectors = (\<lambda>k. replicate 256 (of_nat k)), faulty = (\<lambda>k. k = 7), identity = replicate 256 0,
     r_count = 0, r_low = 0, r_mid = 0, r_high = 0, r_drive = 0, phase = Idle, busy = 3, delays = [5, 2000],
     deaf = True, lag = 4, stale = 0x58, settle = 0\<rparr>"

lemma demo_drive_ok: "drive_ok demo_drive"
  by (simp add: demo_drive_def drive_ok_def)

lemma demo_ata_good: "ata_good bare_bus id \<lparr>present = 1, dev = demo_drive\<rparr>"
  by (simp add: ata_good_def bare_bus_drive demo_drive_ok)

text \<open>
  \<open>ata_init\<close> does not wait for a drive that is busy before it writes to it; one that is deaf meanwhile has to be done within the five
  status reads it makes first.
\<close>

lemma ata_init_good:
  assumes "drive_bus b view" "drive_ok (view (dev a))" "length (identity (view (dev a))) = 256"
    and "deaf (view (dev a)) \<Longrightarrow> busy (view (dev a)) \<le> 5"
  shows "\<exists>a'. ata_init b a = (1, a') \<and> ata_present a' = 1 \<and> ata_good b view a' \<and>
    same_media (view (dev a)) (view (dev a'))"
proof -
  from ata_init_bare [OF assms(2-4), of "present a"] obtain h' where
    h: "ata_init bare_bus (ata_view view a) = (1, \<lparr>present = 1, dev = h'\<rparr>)"
    "same_media (view (dev a)) h'" "drive_ok h'" by (auto simp: ata_view_def)
  obtain r a' where a': "ata_init b a = (r, a')" by fastforce
  with h(1) ata_init_view [OF assms(1) [unfolded drive_bus_hom], of a] have "r = 1" "present a' = 1" "view (dev a') = h'"
    by (simp_all add: ata_view_def)
  with a' h assms(1) show ?thesis by (simp add: ata_good_def ata_present_def)
qed

text \<open>Nothing drives the status port: there is no drive.\<close>

definition no_drive :: "'d bus \<Rightarrow> bool" where
  "no_drive b \<longleftrightarrow> (\<forall>d. fst (port_in b d ATA_STATUS) \<in> {0xFF, 0})"

lemma ata_init_absent:
  assumes "no_drive b"
  obtains d where "ata_init b a = (0, \<lparr>present = 0, dev = d\<rparr>)"
proof -
  obtain v d where v: "inb b ATA_STATUS (delay_400ns b (outb b ATA_DRIVE 0xA0 (dev a))) = (v, d)"
    by fastforce
  with assms have "v = 0xFF \<or> v = 0" unfolding no_drive_def inb_def by (metis fst_conv insertE singletonD)
  with v that show thesis by (simp add: ata_init_def)
qed

subsection \<open>Properties\<close>

text \<open>
  the driver finds a drive. On a bus with a working drive, which if it is deaf while busy is so for at most five
  status reads more, \<open>ata_init\<close> reports 1, leaves the sectors as they are, and leaves driver and drive ready for requests.
\<close>

theorem ata_init_finds_drive:
  assumes "drive_bus b view" "drive_ok (view (dev a))" "length (identity (view (dev a))) = 256"
    and "deaf (view (dev a)) \<Longrightarrow> busy (view (dev a)) \<le> 5"
  shows "\<exists>a'. ata_init b a = (1, a') \<and> ata_present a' = 1 \<and> ata_good b view a' \<and>
    same_media (view (dev a)) (view (dev a'))"
  by (rule ata_init_good [OF assms])

theorem ata_init_finds_drive_witness:
  "\<exists>a'. ata_init bare_bus \<lparr>present = 0, dev = demo_drive\<rparr> = (1, a') \<and> present a' = 1"
  using ata_init_finds_drive [OF bare_bus_drive, of "\<lparr>present = 0, dev = demo_drive\<rparr>"] demo_drive_ok
  by (auto simp: demo_drive_def ata_present_def)

text \<open>
  C11: reading. For any number of sectors whose addresses fit 28 bits, \<open>ata_read\<close> on a working
  drive ends, fills the front of the buffer with the sectors in order, low byte of each word
  first, up to the first faulty one, leaves the rest of the buffer alone, returns 0 exactly when
  none is faulty, and changes nothing on the drive.
\<close>

theorem ata_read_correct:
  assumes "ata_good b view a" "count \<noteq> 0" "unat lba < 2 ^ 28" "512 * unat count \<le> length buffer"
  shows "\<exists>r bs a'. ata_read b lba count buffer a = Some (r, bs @ drop (length bs) buffer, a') \<and>
    fetch (view (dev a)) (unat lba) (unat count) = (r, bs) \<and>
    same_media (view (dev a)) (view (dev a')) \<and> ata_good b view a'"
  using assms by (rule ata_read_good)

theorem ata_read_correct_witness:
  "\<exists>buffer' a'. ata_read bare_bus 5 3 (replicate 2000 0) \<lparr>present = 1, dev = demo_drive\<rparr> =
     Some (- 1, buffer', a') \<and> take 1024 buffer' = concat (map le16 (replicate 256 5 @ replicate 256 6))"
proof -
  have "fetch demo_drive 5 3 = (- 1, sector_bytes demo_drive 5 @ sector_bytes demo_drive 6)"
    by (simp add: demo_drive_def eval_nat_numeral(2,3) numeral_eq_Suc)
  moreover have "sector_bytes demo_drive 5 @ sector_bytes demo_drive 6 =
      concat (map le16 (replicate 256 5 @ replicate 256 6))"
    unfolding map_append concat_append by (simp add: sector_bytes_def demo_drive_def)
  moreover have "length (concat (map le16 (replicate 256 5 @ replicate 256 6))) = 1024"
    unfolding length_le16s by simp
  ultimately show ?thesis
    using ata_read_correct [OF demo_ata_good, of 3 5 "replicate 2000 0"] by fastforce
qed

text \<open>
  C21: writing. For any number of sectors whose addresses fit 28 bits and a buffer that holds them, \<open>ata_write\<close> on a working
  drive ends, and the drive holds the buffer's sectors at consecutive addresses up to the first faulty one and is otherwise
  unchanged; 0 is returned exactly when all are written. Then \<open>ata_read\<close> of the same sectors succeeds and fills the front of any
  buffer that is large enough with exactly the bytes written.
\<close>

theorem ata_write_correct:
  assumes "ata_good b view a" "count \<noteq> 0" "unat lba < 2 ^ 28" "512 * unat count \<le> length buffer"
  shows "\<exists>r a'. ata_write b lba count buffer a = Some (r, a') \<and>
    commit (view (dev a)) (unat lba) (unat count) buffer = (r, sectors (view (dev a'))) \<and>
    faulty (view (dev a')) = faulty (view (dev a)) \<and> ata_good b view a' \<and>
    (r = 0 \<longrightarrow> (\<forall>buf. 512 * unat count \<le> length buf \<longrightarrow>
       (\<exists>a''. ata_read b lba count buf a' =
          Some (0, take (512 * unat count) buffer @ drop (512 * unat count) buf, a'') \<and> ata_good b view a'')))"
proof -
  from ata_write_good [OF assms] obtain r a' where
    a': "ata_write b lba count buffer a = Some (r, a')"
    "commit (view (dev a)) (unat lba) (unat count) buffer = (r, sectors (view (dev a')))"
    "faulty (view (dev a')) = faulty (view (dev a))" "ata_good b view a'" by blast
  have "\<exists>a''. ata_read b lba count buf a' =
      Some (0, take (512 * unat count) buffer @ drop (512 * unat count) buf, a'') \<and> ata_good b view a''"
    if r: "r = 0" and buf: "512 * unat count \<le> length buf" for buf
  proof -
    have f: "fetch (view (dev a')) (unat lba) (unat count) = (0, take (512 * unat count) buffer)"
      using fetch_commit [OF a'(3) refl] a'(2) r assms(4) by simp
    have "length (take (512 * unat count) buffer) = 512 * unat count" using assms(4) by simp
    with ata_read_good [OF a'(4) assms(2,3) buf] f show ?thesis by fastforce
  qed
  with a' show ?thesis by blast
qed

theorem ata_write_correct_witness:
  "\<exists>a' a''. ata_write bare_bus 9 2 (replicate 1024 0xAB) \<lparr>present = 1, dev = demo_drive\<rparr> = Some (0, a') \<and>
     ata_read bare_bus 9 2 (replicate 1025 0) a' = Some (0, replicate 1024 0xAB @ [0], a'')"
proof -
  have "fst (commit demo_drive 9 2 (replicate 1024 0xAB)) = 0"
    by (simp add: demo_drive_def numeral_2_eq_2)
  moreover have "512 * unat (2 :: u8) \<le> length (replicate 1024 (0xAB :: u8))" by simp
  ultimately obtain a' where
    a': "ata_write bare_bus 9 2 (replicate 1024 0xAB) \<lparr>present = 1, dev = demo_drive\<rparr> = Some (0, a')"
    "\<forall>buf. 1024 \<le> length buf \<longrightarrow> (\<exists>a''. ata_read bare_bus 9 2 buf a' =
       Some (0, replicate 1024 0xAB @ drop 1024 buf, a'') \<and> ata_good bare_bus id a'')"
    using ata_write_correct [OF demo_ata_good, of 2 9 "replicate 1024 0xAB"] by auto
  have "\<exists>a''. ata_read bare_bus 9 2 (replicate 1025 0) a' = Some (0, replicate 1024 0xAB @ [0], a'')"
    using a'(2) [THEN spec, of "replicate 1025 0"] by auto
  with a'(1) show ?thesis by blast
qed

text \<open>
  no drive. Whatever else is on the bus, if the status port always reads 0xFF (nothing
  drives the lines) or always 0, \<open>ata_init\<close> reports 0, and from then on every read and write
  fails with -1 and touches neither the buffer nor any port.
\<close>

theorem ata_absent_drive:
  assumes "no_drive b"
  shows "\<exists>a'. ata_init b a = (0, a') \<and> ata_present a' = 0 \<and>
    ata_read b lba count buffer a' = Some (- 1, buffer, a') \<and>
    ata_write b lba count buffer a' = Some (- 1, a')"
  by (rule ata_init_absent [OF assms, of a]) (simp add: ata_present_def ata_read_def ata_write_def)

theorem ata_absent_drive_witness:
  "\<exists>a'. ata_init (log_bus (\<lambda>_ _. 0xFF) (\<lambda>_ _. 0xFFFF)) \<lparr>present = 1, dev = []\<rparr> = (0, a') \<and>
     ata_write (log_bus (\<lambda>_ _. 0xFF) (\<lambda>_ _. 0xFFFF)) 2048 1 (replicate 512 0) a' = Some (- 1, a')"
proof -
  have "no_drive (log_bus (\<lambda>_ _. 0xFF) (\<lambda>_ _. 0xFFFF))"
    by (simp add: no_drive_def log_bus_def)
  from ata_absent_drive [OF this] show ?thesis by fast
qed

lemma poll_stuck:
  assumes "\<forall>d. fst (port_in b d ATA_STATUS) AND STATUS_BSY \<noteq> 0"
  shows "fst (poll_not_busy b n d) = - 2" and "fst (poll_ready b n d) = - 2"
proof (induction n arbitrary: d)
  case (Suc n)
  {
    case 1
    with assms Suc show ?case by (simp add: inb_def split_beta Let_def)
  next
    case 2
    with assms Suc show ?case by (simp add: inb_def split_beta Let_def)
  }
qed simp_all

text \<open>
  C37: a stuck drive. If the busy bit never clears, every read and write still returns, with the
  timeout code -2, without having sent a command or touched the buffer.
\<close>

theorem ata_stuck_drive:
  assumes "\<forall>d. fst (port_in b d ATA_STATUS) AND STATUS_BSY \<noteq> 0" "present a \<noteq> 0" "count \<noteq> 0"
  shows "\<exists>d. poll_not_busy b 1000000 (dev a) = (- 2, d) \<and>
    ata_read b lba count buffer a = Some (- 2, buffer, a\<lparr>dev := d\<rparr>) \<and>
    ata_write b lba count buffer a = Some (- 2, a\<lparr>dev := d\<rparr>)"
proof -
  obtain r d where r: "poll_not_busy b 1000000 (dev a) = (r, d)" by fastforce
  with poll_stuck(1) [OF assms(1), of 1000000 "dev a"] have "r = - 2" by simp
  with r assms(2,3) show ?thesis by (simp add: ata_read_def ata_write_def wait_not_busy_def)
qed

theorem ata_stuck_drive_witness:
  "\<exists>d. ata_read (log_bus (\<lambda>_ _. 0x80) (\<lambda>_ _. 0)) 2048 1 [] \<lparr>present = 1, dev = []\<rparr> =
     Some (- 2, [], \<lparr>present = 1, dev = d\<rparr>)"
proof -
  have "\<forall>d. fst (port_in (log_bus (\<lambda>_ _. 0x80) (\<lambda>_ _. 0)) d ATA_STATUS) AND STATUS_BSY \<noteq> 0"
    by (simp add: log_bus_def ata_status)
  from ata_stuck_drive [OF this, of "\<lparr>present = 1, dev = []\<rparr>" 1 2048 "[]"] show ?thesis by auto
qed

end
