(* ===== verification/Fish_Disk_Props.thy ===== *)
theory Fish_Disk_Props
  imports Fish_Disk Fish_Props Ata_Props
begin

text \<open>
  The properties of saving and loading, on any bus with a working drive: what is saved is what
  is loaded, only Fish's own sectors are written, what fails is reported, and what loading does
  not check.
\<close>

text \<open>
  C6: the round trip. If none of the 71 sectors from 2048 on is faulty, \<open>fish_save\<close> succeeds and
  changes no other sector of the disk (the boot sector and the partitions are safe), and a
  \<open>fish_load\<close> into any state, whatever its buffer held, succeeds and restores the saved
  filesystem exactly: every node, every byte of data and the current directory.
\<close>

theorem fish_save_load_roundtrip:
  assumes "ata_good b view a" "fish_ok fs" "\<forall>i < 71. \<not> faulty (view (dev a)) (2048 + i)"
  shows "\<exists>a'. fish_save b fs a = Some (FISH_OK, a') \<and> ata_good b view a' \<and>
    (\<forall>k. k < 2048 \<or> 2119 \<le> k \<longrightarrow> sector_bytes (view (dev a')) k = sector_bytes (view (dev a)) k) \<and>
    (\<forall>old stack. fish_shape old \<longrightarrow> length stack = 512 \<longrightarrow>
       (\<exists>a''. fish_load b stack old a' = Some (FISH_OK, fs, a'') \<and> ata_good b view a''))"
proof -
  note shape = fish_ok_shape [OF assms(2)]
  from fish_save_total [OF assms(1) shape] assms(3) obtain a' where
    a': "fish_save b fs a = Some (FISH_OK, a')" "ata_good b view a'"
    "faulty (view (dev a')) = faulty (view (dev a))"
    "sector_bytes (view (dev a')) = overlay (sector_bytes (view (dev a))) 2048 (fish_image fs)" by auto
  have "holds_image (sector_bytes (view (dev a'))) fs"
    by (simp add: holds_image_def a'(4) overlay_at)
  moreover have "dir_index (nodes fs) 0" "dir_index (nodes fs) (current fs)"
    using nodes_root [OF fish_nodes [OF assms(2)]] fish_current_used [OF assms(2)]
      fish_current_dir [OF assms(2)] fish_current [OF assms(2)]
    by (simp_all add: dir_index_def used_at_def)
  moreover have "\<forall>i < 71. \<not> faulty (view (dev a')) (2048 + i)" using assms(3) a'(3) by simp
  ultimately have "\<exists>a''. fish_load b stack old a' = Some (FISH_OK, fs, a'') \<and> ata_good b view a''"
    if "fish_shape old" "length stack = 512" for old stack
    using fish_load_image [OF a'(2) that, of fs] shape by auto
  moreover have "k < 2048 \<or> 2119 \<le> k \<longrightarrow> sector_bytes (view (dev a')) k = sector_bytes (view (dev a)) k" for k
    by (auto simp: a'(4) overlay_outside)
  ultimately show ?thesis using a' by blast
qed

theorem fish_save_load_roundtrip_witness:
  "\<exists>fs a' a''. volume_of fs = demo_volume \<and>
     fish_save bare_bus fs \<lparr>present = 1, dev = demo_drive\<rparr> = Some (FISH_OK, a') \<and>
     fish_load bare_bus (replicate 512 0xCC) fs a' = Some (FISH_OK, fs, a'')"
proof -
  from demo_state obtain fs where fs: "fish_ok fs" "volume_of fs = demo_volume" by blast
  have "ata_good bare_bus id \<lparr>present = 1, dev = demo_drive\<rparr>"
    by (simp add: ata_good_def bare_bus_drive demo_drive_def drive_ok_def)
  from fish_save_load_roundtrip [OF this fs(1)] obtain a' where
    "fish_save bare_bus fs \<lparr>present = 1, dev = demo_drive\<rparr> = Some (FISH_OK, a')"
    "\<forall>old stack. fish_shape old \<longrightarrow> length stack = 512 \<longrightarrow>
       (\<exists>a''. fish_load bare_bus stack old a' = Some (FISH_OK, fs, a'') \<and> ata_good bare_bus id a'')"
    by (auto simp: demo_drive_def)
  with fs fish_ok_shape [OF fs(1)] show ?thesis by (metis length_replicate)
qed

text \<open>
  a save that fails. Whatever sectors are faulty, \<open>fish_save\<close> ends and writes only to its 71
  sectors; it reports success exactly when none of them is faulty and a disk error otherwise.
  Without a drive it reports that, and writes nothing.
\<close>

theorem fish_save_outcome:
  assumes "fish_shape fs" "ata_good b view a"
  shows "(\<exists>r a'. fish_save b fs a = Some (r, a') \<and> ata_good b view a' \<and>
      (r = FISH_OK \<longleftrightarrow> (\<forall>i < 71. \<not> faulty (view (dev a)) (2048 + i))) \<and> (r = FISH_OK \<or> r = FISH_ERR_IO) \<and>
      (\<forall>k. k < 2048 \<or> 2119 \<le> k \<longrightarrow> sector_bytes (view (dev a')) k = sector_bytes (view (dev a)) k)) \<and>
    fish_save b fs (a\<lparr>present := 0\<rparr>) = Some (FISH_ERR_NODISK, a\<lparr>present := 0\<rparr>)"
proof
  from fish_save_total [OF assms(2,1)] obtain r a' k where
    r: "fish_save b fs a = Some (r, a')" "ata_good b view a'" "k \<le> 71"
    "sector_bytes (view (dev a')) = overlay (sector_bytes (view (dev a))) 2048 (take k (fish_image fs))"
    "r = FISH_OK \<and> k = 71 \<and> (\<forall>i < 71. \<not> faulty (view (dev a)) (2048 + i)) \<or>
     r = FISH_ERR_IO \<and> k < 71 \<and> faulty (view (dev a)) (2048 + k)" by blast
  have "\<forall>i. i < 2048 \<or> 2119 \<le> i \<longrightarrow> sector_bytes (view (dev a')) i = sector_bytes (view (dev a)) i"
    using r(3) by (auto simp: r(4) overlay_outside)
  moreover have "r = FISH_OK \<longleftrightarrow> (\<forall>i < 71. \<not> faulty (view (dev a)) (2048 + i))"
    using r(5) by (auto simp: fish_codes)
  ultimately show "\<exists>r a'. fish_save b fs a = Some (r, a') \<and> ata_good b view a' \<and>
      (r = FISH_OK \<longleftrightarrow> (\<forall>i < 71. \<not> faulty (view (dev a)) (2048 + i))) \<and> (r = FISH_OK \<or> r = FISH_ERR_IO) \<and>
      (\<forall>k. k < 2048 \<or> 2119 \<le> k \<longrightarrow> sector_bytes (view (dev a')) k = sector_bytes (view (dev a)) k)"
    using r(1,2,5) by blast
qed (simp add: fish_save_def ata_present_def)

text \<open>A drive that holds the image of a filesystem, with given faulty sectors, for the witnesses.\<close>

definition drive_with :: "fish \<Rightarrow> (nat \<Rightarrow> bool) \<Rightarrow> drive" where
  "drive_with g bad = demo_drive\<lparr>faulty := bad,
     sectors := (\<lambda>k. if 2048 \<le> k \<and> k < 2119 then words_of (fish_image g ! (k - 2048)) else replicate 256 0)\<rparr>"

lemma drive_with_good: "fish_shape g \<Longrightarrow> ata_good bare_bus id \<lparr>present = 1, dev = drive_with g bad\<rparr>"
  using fish_image_sectors [of g, unfolded list_all_length] demo_drive_ok
  by (auto simp: ata_good_def bare_bus_drive drive_ok_def drive_with_def)

lemma drive_with_holds: "fish_shape g \<Longrightarrow> holds_image (sector_bytes (drive_with g bad)) g"
  using fish_image_sectors [of g] bytes_of_words
  by (auto simp: holds_image_def sector_bytes_def drive_with_def list_all_length)

lemma drive_with_faulty [simp]: "faulty (drive_with g bad) = bad"
  by (simp add: drive_with_def)

text \<open>A demo state that holds what \<open>demo_state\<close> says, in the form the witnesses use.\<close>

lemma demo_shape: "\<exists>fs. fish_shape fs \<and> fish_ok fs \<and> volume_of fs = demo_volume"
  using demo_state fish_ok_shape by blast

theorem fish_save_outcome_witness:
  "\<exists>fs a'. volume_of fs = demo_volume \<and>
     fish_save bare_bus fs \<lparr>present = 1, dev = drive_with fs (\<lambda>k. k = 2050)\<rparr> = Some (FISH_ERR_IO, a')"
proof -
  from demo_shape obtain fs where fs: "fish_shape fs" "volume_of fs = demo_volume" by blast
  obtain r a' where r: "fish_save bare_bus fs \<lparr>present = 1, dev = drive_with fs (\<lambda>k. k = 2050)\<rparr> = Some (r, a')"
    "r = FISH_OK \<longleftrightarrow> (\<forall>i < 71. 2048 + i \<noteq> (2050 :: nat))" "r = FISH_OK \<or> r = FISH_ERR_IO"
    using fish_save_outcome [OF fs(1) drive_with_good [OF fs(1), of "\<lambda>k. k = 2050"]] by auto
  have "\<not> (\<forall>i < 71. 2048 + i \<noteq> (2050 :: nat))" by (auto intro!: exI [of _ 2])
  with r fs(2) show ?thesis by blast
qed

text \<open>
  C24: loading is safe and checks the header. For any contents of the disk and any faulty
  sectors, \<open>fish_load\<close> ends without undefined behaviour, never writes the disk, and leaves the
  node array at its declared size. If the superblock cannot be read or is not one of Fish's, the
  filesystem in memory is untouched; if it reports success, root and current directory exist.
\<close>

theorem fish_load_safe:
  assumes "ata_good b view a" "fish_shape fs" "length stack = 512"
  shows "\<exists>r fs' a'. fish_load b stack fs a = Some (r, fs', a') \<and> ata_good b view a' \<and>
    same_media (view (dev a)) (view (dev a')) \<and> fish_shape fs' \<and>
    r \<in> {FISH_OK, FISH_ERR_IO, FISH_ERR_FORMAT} \<and>
    (faulty (view (dev a)) 2048 \<longrightarrow> r = FISH_ERR_IO \<and> fs' = fs) \<and>
    (\<not> faulty (view (dev a)) 2048 \<longrightarrow> \<not> superblock_ok (sector_bytes (view (dev a)) 2048) \<longrightarrow>
       r = FISH_ERR_FORMAT \<and> fs' = fs) \<and>
    (r = FISH_OK \<longrightarrow> dir_index (nodes fs') 0 \<and> dir_index (nodes fs') (current fs'))"
proof -
  let ?S = "sector_bytes (view (dev a))" and ?F = "faulty (view (dev a))"
  from fish_load_cases [OF assms] obtain r fs' a' where
    l: "fish_load b stack fs a = Some (r, fs', a')" "ata_good b view a'"
    "same_media (view (dev a)) (view (dev a'))"
    "if ?F 2048 then r = FISH_ERR_IO \<and> fs' = fs
     else if \<not> superblock_ok (?S 2048) then r = FISH_ERR_FORMAT \<and> fs' = fs
     else if \<exists>k < 70. ?F (2049 + k)
     then r = FISH_ERR_IO \<and> (\<exists>k < 70. ?F (2049 + k) \<and> (\<forall>j < k. \<not> ?F (2049 + j)) \<and>
       fs' = fs\<lparr>nodes := nodes_of (concat (map (\<lambda>j. ?S (2049 + j)) [0..<k]) @
                  drop (512 * k) (nodes_bytes (nodes fs)))\<rparr>)
     else (r, fs') = loaded (nodes_of (concat (map (\<lambda>j. ?S (2049 + j)) [0..<70])))
                       (sb_current (superblock_of (take 20 (?S 2048))))" by blast
  have len: "length (concat (map (\<lambda>j. ?S (2049 + j)) [0..<k])) = 512 * k" for k
    using length_pieces [of 512 "map (\<lambda>j. ?S (2049 + j)) [0..<k]"] ata.sector_length [OF assms(1)]
    by (simp add: list_all_iff)
  have "fish_shape fs' \<and> (r = FISH_OK \<longrightarrow> dir_index (nodes fs') 0 \<and> dir_index (nodes fs') (current fs')) \<and>
      r \<in> {FISH_OK, FISH_ERR_IO, FISH_ERR_FORMAT}"
  proof (cases "?F 2048 \<or> \<not> superblock_ok (?S 2048) \<or> (\<exists>k < 70. ?F (2049 + k))")
    case True
    then have "r = FISH_ERR_IO \<and> fs' = fs \<or> r = FISH_ERR_FORMAT \<and> fs' = fs \<or>
       r = FISH_ERR_IO \<and> (\<exists>k < 70. fs' = fs\<lparr>nodes := nodes_of (concat (map (\<lambda>j. ?S (2049 + j)) [0..<k]) @
         drop (512 * k) (nodes_bytes (nodes fs)))\<rparr>)"
      using l(4) by (auto split: if_splits)
    then show ?thesis using assms(2) len shape_bytes [OF assms(2)]
      by (auto simp: fish_codes fish_shape_def nodes_of_shape)
  next
    case False
    let ?ns = "nodes_of (concat (map (\<lambda>j. ?S (2049 + j)) [0..<70]))"
    from False l(4) have "(r, fs') = loaded ?ns (sb_current (superblock_of (take 20 (?S 2048))))"
      by (auto split: if_splits)
    moreover have "fish_shape (the (fish_init \<lparr>nodes = ?ns, current = 0\<rparr>))"
      using fish_init_empty [of "\<lparr>nodes = ?ns, current = 0\<rparr>"] fish_ok_shape by auto
    ultimately show ?thesis using nodes_of_shape [OF len [of 70, simplified]]
      by (auto simp: loaded_def fish_shape_def fish_codes split: if_splits)
  qed
  with l show ?thesis by auto
qed

lemma superblock_ok_magic: "superblock_ok x \<Longrightarrow> x ! 0 = 0x46"
proof -
  assume "superblock_ok x"
  then have "word_at x 0 = 0x48534946"
    by (simp add: superblock_ok_def superblock_of_def word_at_take FISH_MAGIC_def Let_def)
  then have "le32 (un_le32 (x ! 0) (x ! 1) (x ! 2) (x ! 3)) = le32 0x48534946"
    by (simp add: word_at_def numeral_eq_Suc)
  then have "x ! 0 = hd (le32 0x48534946)" unfolding le32_un_le32 by (metis list.sel(1))
  then show ?thesis by (simp add: le32_def)
qed

theorem fish_load_safe_witness:
  "\<exists>fs a'. volume_of fs = demo_volume \<and>
     fish_load bare_bus (replicate 512 0) fs \<lparr>present = 1, dev = demo_drive\<rparr> = Some (FISH_ERR_FORMAT, fs, a')"
proof -
  from demo_shape obtain fs where fs: "fish_shape fs" "volume_of fs = demo_volume" by blast
  have a: "ata_good bare_bus id \<lparr>present = 1, dev = demo_drive\<rparr>"
    by (simp add: ata_good_def bare_bus_drive demo_drive_def drive_ok_def)
  have "replicate 256 (2048 :: u16) = 2048 # replicate 255 2048" by (simp flip: replicate_Suc)
  then have "sector_bytes demo_drive 2048 ! 0 = 0"
    by (simp add: sector_bytes_def demo_drive_def le16_def)
  then have "\<not> superblock_ok (sector_bytes demo_drive 2048)"
    using superblock_ok_magic by fastforce
  with fish_load_safe [OF a fs(1), of "replicate 512 0"] fs(2) show ?thesis
    by (auto simp: demo_drive_def)
qed

lemma node_header_from_disk:
  assumes "560 * i + 48 \<le> m" "m \<le> length xs" "m = length (take m xs)" "i < 64"
  shows "n_used (nodes_of (take m xs @ ys) ! i) = n_used (nodes_of xs ! i)"
proof -
  have "(take 560 (drop (560 * i) (take m xs @ ys))) ! j = (take 560 (drop (560 * i) xs)) ! j" if "j < 48" for j
  proof -
    have "j < m - 560 * i" using assms(1) that by simp
    then show ?thesis using assms(2,3) that by (simp add: nth_append)
  qed
  with assms(4) show ?thesis by (simp add: nodes_of_def node_of_def word_at_def disk_sizes FISH_MAX_NODES_def)
qed

text \<open>Where a load stops: at the first faulty sector of the node array, with the nodes before it replaced.\<close>

lemma fish_load_stops:
  assumes "ata_good b view a" "fish_shape fs" "length stack = 512"
    and "fish_shape g" "holds_image (sector_bytes (view (dev a))) g"
    and "k < 70" "faulty (view (dev a)) (2049 + k)" "\<forall>j \<le> k. \<not> faulty (view (dev a)) (2048 + j)"
  shows "\<exists>a'. fish_load b stack fs a = Some (FISH_ERR_IO, fs\<lparr>nodes :=
      nodes_of (concat (map (\<lambda>j. sector_bytes (view (dev a)) (2049 + j)) [0..<k]) @ drop (512 * k) (nodes_bytes (nodes fs)))\<rparr>, a')"
proof -
  let ?S = "sector_bytes (view (dev a))" and ?F = "faulty (view (dev a))"
  have good: "\<not> ?F 2048" "superblock_ok (?S 2048)"
    using assms(8) superblock_ok_image by (auto simp: holds_image_contents(1) [OF assms(5,4)] dest: spec [of _ 0])
  have before: "\<not> ?F (2049 + j)" if "j < k" for j
  proof -
    have e: "2049 + j = 2048 + Suc j" by simp
    from that have "Suc j \<le> k" by simp
    with assms(8) show ?thesis unfolding e by blast
  qed
  have first: "j = k" if "?F (2049 + j)" "\<forall>i < j. \<not> ?F (2049 + i)" for j
    using that before assms(7) by (metis linorder_neqE_nat)
  from fish_load_cases [OF assms(1-3)] obtain r fs' a' where
    l: "fish_load b stack fs a = Some (r, fs', a')"
    "if ?F 2048 then r = FISH_ERR_IO \<and> fs' = fs
     else if \<not> superblock_ok (?S 2048) then r = FISH_ERR_FORMAT \<and> fs' = fs
     else if \<exists>k < 70. ?F (2049 + k)
     then r = FISH_ERR_IO \<and> (\<exists>k < 70. ?F (2049 + k) \<and> (\<forall>j < k. \<not> ?F (2049 + j)) \<and>
       fs' = fs\<lparr>nodes := nodes_of (concat (map (\<lambda>j. ?S (2049 + j)) [0..<k]) @
                  drop (512 * k) (nodes_bytes (nodes fs)))\<rparr>)
     else (r, fs') = loaded (nodes_of (concat (map (\<lambda>j. ?S (2049 + j)) [0..<70])))
                       (sb_current (superblock_of (take 20 (?S 2048))))" by blast
  have "\<exists>k < 70. ?F (2049 + k)" using assms(6,7) by blast
  with l(2) good have "r = FISH_ERR_IO \<and> (\<exists>k < 70. ?F (2049 + k) \<and> (\<forall>j < k. \<not> ?F (2049 + j)) \<and>
       fs' = fs\<lparr>nodes := nodes_of (concat (map (\<lambda>j. ?S (2049 + j)) [0..<k]) @
                  drop (512 * k) (nodes_bytes (nodes fs)))\<rparr>)"
    by (simp only: if_True if_False not_True_eq_False)
  with l(1) first show ?thesis by blast
qed

text \<open>The sectors read so far are the front of the image.\<close>

lemma image_front:
  assumes "ata_good b view a" "k \<le> 70"
  shows "length (concat (map (\<lambda>j. sector_bytes (view (dev a)) (2049 + j)) [0..<70])) = 35840"
    and "take (512 * k) (concat (map (\<lambda>j. sector_bytes (view (dev a)) (2049 + j)) [0..<70])) =
      concat (map (\<lambda>j. sector_bytes (view (dev a)) (2049 + j)) [0..<k])"
proof -
  let ?S = "sector_bytes (view (dev a))"
  have len: "length (concat (map (\<lambda>j. ?S (2049 + j)) [0..<n])) = 512 * n" for n
    using length_pieces [of 512 "map (\<lambda>j. ?S (2049 + j)) [0..<n]"] ata.sector_length [OF assms(1)]
    by (simp add: list_all_iff)
  show "length (concat (map (\<lambda>j. ?S (2049 + j)) [0..<70])) = 35840" using len [of 70] by simp
  have "[0..<70] = [0..<k] @ [k..<70]" using upt_add_eq_append [of 0 k "70 - k"] assms(2) by simp
  then have "concat (map (\<lambda>j. ?S (2049 + j)) [0..<70]) =
      concat (map (\<lambda>j. ?S (2049 + j)) [0..<k]) @ concat (map (\<lambda>j. ?S (2049 + j)) [k..<70])"
    by (simp only: map_append concat_append)
  then show "take (512 * k) (concat (map (\<lambda>j. ?S (2049 + j)) [0..<70])) = concat (map (\<lambda>j. ?S (2049 + j)) [0..<k])"
    using len [of k] by simp
qed

text \<open>
  C40: a failed load is not harmless. If sector \<open>2049 + k\<close> cannot be read, \<open>fish_load\<close> reports a
  disk error, but it has already replaced the nodes that lie in the sectors before, and keeps
  the current directory. When the image has no node where the current directory was, the
  filesystem in memory is left broken: its current directory is an unused node.
\<close>

theorem fish_load_failure_corrupts:
  assumes "ata_good b view a" "fish_ok fs" "length stack = 512"
    and "fish_shape g" "holds_image (sector_bytes (view (dev a))) g"
    and "k < 70" "faulty (view (dev a)) (2049 + k)" "\<forall>j \<le> k. \<not> faulty (view (dev a)) (2048 + j)"
    and "560 * unat (current fs) + 48 \<le> 512 * k" "n_used (nodes g ! unat (current fs)) = 0"
  shows "\<exists>fs' a'. fish_load b stack fs a = Some (FISH_ERR_IO, fs', a') \<and>
    current fs' = current fs \<and> n_used (nodes fs' ! unat (current fs')) = 0 \<and> \<not> fish_ok fs'"
proof -
  let ?S = "sector_bytes (view (dev a))" and ?c = "unat (current fs)"
  let ?d = "concat (map (\<lambda>j. ?S (2049 + j)) [0..<70])"
  note front = image_front [OF assms(1), of k]
  from fish_load_stops [OF assms(1) fish_ok_shape [OF assms(2)] assms(3-8)] obtain fs' a' where
    l: "fish_load b stack fs a = Some (FISH_ERR_IO, fs', a')"
    "fs' = fs\<lparr>nodes := nodes_of (concat (map (\<lambda>j. ?S (2049 + j)) [0..<k]) @ drop (512 * k) (nodes_bytes (nodes fs)))\<rparr>"
    by blast
  have "n_used (nodes_of (take (512 * k) ?d @ drop (512 * k) (nodes_bytes (nodes fs))) ! ?c) =
      n_used (nodes_of ?d ! ?c)"
    by (rule node_header_from_disk) (use assms(6,9) front(1) fish_current [OF assms(2)] in simp_all)
  then have u: "n_used (nodes fs' ! ?c) = 0"
    using holds_image_contents(2) [OF assms(5,4)] assms(6,10) front(2) by (simp add: l(2))
  have "current fs' = current fs" by (simp add: l(2))
  moreover from this u have "\<not> fish_ok fs'" by (auto simp: fish_ok_def used_at_def)
  ultimately show ?thesis using l(1) u by auto
qed

theorem fish_load_failure_corrupts_witness:
  "\<exists>fs g fs' a'. fish_ok fs \<and> volume_of fs = demo_volume \<and> volume_of g = empty_volume \<and>
     fish_load bare_bus (replicate 512 0) fs \<lparr>present = 1, dev = drive_with g (\<lambda>k. k = 2118)\<rparr> =
       Some (FISH_ERR_IO, fs', a') \<and> \<not> fish_ok fs'"
proof -
  from demo_shape obtain fs where fs: "fish_ok fs" "volume_of fs = demo_volume" by blast
  obtain g where g: "fish_init fs = Some g" "fish_ok g" "volume_of g = empty_volume"
    using fish_init_empty by blast
  note shape = fish_ok_shape [OF g(2)]
  have "cwd_of fs \<noteq> []" using fs(2) by (auto simp: volume_of_def demo_volume_def)
  then have "unat (current fs) \<noteq> 0" using cwd_ofI [OF fs(1), of "[]"] by auto
  then have "n_used (nodes g ! unat (current fs)) = 0"
    using g(1) fish_current [OF fs(1)] by (auto simp: fish_init_eq nth_Cons' blank_node_def)
  moreover have "\<forall>j \<le> 69. 2048 + j \<noteq> (2118 :: nat)" by auto
  ultimately have "\<exists>fs' a'. fish_load bare_bus (replicate 512 0) fs \<lparr>present = 1, dev = drive_with g (\<lambda>k. k = 2118)\<rparr> =
      Some (FISH_ERR_IO, fs', a') \<and> current fs' = current fs \<and>
      n_used (nodes fs' ! unat (current fs')) = 0 \<and> \<not> fish_ok fs'"
    using drive_with_holds [OF shape, of "\<lambda>k. k = 2118"] fish_current [OF fs(1)]
    by (intro fish_load_failure_corrupts [OF drive_with_good [OF shape] fs(1), where k = 69 and g = g])
       (simp_all add: shape)
  with fs g(3) show ?thesis by blast
qed

text \<open>
  a load checks too little. The parent indices of an image are not checked: an image whose
  current directory has a parent outside the node array loads successfully, and showing the
  prompt's path then reads outside the array (the call has no defined result).
\<close>

theorem fish_load_trusts_parents:
  assumes "ata_good b view a" "fish_shape fs" "length stack = 512"
    and "fish_shape g" "holds_image (sector_bytes (view (dev a))) g"
    and "\<forall>i < 71. \<not> faulty (view (dev a)) (2048 + i)"
    and "dir_index (nodes g) 0" "dir_index (nodes g) (current g)" "current g \<noteq> 0"
    and "sint (n_parent (nodes g ! unat (current g))) \<ge> 64"
  shows "\<exists>a'. fish_load b stack fs a = Some (FISH_OK, g, a') \<and>
    (\<forall>buffer cap. 0 < cap \<longrightarrow> fish_path buffer cap g = None)"
proof -
  let ?p = "n_parent (nodes g ! unat (current g))"
  from fish_load_image [OF assms(1-3,5,4,7,6)] assms(8) obtain a' where
    "fish_load b stack fs a = Some (FISH_OK, g, a')" by auto
  moreover have "climb FISH_MAX_NODES (current g) (nodes g) = None"
  proof -
    have c: "unat (current g) < 64" "length (nodes g) = 64"
      using assms(4,8) by (auto simp: dir_index_def fish_shape_def)
    then have "sint (current g) = int (unat (current g))" using sint_index [of "unat (current g)"] by simp
    moreover have "unat (current g) \<noteq> 0" using assms(9) by (simp add: unat_eq_zero)
    ultimately have pos: "sint (current g) > 0" by linarith
    have "unat ?p \<ge> 64"
    proof (rule ccontr)
      assume "\<not> 64 \<le> unat ?p"
      then have "sint ?p = int (unat ?p)" "unat ?p < 64" using sint_index [of "unat ?p"] by simp_all
      with assms(10) show False by linarith
    qed
    then have "aget (nodes g) (unat ?p) = None" using c by (simp add: aget_def)
    moreover have "sint ?p > 0" using assms(10) by simp
    moreover have m: "FISH_MAX_NODES = Suc (Suc 62)" by (simp add: FISH_MAX_NODES_def)
    ultimately show ?thesis using pos c unfolding m climb.simps by (simp add: aget_def)
  qed
  ultimately show ?thesis by (simp add: fish_path_def)
qed

definition bad_parent_image :: fish where
  "bad_parent_image =
     (let dir = blank_node\<lparr>n_name := bytes_of ''x'' @ replicate 31 0, n_used := 1, n_is_dir := 1\<rparr>
      in \<lparr>nodes = dir\<lparr>n_parent := - 1\<rparr> # dir\<lparr>n_parent := 1000\<rparr> # replicate 62 blank_node, current = 1\<rparr>)"

theorem fish_load_trusts_parents_witness:
  "\<exists>a'. fish_load bare_bus (replicate 512 0) bad_parent_image
       \<lparr>present = 1, dev = drive_with bad_parent_image (\<lambda>k. False)\<rparr> = Some (FISH_OK, bad_parent_image, a') \<and>
     fish_path (replicate 256 0) 256 bad_parent_image = None"
proof -
  have shape: "fish_shape bad_parent_image"
    by (simp add: fish_shape_def bad_parent_image_def Let_def node_shape_def blank_node_def list_all_iff
        FISH_NAME_MAX_def FISH_FILE_MAX_def)
  have "dir_index (nodes bad_parent_image) 0" "dir_index (nodes bad_parent_image) (current bad_parent_image)"
    "current bad_parent_image \<noteq> 0"
    "64 \<le> sint (n_parent (nodes bad_parent_image ! unat (current bad_parent_image)))"
    by (simp_all add: dir_index_def bad_parent_image_def Let_def)
  from fish_load_trusts_parents [OF drive_with_good [OF shape] shape _ shape _ _ this, of "replicate 512 0" "\<lambda>k. False"]
    drive_with_holds [OF shape, of "\<lambda>k. False"]
  show ?thesis by auto
qed

end
