(* ===== verification/Vga.thy ===== *)
theory Vga
  imports CString PortIO
begin

text \<open>
  \<^verbatim>\<open>drivers/vga.c\<close>: the text console. The state is the driver's three static variables and the
  2000 cells of video memory; an access outside the page has no defined result. The hardware
  cursor is behind two ports, so the operations also thread the device state of a bus.

  The specification is a terminal: 25 lines of 80 cells and a position. The theorems show that
  the console, with its flat index arithmetic, its scrolling in place and its wrap-around, is one.
\<close>

definition VGA_WIDTH :: u32 where "VGA_WIDTH = 80"
definition VGA_HEIGHT :: u32 where "VGA_HEIGHT = 25"
definition CRTC_INDEX :: u16 where "CRTC_INDEX = 0x3D4"
definition CRTC_DATA :: u16 where "CRTC_DATA = 0x3D5"

datatype vga_color =
    VGA_BLACK | VGA_BLUE | VGA_GREEN | VGA_CYAN | VGA_RED | VGA_MAGENTA | VGA_BROWN | VGA_LIGHT_GREY
  | VGA_DARK_GREY | VGA_LIGHT_BLUE | VGA_LIGHT_GREEN | VGA_LIGHT_CYAN | VGA_LIGHT_RED | VGA_PINK
  | VGA_YELLOW | VGA_WHITE

text \<open>The value of an enumerator; an \<open>enum vga_color\<close> parameter is passed as its 32-bit value.\<close>

fun color_code :: "vga_color \<Rightarrow> u32" where
  "color_code VGA_BLACK = 0" | "color_code VGA_BLUE = 1" | "color_code VGA_GREEN = 2"
| "color_code VGA_CYAN = 3" | "color_code VGA_RED = 4" | "color_code VGA_MAGENTA = 5"
| "color_code VGA_BROWN = 6" | "color_code VGA_LIGHT_GREY = 7" | "color_code VGA_DARK_GREY = 8"
| "color_code VGA_LIGHT_BLUE = 9" | "color_code VGA_LIGHT_GREEN = 10" | "color_code VGA_LIGHT_CYAN = 11"
| "color_code VGA_LIGHT_RED = 12" | "color_code VGA_PINK = 13" | "color_code VGA_YELLOW = 14"
| "color_code VGA_WHITE = 15"

text \<open>The colours in the order of their values, which are the numbers from 0 to 15.\<close>

lemma color_code_eq: "color_code x = color_code y \<longleftrightarrow> x = y"
  by (cases x; cases y) simp_all

instantiation vga_color :: linorder
begin

definition less_eq_vga_color :: "vga_color \<Rightarrow> vga_color \<Rightarrow> bool" where
  "less_eq_vga_color x y \<longleftrightarrow> color_code x \<le> color_code y"

definition less_vga_color :: "vga_color \<Rightarrow> vga_color \<Rightarrow> bool" where
  "less_vga_color x y \<longleftrightarrow> color_code x < color_code y"

instance
proof
  fix x y z :: vga_color
  show "x < y \<longleftrightarrow> x \<le> y \<and> \<not> y \<le> x" unfolding less_eq_vga_color_def less_vga_color_def by (rule less_le_not_le)
  show "x \<le> y \<Longrightarrow> y \<le> z \<Longrightarrow> x \<le> z" unfolding less_eq_vga_color_def by (rule order_trans)
  show "x = y" if "x \<le> y" "y \<le> x" using that unfolding less_eq_vga_color_def color_code_eq [symmetric] by (rule antisym)
  show "x \<le> y \<or> y \<le> x" unfolding less_eq_vga_color_def by (rule linear)
qed (simp add: less_eq_vga_color_def)

end

lemma color_code_greatest: "color_code x \<le> 15" "x \<le> VGA_WHITE"
  by (cases x; simp add: less_eq_vga_color_def)+

lemma color_code_number:
  assumes "n < 16"
  shows "\<exists>x. color_code x = of_nat n"
proof -
  let ?cs = "[VGA_BLACK, VGA_BLUE, VGA_GREEN, VGA_CYAN, VGA_RED, VGA_MAGENTA, VGA_BROWN, VGA_LIGHT_GREY,
    VGA_DARK_GREY, VGA_LIGHT_BLUE, VGA_LIGHT_GREEN, VGA_LIGHT_CYAN, VGA_LIGHT_RED, VGA_PINK, VGA_YELLOW, VGA_WHITE]"
  have "map color_code ?cs = map of_nat [0..<16]" by code_simp
  moreover have "map color_code ?cs ! n = color_code (?cs ! n)" using assms by (intro nth_map) simp
  moreover have "map of_nat [0..<16] ! n = (of_nat n :: u32)" using assms by simp
  ultimately show ?thesis by metis
qed

record vga =
  v_row :: u32
  v_col :: u32
  v_color :: u8
  v_cells :: "u16 list"

definition vga_entry :: "u8 \<Rightarrow> u8 \<Rightarrow> u16" where
  "vga_entry c attr = ucast c OR push_bit 8 (ucast attr)"

text \<open>The index of the current cell.\<close>

definition cell_index :: "vga \<Rightarrow> nat" where
  "cell_index v = unat (v_row v * VGA_WIDTH + v_col v)"

definition update_cursor :: "'d bus \<Rightarrow> vga \<Rightarrow> 'd \<Rightarrow> 'd" where
  "update_cursor b v d =
     (let pos = (ucast (v_row v * VGA_WIDTH + v_col v) :: u16);
          d = outb b CRTC_INDEX 0x0F d;
          d = outb b CRTC_DATA (ucast (pos AND 0xFF)) d;
          d = outb b CRTC_INDEX 0x0E d
      in outb b CRTC_DATA (ucast (drop_bit 8 pos AND 0xFF)) d)"

definition vga_set_color :: "u32 \<Rightarrow> u32 \<Rightarrow> vga \<Rightarrow> vga" where
  "vga_set_color fg bg v = v\<lparr>v_color := ucast fg OR ucast (push_bit 4 bg)\<rparr>"

text \<open>The loops over cells: storing the same entry in \<open>n\<close> cells from \<open>i\<close> on, and copying \<open>n\<close>
  cells from \<open>i\<close> on one line up, in ascending order.\<close>

fun set_cells :: "nat \<Rightarrow> nat \<Rightarrow> u16 \<Rightarrow> u16 list \<Rightarrow> u16 list option" where
  "set_cells i 0 x cells = Some cells"
| "set_cells i (Suc n) x cells = do { cells \<leftarrow> aset cells i x; set_cells (Suc i) n x cells }"

fun lift_cells :: "nat \<Rightarrow> nat \<Rightarrow> u16 list \<Rightarrow> u16 list option" where
  "lift_cells i 0 cells = Some cells"
| "lift_cells i (Suc n) cells = do {
     x \<leftarrow> aget cells i;
     cells \<leftarrow> aset cells (i - unat VGA_WIDTH) x;
     lift_cells (Suc i) n cells }"

definition vga_clear :: "'d bus \<Rightarrow> vga \<times> 'd \<Rightarrow> (vga \<times> 'd) option" where
  "vga_clear b = (\<lambda>(v, d). do {
     cells \<leftarrow> set_cells 0 (unat VGA_HEIGHT * unat VGA_WIDTH) (vga_entry 32 (v_color v)) (v_cells v);
     let v = v\<lparr>v_cells := cells, v_row := 0, v_col := 0\<rparr> in
     Some (v, update_cursor b v d) })"

definition vga_init :: "'d bus \<Rightarrow> vga \<times> 'd \<Rightarrow> (vga \<times> 'd) option" where
  "vga_init b = (\<lambda>(v, d).
     vga_clear b (vga_set_color (color_code VGA_LIGHT_GREY) (color_code VGA_BLACK) v, d))"

definition scroll :: "vga \<Rightarrow> vga option" where
  "scroll v = do {
     cells \<leftarrow> lift_cells (unat VGA_WIDTH) ((unat VGA_HEIGHT - 1) * unat VGA_WIDTH) (v_cells v);
     cells \<leftarrow> set_cells ((unat VGA_HEIGHT - 1) * unat VGA_WIDTH) (unat VGA_WIDTH)
       (vga_entry 32 (v_color v)) cells;
     Some (v\<lparr>v_cells := cells, v_row := VGA_HEIGHT - 1\<rparr>) }"

text \<open>\<open>if (++row == VGA_HEIGHT) scroll();\<close>\<close>

definition next_row :: "vga \<Rightarrow> vga option" where
  "next_row v = (let v = v\<lparr>v_row := v_row v + 1\<rparr> in if v_row v = VGA_HEIGHT then scroll v else Some v)"

definition put_cell :: "u16 \<Rightarrow> vga \<Rightarrow> vga option" where
  "put_cell x v = do { cells \<leftarrow> aset (v_cells v) (cell_index v) x; Some (v\<lparr>v_cells := cells\<rparr>) }"

definition backspace :: "vga \<Rightarrow> vga option" where
  "backspace v =
     (if v_col v > 0 then put_cell (vga_entry 32 (v_color v)) (v\<lparr>v_col := v_col v - 1\<rparr>)
      else if v_row v > 0
      then put_cell (vga_entry 32 (v_color v)) (v\<lparr>v_row := v_row v - 1, v_col := VGA_WIDTH - 1\<rparr>)
      else Some v)"

text \<open>The loop of \<open>tab\<close>, with the number of columns left to the target.\<close>

fun tab_loop :: "nat \<Rightarrow> vga \<Rightarrow> vga option" where
  "tab_loop 0 v = Some v"
| "tab_loop (Suc n) v =
     (if v_col v < VGA_WIDTH then do {
        v \<leftarrow> put_cell (vga_entry 32 (v_color v)) v;
        tab_loop n (v\<lparr>v_col := v_col v + 1\<rparr>) }
      else Some v)"

definition tab :: "vga \<Rightarrow> vga option" where
  "tab v = do {
     let target = (v_col v + 8) AND NOT 7;
     v \<leftarrow> tab_loop (unat target - unat (v_col v)) v;
     if v_col v \<ge> VGA_WIDTH then next_row (v\<lparr>v_col := 0\<rparr>) else Some v }"

definition put_plain :: "u8 \<Rightarrow> vga \<Rightarrow> vga option" where
  "put_plain c v = do {
     v \<leftarrow> put_cell (vga_entry c (v_color v)) v;
     let v = v\<lparr>v_col := v_col v + 1\<rparr> in
     if v_col v = VGA_WIDTH then next_row (v\<lparr>v_col := 0\<rparr>) else Some v }"

definition vga_putchar :: "'d bus \<Rightarrow> u8 \<Rightarrow> vga \<times> 'd \<Rightarrow> (vga \<times> 'd) option" where
  "vga_putchar b c = (\<lambda>(v, d). do {
     v \<leftarrow> (if c = 10 then next_row (v\<lparr>v_col := 0\<rparr>)
           else if c = 13 then Some (v\<lparr>v_col := 0\<rparr>)
           else if c = 8 then backspace v
           else if c = 9 then tab v
           else put_plain c v);
     Some (v, update_cursor b v d) })"

fun vga_write :: "'d bus \<Rightarrow> bytes \<Rightarrow> vga \<times> 'd \<Rightarrow> (vga \<times> 'd) option" where
  "vga_write b [] st = None"
| "vga_write b (c # s) st = (if c = 0 then Some st else do { st \<leftarrow> vga_putchar b c st; vga_write b s st })"

definition moved :: "'d bus \<Rightarrow> (vga \<Rightarrow> vga) \<Rightarrow> vga \<times> 'd \<Rightarrow> vga \<times> 'd" where
  "moved b f = (\<lambda>(v, d). (f v, update_cursor b (f v) d))"

definition vga_cursor_left :: "'d bus \<Rightarrow> vga \<times> 'd \<Rightarrow> vga \<times> 'd" where
  "vga_cursor_left b = moved b (\<lambda>v.
     if v_col v > 0 then v\<lparr>v_col := v_col v - 1\<rparr>
     else if v_row v > 0 then v\<lparr>v_row := v_row v - 1, v_col := VGA_WIDTH - 1\<rparr> else v)"

definition vga_cursor_right :: "'d bus \<Rightarrow> vga \<times> 'd \<Rightarrow> vga \<times> 'd" where
  "vga_cursor_right b = moved b (\<lambda>v.
     if v_col v < VGA_WIDTH - 1 then v\<lparr>v_col := v_col v + 1\<rparr>
     else if v_row v < VGA_HEIGHT - 1 then v\<lparr>v_row := v_row v + 1, v_col := 0\<rparr> else v)"

definition vga_cursor_up :: "'d bus \<Rightarrow> vga \<times> 'd \<Rightarrow> vga \<times> 'd" where
  "vga_cursor_up b = moved b (\<lambda>v. if v_row v > 0 then v\<lparr>v_row := v_row v - 1\<rparr> else v)"

definition vga_cursor_down :: "'d bus \<Rightarrow> vga \<times> 'd \<Rightarrow> vga \<times> 'd" where
  "vga_cursor_down b = moved b (\<lambda>v. if v_row v < VGA_HEIGHT - 1 then v\<lparr>v_row := v_row v + 1\<rparr> else v)"

subsection \<open>The terminal\<close>

record terminal =
  rows :: "u16 list list"
  cursor :: "nat \<times> nat"

definition lines_of :: "u16 list \<Rightarrow> u16 list list" where
  "lines_of cells = map (\<lambda>y. take 80 (drop (80 * y) cells)) [0..<25]"

definition terminal_of :: "vga \<Rightarrow> terminal" where
  "terminal_of v = \<lparr>rows = lines_of (v_cells v), cursor = (unat (v_row v), unat (v_col v))\<rparr>"

definition term_put :: "u16 \<Rightarrow> terminal \<Rightarrow> terminal" where
  "term_put x t = (case cursor t of (r, c) \<Rightarrow> t\<lparr>rows := (rows t)[r := (rows t ! r)[c := x]]\<rparr>)"

text \<open>Down one line, to column 0; at the bottom the lines move up and a blank one comes in.\<close>

definition term_newline :: "u16 \<Rightarrow> terminal \<Rightarrow> terminal" where
  "term_newline blank t = (case cursor t of (r, c) \<Rightarrow>
     if r < 24 then t\<lparr>cursor := (r + 1, 0)\<rparr>
     else t\<lparr>rows := tl (rows t) @ [replicate 80 blank], cursor := (24, 0)\<rparr>)"

definition term_advance :: "u16 \<Rightarrow> terminal \<Rightarrow> terminal" where
  "term_advance blank t = (case cursor t of (r, c) \<Rightarrow>
     if c < 79 then t\<lparr>cursor := (r, c + 1)\<rparr> else term_newline blank t)"

text \<open>Blank \<open>n\<close> cells, one after the other.\<close>

primrec term_blanks :: "nat \<Rightarrow> u16 \<Rightarrow> terminal \<Rightarrow> terminal" where
  "term_blanks 0 blank t = t"
| "term_blanks (Suc n) blank t = term_blanks n blank (term_advance blank (term_put blank t))"

definition term_back :: "u16 \<Rightarrow> terminal \<Rightarrow> terminal" where
  "term_back blank t = (case cursor t of (r, c) \<Rightarrow>
     if c > 0 then term_put blank (t\<lparr>cursor := (r, c - 1)\<rparr>)
     else if r > 0 then term_put blank (t\<lparr>cursor := (r - 1, 79)\<rparr>) else t)"

definition term_char :: "u8 \<Rightarrow> u8 \<Rightarrow> terminal \<Rightarrow> terminal" where
  "term_char attr c t =
     (let blank = vga_entry 32 attr in
      if c = 10 then term_newline blank t
      else if c = 13 then t\<lparr>cursor := (fst (cursor t), 0)\<rparr>
      else if c = 8 then term_back blank t
      else if c = 9 then term_blanks (8 - snd (cursor t) mod 8) blank t
      else term_advance blank (term_put (vga_entry c attr) t))"

subsection \<open>The console is a terminal\<close>

definition vga_ok :: "vga \<Rightarrow> bool" where
  "vga_ok v \<longleftrightarrow> unat (v_row v) < 25 \<and> unat (v_col v) < 80 \<and> length (v_cells v) = 2000"

lemma vga_sizes: "unat VGA_WIDTH = 80" "unat VGA_HEIGHT = 25" "VGA_WIDTH = 80" "VGA_HEIGHT = 25"
  by (simp_all add: VGA_WIDTH_def VGA_HEIGHT_def)

lemma unat_inc: "unat (x :: u32) < 100 \<Longrightarrow> unat (x + 1) = unat x + 1"
  by (subst unat_add_lem [THEN iffD1]) simp_all

lemma unat_dec: "x > 0 \<Longrightarrow> unat ((x :: u32) - 1) = unat x - 1"
  by (simp add: unat_less_sub word_gt_0 unat_sub word_le_nat_alt Suc_le_eq unat_gt_0)

lemma word_lit_less: "(x :: u32) < 80 \<longleftrightarrow> unat x < 80" "x < 25 \<longleftrightarrow> unat x < 25" "x < 79 \<longleftrightarrow> unat x < 79"
  "x < 24 \<longleftrightarrow> unat x < 24" "x = 80 \<longleftrightarrow> unat x = 80" "x = 25 \<longleftrightarrow> unat x = 25"
  by (simp_all add: word_less_nat_alt word_unat_eq_iff)

lemma cell_index_eq:
  assumes "unat (v_row v) < 25" "unat (v_col v) \<le> 80"
  shows "cell_index v = 80 * unat (v_row v) + unat (v_col v)"
proof -
  have "unat (v_row v * 80) = unat (v_row v) * 80"
    using assms(1) by (subst unat_mult_lem [THEN iffD1]) simp_all
  then show ?thesis
    using assms unfolding cell_index_def VGA_WIDTH_def by (subst unat_add_lem [THEN iffD1]) simp_all
qed

lemma length_lines_of [simp]: "length (lines_of cells) = 25"
  by (simp add: lines_of_def)

lemma line_nth: "length cells = 2000 \<Longrightarrow> y < 25 \<Longrightarrow> j < 80 \<Longrightarrow> lines_of cells ! y ! j = cells ! (80 * y + j)"
  by (simp add: lines_of_def)

lemma line_length: "length cells = 2000 \<Longrightarrow> y < 25 \<Longrightarrow> length (lines_of cells ! y) = 80"
  by (simp add: lines_of_def)

lemma lines_eqI:
  assumes "length xs = 25" "length cells = 2000" "\<And>y. y < 25 \<Longrightarrow> length (xs ! y) = 80"
    and "\<And>y j. y < 25 \<Longrightarrow> j < 80 \<Longrightarrow> cells ! (80 * y + j) = xs ! y ! j"
  shows "lines_of cells = xs"
proof (rule nth_equalityI)
  fix y assume "y < length (lines_of cells)"
  then show "lines_of cells ! y = xs ! y"
    using assms by (intro nth_equalityI) (simp_all add: line_length line_nth)
qed (simp add: assms(1))

lemma cell_unique: "80 * r + c = 80 * y + j \<Longrightarrow> c < 80 \<Longrightarrow> j < 80 \<Longrightarrow> y = r \<and> j = (c :: nat)"
proof -
  assume e: "80 * r + c = 80 * y + j" and "c < 80" "j < 80"
  then have "(80 * r + c) div 80 = r" "(80 * y + j) div 80 = y" by simp_all
  with e show ?thesis by simp
qed

lemma lines_put:
  assumes "length cells = 2000" "r < 25" "c < 80"
  shows "lines_of (cells[80 * r + c := x]) = (lines_of cells)[r := (lines_of cells ! r)[c := x]]"
proof (rule lines_eqI)
  fix y j :: nat assume yj: "y < 25" "j < 80"
  show "cells[80 * r + c := x] ! (80 * y + j) = (lines_of cells)[r := (lines_of cells ! r)[c := x]] ! y ! j"
  proof (cases "y = r \<and> j = c")
    case True
    with assms show ?thesis by (simp add: line_length)
  next
    case False
    then have "80 * r + c \<noteq> 80 * y + j" using cell_unique yj assms(3) by blast
    then have "cells[80 * r + c := x] ! (80 * y + j) = cells ! (80 * y + j)" by (rule nth_list_update_neq)
    with False yj assms show ?thesis by (cases "y = r") (auto simp: line_nth)
  qed
next
  fix y :: nat assume "y < 25"
  with assms show "length ((lines_of cells)[r := (lines_of cells ! r)[c := x]] ! y) = 80"
    by (cases "y = r") (simp_all add: line_length)
qed (use assms in simp_all)

lemma set_cells_eq:
  "i + n \<le> length cells \<Longrightarrow> set_cells i n x cells = Some (take i cells @ replicate n x @ drop (i + n) cells)"
proof (induction n arbitrary: i cells)
  case (Suc n)
  have "take (Suc i) (cells[i := x]) = take i cells @ [x]"
    using Suc.prems by (simp add: take_Suc_conv_app_nth)
  with Suc.IH [of "Suc i" "cells[i := x]"] Suc.prems show ?case by (simp add: aset_def)
qed simp

lemma lift_cells_eq:
  "80 \<le> i \<Longrightarrow> i + n \<le> length cells \<Longrightarrow>
   lift_cells i n cells = Some (take (i - 80) cells @ take n (drop i cells) @ drop (i - 80 + n) cells)"
proof (induction n arbitrary: i cells)
  case 0
  then show ?case by simp
next
  case (Suc n)
  let ?c = "cells[i - 80 := cells ! i]"
  have i: "i - 80 < length cells" "i < length cells" using Suc.prems by auto
  have "Suc i - 80 = Suc (i - 80)" using Suc.prems(1) by simp
  then have "take (Suc i - 80) ?c = take (i - 80) cells @ [cells ! i]"
    using i by (simp only: take_Suc_conv_app_nth length_list_update) simp
  moreover have "drop (Suc i) ?c = drop (Suc i) cells" using Suc.prems(1) by simp
  moreover have "drop (Suc i - 80 + n) ?c = drop (i - 80 + Suc n) cells"
  proof -
    have "Suc i - 80 + n = i - 80 + Suc n" using Suc.prems(1) by simp
    then show ?thesis by (simp only: drop_update_cancel less_add_Suc1)
  qed
  moreover have "lift_cells i (Suc n) cells = lift_cells (Suc i) n ?c"
    using i by (simp add: aget_def aset_def vga_sizes)
  moreover have "take (Suc n) (drop i cells) = cells ! i # take n (drop (Suc i) cells)"
    using i by (simp add: nth_drop_Cons)
  ultimately show ?case using Suc.IH [of "Suc i" ?c] Suc.prems by simp
qed

lemma scroll_eq:
  assumes "length (v_cells v) = 2000"
  shows "scroll v = Some (v\<lparr>v_cells := drop 80 (v_cells v) @ replicate 80 (vga_entry 32 (v_color v)), v_row := 24\<rparr>)"
  using assms by (simp add: scroll_def vga_sizes lift_cells_eq set_cells_eq)

lemma lines_scroll:
  assumes "length cells = 2000"
  shows "lines_of (drop 80 cells @ replicate 80 x) = tl (lines_of cells) @ [replicate 80 x]"
proof (rule lines_eqI)
  fix y j :: nat assume yj: "y < 25" "j < 80"
  show "(drop 80 cells @ replicate 80 x) ! (80 * y + j) = (tl (lines_of cells) @ [replicate 80 x]) ! y ! j"
  proof (cases "y < 24")
    case True
    then have "80 + (80 * y + j) = 80 * Suc y + j" by simp
    with True yj assms show ?thesis
      by (simp add: nth_append nth_tl line_nth [of cells "Suc y" j, symmetric] del: mult_Suc_right)
         (simp add: line_nth add.assoc)
  next
    case False
    with yj have "y = 24" by simp
    with yj assms show ?thesis by (simp add: nth_append)
  qed
qed (use assms in \<open>auto simp: nth_append nth_tl line_length\<close>)

lemma vga_okD: "vga_ok v \<Longrightarrow> unat (v_row v) < 25 \<and> unat (v_col v) < 80 \<and> length (v_cells v) = 2000"
  by (simp add: vga_ok_def)

lemma put_cell_refines:
  assumes "vga_ok v"
  shows "\<exists>v'. put_cell x v = Some v' \<and> vga_ok v' \<and> terminal_of v' = term_put x (terminal_of v) \<and>
    v_row v' = v_row v \<and> v_col v' = v_col v \<and> v_color v' = v_color v"
  using vga_okD [OF assms] assms
  by (simp add: put_cell_def cell_index_eq aset_def vga_ok_def terminal_of_def term_put_def lines_put)

lemma next_row_refines:
  assumes "unat (v_row v) < 25" "length (v_cells v) = 2000" "v_col v = 0"
  shows "\<exists>v'. next_row v = Some v' \<and> vga_ok v' \<and> v_color v' = v_color v \<and>
    terminal_of v' = term_newline (vga_entry 32 (v_color v)) (terminal_of v)"
  using assms unat_inc [of "v_row v"]
  by (auto simp: next_row_def Let_def word_lit_less vga_sizes scroll_eq vga_ok_def terminal_of_def
      term_newline_def lines_scroll)

lemma term_newline_column: "term_newline x (t\<lparr>cursor := (fst (cursor t), c)\<rparr>) = term_newline x t"
  by (auto simp: term_newline_def split: prod.splits)

lemma terminal_column: "terminal_of (v\<lparr>v_col := c\<rparr>) = (terminal_of v)\<lparr>cursor := (unat (v_row v), unat c)\<rparr>"
  by (simp add: terminal_of_def)

lemma next_line_refines:
  assumes "unat (v_row v) < 25" "length (v_cells v) = 2000"
  shows "\<exists>v'. next_row (v\<lparr>v_col := 0\<rparr>) = Some v' \<and> vga_ok v' \<and> v_color v' = v_color v \<and>
    terminal_of v' = term_newline (vga_entry 32 (v_color v)) (terminal_of v)"
proof -
  have "term_newline x (terminal_of (v\<lparr>v_col := 0\<rparr>)) = term_newline x (terminal_of v)" for x
    using term_newline_column [of x "terminal_of v" 0] by (simp add: terminal_column terminal_of_def)
  with next_row_refines [of "v\<lparr>v_col := 0\<rparr>"] assms show ?thesis by simp
qed

text \<open>After storing a cell: one column on, at the end of the line one line down.\<close>

lemma step_right_refines:
  assumes "vga_ok v"
  shows "\<exists>v'. (let v = v\<lparr>v_col := v_col v + 1\<rparr> in
      if v_col v = VGA_WIDTH then next_row (v\<lparr>v_col := 0\<rparr>) else Some v) = Some v' \<and> vga_ok v' \<and>
    v_color v' = v_color v \<and> terminal_of v' = term_advance (vga_entry 32 (v_color v)) (terminal_of v)"
proof (cases "unat (v_col v) < 79")
  case True
  with vga_okD [OF assms] unat_inc [of "v_col v"] show ?thesis
    by (simp add: Let_def word_lit_less vga_sizes vga_ok_def terminal_of_def term_advance_def)
next
  case False
  with vga_okD [OF assms] have "unat (v_col v) = 79" by simp
  with unat_inc [of "v_col v"] next_line_refines [of v] vga_okD [OF assms] show ?thesis
    by (simp add: Let_def word_lit_less vga_sizes) (simp add: term_advance_def terminal_of_def)
qed

lemma put_plain_refines:
  assumes "vga_ok v"
  shows "\<exists>v'. put_plain c v = Some v' \<and> vga_ok v' \<and> v_color v' = v_color v \<and>
    terminal_of v' = term_advance (vga_entry 32 (v_color v)) (term_put (vga_entry c (v_color v)) (terminal_of v))"
proof -
  from put_cell_refines [OF assms, of "vga_entry c (v_color v)"] obtain v1 where
    v1: "put_cell (vga_entry c (v_color v)) v = Some v1" "vga_ok v1" "v_color v1 = v_color v"
    "terminal_of v1 = term_put (vga_entry c (v_color v)) (terminal_of v)" by blast
  with step_right_refines [OF v1(2)] show ?thesis by (simp add: put_plain_def)
qed

lemma backspace_refines:
  assumes "vga_ok v"
  shows "\<exists>v'. backspace v = Some v' \<and> vga_ok v' \<and> v_color v' = v_color v \<and>
    terminal_of v' = term_back (vga_entry 32 (v_color v)) (terminal_of v)"
proof -
  note ok = vga_okD [OF assms]
  let ?x = "vga_entry 32 (v_color v)"
  consider "v_col v \<noteq> 0" | "v_col v = 0" "v_row v \<noteq> 0" | "v_col v = 0" "v_row v = 0" by blast
  then show ?thesis
  proof cases
    case 1
    then have pos: "v_col v > 0" by (simp add: word_gt_0)
    then have c: "unat (v_col v - 1) = unat (v_col v) - 1" "0 < unat (v_col v)"
      using unat_dec by (simp_all add: unat_gt_0)
    with ok have "vga_ok (v\<lparr>v_col := v_col v - 1\<rparr>)" by (simp add: vga_ok_def less_imp_diff_less)
    from put_cell_refines [OF this, of ?x] pos c show ?thesis
      by (auto simp: backspace_def term_back_def terminal_of_def)
  next
    case 2
    then have pos: "v_row v > 0" by (simp add: word_gt_0)
    then have r: "unat (v_row v - 1) = unat (v_row v) - 1" "0 < unat (v_row v)"
      using unat_dec by (simp_all add: unat_gt_0)
    with ok have "vga_ok (v\<lparr>v_row := v_row v - 1, v_col := VGA_WIDTH - 1\<rparr>)"
      by (simp add: vga_ok_def vga_sizes less_imp_diff_less)
    from put_cell_refines [OF this, of ?x] 2 pos r show ?thesis
      by (auto simp: backspace_def term_back_def terminal_of_def vga_sizes)
  next
    case 3
    with assms show ?thesis by (simp add: backspace_def term_back_def terminal_of_def)
  qed
qed

text \<open>The tab stops divide the width, so the run of blanks ends at the latest with the line.\<close>

lemma tab_loop_refines:
  "vga_ok v \<Longrightarrow> unat (v_col v) + n \<le> 80 \<Longrightarrow> 0 < n \<Longrightarrow>
   \<exists>v'. (do { v \<leftarrow> tab_loop n v;
              if v_col v \<ge> VGA_WIDTH then next_row (v\<lparr>v_col := 0\<rparr>) else Some v }) = Some v' \<and>
     vga_ok v' \<and> v_color v' = v_color v \<and>
     terminal_of v' = term_blanks n (vga_entry 32 (v_color v)) (terminal_of v)"
proof (induction n arbitrary: v)
  case (Suc n)
  let ?x = "vga_entry 32 (v_color v)"
  from put_cell_refines [OF Suc.prems(1), of ?x] obtain v1 where
    v1: "put_cell ?x v = Some v1" "vga_ok v1" "v_color v1 = v_color v" "v_col v1 = v_col v"
    "terminal_of v1 = term_put ?x (terminal_of v)" by blast
  let ?v = "v1\<lparr>v_col := v_col v1 + 1\<rparr>"
  have lt: "v_col v < VGA_WIDTH" using vga_okD [OF Suc.prems(1)] by (simp add: vga_sizes word_lit_less)
  have inc: "unat (v_col v + 1) = unat (v_col v) + 1"
    using vga_okD [OF Suc.prems(1)] by (intro unat_inc) simp
  show ?case
  proof (cases "unat (v_col v) < 79")
    case True
    then have adv: "term_advance ?x (terminal_of v1) = terminal_of ?v"
      using v1(4) inc by (simp add: term_advance_def terminal_of_def)
    have ok: "vga_ok ?v" using v1(2,4) True inc by (simp add: vga_ok_def)
    show ?thesis
    proof (cases "n = 0")
      case True
      then show ?thesis using v1 lt ok adv vga_okD [OF ok] inc
        by (simp add: vga_sizes word_le_nat_alt)
    next
      case False
      then show ?thesis using Suc.IH [OF ok] Suc.prems(2) v1 lt inc adv by simp
    qed
  next
    case False
    then have c: "unat (v_col v) = 79" "n = 0" using Suc.prems(2) vga_okD [OF Suc.prems(1)] by auto
    with inc have ge: "v_col v + 1 \<ge> VGA_WIDTH" by (simp add: vga_sizes word_le_nat_alt)
    have adv: "term_advance ?x (terminal_of v1) = term_newline ?x (terminal_of v1)"
      using c v1(4) by (simp add: term_advance_def terminal_of_def)
    from next_line_refines [of v1] vga_okD [OF v1(2)] obtain v' where
      "next_row (v1\<lparr>v_col := 0\<rparr>) = Some v'" "vga_ok v'" "v_color v' = v_color v"
      "terminal_of v' = term_newline ?x (terminal_of v1)" using v1(3) by auto
    then show ?thesis using c v1 lt ge adv by simp
  qed
qed simp

lemma tab_target:
  assumes "unat (c :: u32) < 80"
  shows "unat ((c + 8) AND NOT 7) = unat c + (8 - unat c mod 8)"
proof -
  have "unat (c + 8) = unat c + 8" using assms by (subst unat_add_lem [THEN iffD1]) simp_all
  moreover have "unat ((c + 8) div 8 * 8) = unat (c + 8) div 8 * 8"
    using calculation assms by (subst unat_mult_lem [THEN iffD1]) (simp_all add: unat_div)
  moreover have "(unat c + 8) div 8 = unat c div 8 + 1" by simp
  moreover have "8 * (unat c div 8) + unat c mod 8 = unat c" "unat c mod 8 < 8" by simp_all
  ultimately have "unat ((c + 8) div 8 * 8) = (unat c div 8 + 1) * 8" by simp
  moreover have "unat c = unat c div 8 * 8 + unat c mod 8" "unat c mod 8 < 8" by simp_all
  ultimately show ?thesis unfolding and_not_7 by arith
qed

lemma tab_refines:
  assumes "vga_ok v"
  shows "\<exists>v'. tab v = Some v' \<and> vga_ok v' \<and> v_color v' = v_color v \<and>
    terminal_of v' = term_blanks (8 - unat (v_col v) mod 8) (vga_entry 32 (v_color v)) (terminal_of v)"
proof -
  have c: "unat (v_col v) < 80" using vga_okD [OF assms] by simp
  let ?n = "8 - unat (v_col v) mod 8"
  have n: "unat ((v_col v + 8) AND NOT 7) - unat (v_col v) = ?n" by (simp only: tab_target [OF c] diff_add_inverse)
  have "unat (v_col v) = unat (v_col v) div 8 * 8 + unat (v_col v) mod 8" "unat (v_col v) mod 8 < 8"
    "unat (v_col v) div 8 < 10" using c by simp_all
  then have "unat (v_col v) + ?n \<le> 80" "0 < ?n" by arith+
  from tab_loop_refines [OF assms this] show ?thesis unfolding tab_def Let_def n by simp
qed

lemma vga_putchar_refines:
  assumes "vga_ok v"
  obtains v' where "vga_putchar b c (v, d) = Some (v', update_cursor b v' d)" "vga_ok v'" "v_color v' = v_color v"
    "terminal_of v' = term_char (v_color v) c (terminal_of v)"
proof -
  let ?step = "if c = 10 then next_row (v\<lparr>v_col := 0\<rparr>) else if c = 13 then Some (v\<lparr>v_col := 0\<rparr>)
    else if c = 8 then backspace v else if c = 9 then tab v else put_plain c v"
  have "\<exists>v'. ?step = Some v' \<and> vga_ok v' \<and> v_color v' = v_color v \<and>
    terminal_of v' = term_char (v_color v) c (terminal_of v)"
  proof -
    note ok = vga_okD [OF assms]
    consider "c = 10" | "c = 13" | "c = 8" | "c = 9" | "c \<noteq> 10" "c \<noteq> 13" "c \<noteq> 8" "c \<noteq> 9" by blast
    then show ?thesis
    proof cases
      case 1 with next_line_refines [of v] ok show ?thesis by (simp add: term_char_def)
    next
      case 2 with ok show ?thesis by (simp add: term_char_def vga_ok_def terminal_of_def)
    next
      case 3 with backspace_refines [OF assms] show ?thesis by (simp add: term_char_def)
    next
      case 4 with tab_refines [OF assms] show ?thesis by (simp add: term_char_def terminal_of_def)
    next
      case 5 with put_plain_refines [OF assms, of c] show ?thesis by (simp add: term_char_def)
    qed
  qed
  with that show thesis unfolding vga_putchar_def by auto
qed

text \<open>What the ports see: the low and the high byte of the flat position.\<close>

definition flat :: "terminal \<Rightarrow> nat" where
  "flat t = (case cursor t of (r, c) \<Rightarrow> 80 * r + c)"

definition cursor_bytes :: "vga \<Rightarrow> u8 \<times> u8" where
  "cursor_bytes v = (let pos = (ucast (v_row v * VGA_WIDTH + v_col v) :: u16)
     in (ucast (drop_bit 8 pos AND 0xFF), ucast (pos AND 0xFF)))"

lemma flat_terminal_of: "vga_ok v \<Longrightarrow> flat (terminal_of v) = cell_index v \<and> cell_index v < 2000"
  using vga_okD [of v] by (simp add: flat_def terminal_of_def cell_index_eq)

lemma cursor_bytes_flat:
  assumes "vga_ok v" "cursor_bytes v = (hi, lo)"
  shows "256 * unat hi + unat lo = flat (terminal_of v)"
proof -
  define pos where "pos = (ucast (v_row v * VGA_WIDTH + v_col v) :: u16)"
  have pos: "unat pos = flat (terminal_of v)" "unat pos < 2000"
    using flat_terminal_of [OF assms(1)]
    by (simp_all add: pos_def cell_index_def unsigned_ucast_eq take_bit_nat_eq_self)
  have b: "unat (ucast (w AND 0xFF :: u16) :: u8) = unat w mod 256" for w :: u16
  proof -
    have "unat (w AND 0xFF) = unat w mod 256"
      unfolding unsigned_and_eq using take_bit_eq_mask [of 8 "unat w"]
      by (simp add: take_bit_eq_mod mask_eq_exp_minus_1)
    then show ?thesis by (simp only: unsigned_ucast_eq take_bit_eq_mod) simp
  qed
  have "unat (drop_bit 8 pos) = unat pos div 256" by (simp add: drop_bit_eq_div unat_div)
  with assms(2) have "unat hi = unat pos div 256 mod 256" "unat lo = unat pos mod 256"
    by (auto simp: cursor_bytes_def pos_def [symmetric] b)
  with pos show ?thesis by simp
qed

lemma update_cursor_log:
  "update_cursor (log_bus rb rw) v d =
   [OutB CRTC_DATA (fst (cursor_bytes v)), OutB CRTC_INDEX 0x0E,
    OutB CRTC_DATA (snd (cursor_bytes v)), OutB CRTC_INDEX 0x0F] @ d"
  by (simp add: update_cursor_def cursor_bytes_def Let_def outb_def log_bus_def)

lemma vga_clear_eq:
  assumes "length (v_cells v) = 2000"
  shows "vga_clear b (v, d) = (let v' = v\<lparr>v_cells := replicate 2000 (vga_entry 32 (v_color v)), v_row := 0, v_col := 0\<rparr>
    in Some (v', update_cursor b v' d))"
  using assms by (simp add: vga_clear_def vga_sizes set_cells_eq Let_def)

lemma lines_blank: "lines_of (replicate 2000 x) = replicate 25 (replicate 80 x)"
  by (rule lines_eqI) simp_all

lemma vga_write_fold:
  "vga_ok v \<Longrightarrow> 0 \<notin> set t \<Longrightarrow> \<exists>v' d'. vga_write b (t @ 0 # rest) (v, d) = Some (v', d') \<and> vga_ok v' \<and>
     v_color v' = v_color v \<and> terminal_of v' = fold (term_char (v_color v)) t (terminal_of v)"
proof (induction t arbitrary: v d)
  case (Cons c t)
  from vga_putchar_refines [OF Cons.prems(1), of b c d] obtain v1 where
    v1: "vga_putchar b c (v, d) = Some (v1, update_cursor b v1 d)" "vga_ok v1" "v_color v1 = v_color v"
    "terminal_of v1 = term_char (v_color v) c (terminal_of v)" .
  from Cons.IH [OF v1(2), of "update_cursor b v1 d"] Cons.prems(2) v1 show ?case by auto
qed simp

subsection \<open>Properties\<close>

text \<open>
  C28: Writing a string on the console never leaves video memory and has exactly the effect that
  its characters have, one after the other, on a terminal of 25 lines of 80 cells: printable
  characters, newline with scrolling, carriage return, backspace over line ends, and tabs.
\<close>

theorem vga_write_terminal:
  assumes "vga_ok v" and "0 \<notin> set t"
  shows "\<exists>v' d'. vga_write b (t @ 0 # rest) (v, d) = Some (v', d') \<and> vga_ok v' \<and> v_color v' = v_color v \<and>
    terminal_of v' = fold (term_char (v_color v)) t (terminal_of v)"
  using assms by (rule vga_write_fold)

definition demo_vga :: vga where
  "demo_vga = \<lparr>v_row = 24, v_col = 78, v_color = 7, v_cells = replicate 2000 0\<rparr>"

lemma demo_vga_ok: "vga_ok demo_vga"
  by (simp add: vga_ok_def demo_vga_def)

theorem vga_write_terminal_witness:
  "\<exists>v' d'. vga_write (log_bus (\<lambda>_ _. 0) (\<lambda>_ _. 0)) ([72, 105, 10, 8] @ 0 # []) (demo_vga, []) = Some (v', d') \<and>
     vga_ok v' \<and> v_color v' = v_color demo_vga \<and>
     terminal_of v' = fold (term_char (v_color demo_vga)) [72, 105, 10, 8] (terminal_of demo_vga)"
  using demo_vga_ok by (rule vga_write_terminal) simp

text \<open>
  Every character moves the hardware cursor to where the next one goes: the two register
  writes that a character causes carry the low and the high byte of the new position.
\<close>

theorem vga_putchar_cursor:
  assumes "vga_ok v"
  shows "\<exists>v' hi lo. vga_putchar (log_bus rb rw) c (v, d) =
      Some (v', [OutB 0x3D5 hi, OutB 0x3D4 0x0E, OutB 0x3D5 lo, OutB 0x3D4 0x0F] @ d) \<and>
    256 * unat hi + unat lo = flat (term_char (v_color v) c (terminal_of v)) \<and> 256 * unat hi + unat lo < 2000"
proof -
  from vga_putchar_refines [OF assms, of "log_bus rb rw" c d] obtain v' where
    v': "vga_putchar (log_bus rb rw) c (v, d) = Some (v', update_cursor (log_bus rb rw) v' d)" "vga_ok v'"
    "terminal_of v' = term_char (v_color v) c (terminal_of v)" .
  obtain hi lo where b: "cursor_bytes v' = (hi, lo)" by fastforce
  with cursor_bytes_flat [OF v'(2) b] flat_terminal_of [OF v'(2)] v' show ?thesis
    by (auto simp: update_cursor_log CRTC_INDEX_def CRTC_DATA_def)
qed

theorem vga_putchar_cursor_witness:
  "\<exists>v' hi lo. vga_putchar (log_bus (\<lambda>_ _. 0) (\<lambda>_ _. 0)) 65 (demo_vga, []) =
      Some (v', [OutB 0x3D5 hi, OutB 0x3D4 0x0E, OutB 0x3D5 lo, OutB 0x3D4 0x0F] @ []) \<and>
    256 * unat hi + unat lo = flat (term_char (v_color demo_vga) 65 (terminal_of demo_vga)) \<and>
    256 * unat hi + unat lo < 2000"
  using demo_vga_ok by (rule vga_putchar_cursor)

text \<open>
  Whatever the page and the variables hold at power-on, \<open>vga_init\<close> leaves a blank page in light
  grey on black with the position, and the hardware cursor, at the top left.
\<close>

theorem vga_init_blank:
  assumes "length (v_cells v) = 2000"
  shows "\<exists>v'. vga_init (log_bus rb rw) (v, d) =
      Some (v', [OutB 0x3D5 0, OutB 0x3D4 0x0E, OutB 0x3D5 0, OutB 0x3D4 0x0F] @ d) \<and>
    vga_ok v' \<and> terminal_of v' = \<lparr>rows = replicate 25 (replicate 80 0x0720), cursor = (0, 0)\<rparr>"
proof -
  have x: "vga_entry 32 7 = 0x0720" by (simp add: vga_entry_def)
  show ?thesis
    using assms vga_clear_eq [of "vga_set_color 7 0 v" "log_bus rb rw" d]
    by (simp add: vga_init_def vga_set_color_def Let_def update_cursor_log cursor_bytes_def
        CRTC_INDEX_def CRTC_DATA_def vga_ok_def terminal_of_def lines_blank x)
qed

theorem vga_init_blank_witness:
  "\<exists>v'. vga_init (log_bus (\<lambda>_ _. 0) (\<lambda>_ _. 0)) (demo_vga, []) =
      Some (v', [OutB 0x3D5 0, OutB 0x3D4 0x0E, OutB 0x3D5 0, OutB 0x3D4 0x0F] @ []) \<and>
    vga_ok v' \<and> terminal_of v' = \<lparr>rows = replicate 25 (replicate 80 0x0720), cursor = (0, 0)\<rparr>"
  by (rule vga_init_blank) (simp add: demo_vga_def)

text \<open>
  The cursor moves leave the page alone and stay on it. Left and right step through the flat
  positions and stop at the two ends; up and down step by whole lines and stop at the first and last.
\<close>

theorem vga_cursor_moves:
  assumes "vga_ok v"
  shows "\<forall>(move, target) \<in> set
      [(vga_cursor_left b, flat (terminal_of v) - 1),
       (vga_cursor_right b, min 1999 (flat (terminal_of v) + 1)),
       (vga_cursor_up b, if flat (terminal_of v) < 80 then flat (terminal_of v) else flat (terminal_of v) - 80),
       (vga_cursor_down b, if flat (terminal_of v) < 1920 then flat (terminal_of v) + 80 else flat (terminal_of v))].
    \<exists>v'. move (v, d) = (v', update_cursor b v' d) \<and> vga_ok v' \<and> v_cells v' = v_cells v \<and>
      v_color v' = v_color v \<and> flat (terminal_of v') = target"
proof -
  note ok = vga_okD [OF assms]
  note defs = moved_def vga_ok_def flat_def terminal_of_def vga_sizes word_lit_less
  have inc: "unat (v_col v + 1) = unat (v_col v) + 1" "unat (v_row v + 1) = unat (v_row v) + 1"
    using ok by (simp_all add: unat_inc)
  have dec: "0 < unat (v_col v) \<Longrightarrow> unat (v_col v - 1) = unat (v_col v) - 1"
    "0 < unat (v_row v) \<Longrightarrow> unat (v_row v - 1) = unat (v_row v) - 1"
    using unat_dec by (simp_all add: word_gt_0 unat_gt_0)
  have pos: "0 < v_col v \<longleftrightarrow> 0 < unat (v_col v)" "0 < v_row v \<longleftrightarrow> 0 < unat (v_row v)"
    by (simp_all add: word_gt_0 unat_gt_0)
  have "\<exists>v'. vga_cursor_left b (v, d) = (v', update_cursor b v' d) \<and> vga_ok v' \<and> v_cells v' = v_cells v \<and>
      v_color v' = v_color v \<and> flat (terminal_of v') = flat (terminal_of v) - 1"
    using ok dec by (auto simp: vga_cursor_left_def defs pos less_imp_diff_less diff_mult_distrib2)
  moreover have "\<exists>v'. vga_cursor_right b (v, d) = (v', update_cursor b v' d) \<and> vga_ok v' \<and> v_cells v' = v_cells v \<and>
      v_color v' = v_color v \<and> flat (terminal_of v') = min 1999 (flat (terminal_of v) + 1)"
    using ok inc by (auto simp: vga_cursor_right_def defs)
  moreover have "\<exists>v'. vga_cursor_up b (v, d) = (v', update_cursor b v' d) \<and> vga_ok v' \<and> v_cells v' = v_cells v \<and>
      v_color v' = v_color v \<and> flat (terminal_of v') =
        (if flat (terminal_of v) < 80 then flat (terminal_of v) else flat (terminal_of v) - 80)"
    using ok dec by (auto simp: vga_cursor_up_def defs pos less_imp_diff_less diff_mult_distrib2)
  moreover have "\<exists>v'. vga_cursor_down b (v, d) = (v', update_cursor b v' d) \<and> vga_ok v' \<and> v_cells v' = v_cells v \<and>
      v_color v' = v_color v \<and> flat (terminal_of v') =
        (if flat (terminal_of v) < 1920 then flat (terminal_of v) + 80 else flat (terminal_of v))"
    using ok inc by (auto simp: vga_cursor_down_def defs)
  ultimately show ?thesis by simp
qed

theorem vga_cursor_moves_witness:
  "\<forall>(move, target) \<in> set
      [(vga_cursor_left (log_bus (\<lambda>_ _. 0) (\<lambda>_ _. 0)), flat (terminal_of demo_vga) - 1),
       (vga_cursor_right (log_bus (\<lambda>_ _. 0) (\<lambda>_ _. 0)), min 1999 (flat (terminal_of demo_vga) + 1)),
       (vga_cursor_up (log_bus (\<lambda>_ _. 0) (\<lambda>_ _. 0)),
          if flat (terminal_of demo_vga) < 80 then flat (terminal_of demo_vga) else flat (terminal_of demo_vga) - 80),
       (vga_cursor_down (log_bus (\<lambda>_ _. 0) (\<lambda>_ _. 0)),
          if flat (terminal_of demo_vga) < 1920 then flat (terminal_of demo_vga) + 80 else flat (terminal_of demo_vga))].
    \<exists>v'. move (demo_vga, []) = (v', update_cursor (log_bus (\<lambda>_ _. 0) (\<lambda>_ _. 0)) v' []) \<and> vga_ok v' \<and>
      v_cells v' = v_cells demo_vga \<and> v_color v' = v_color demo_vga \<and> flat (terminal_of v') = target"
  using demo_vga_ok by (rule vga_cursor_moves)

end
