(* ===== verification/Interrupts.thy ===== *)
theory Interrupts
  imports Gdt Vga
begin

text \<open>
  \<^verbatim>\<open>kernel/idt.c\<close> and \<^verbatim>\<open>kernel/isr.c\<close>: the interrupt table, the two interrupt controllers, the
  handler slots and the two functions that run when an interrupt fires. The entry points of the
  stubs of \<^verbatim>\<open>boot/isr.s\<close> are addresses the linker chooses, so they are parameters. A handler is a
  value of any type \<open>'h\<close>, and calling one is a parameter \<open>call\<close>; the kernel's own handlers are
  the two values of \<open>irq_callback\<close>.
\<close>

subsection \<open>The table\<close>

record idt_entry =
  offset_low :: u16
  selector :: u16
  zero :: u8
  gate_flags :: u8
  offset_high :: u16

record idt_pointer =
  ip_limit :: u16
  ip_base :: u32

definition IDT_ENTRIES :: nat where "IDT_ENTRIES = 256"

definition idt_set_gate ::
    "u8 \<Rightarrow> u32 \<Rightarrow> u16 \<Rightarrow> u8 \<Rightarrow> idt_entry list \<Rightarrow> idt_entry list option" where
  "idt_set_gate num handler sel flags idt = aset idt (unat num)
     \<lparr>offset_low = ucast (handler AND 0xFFFF), selector = sel, zero = 0, gate_flags = flags,
      offset_high = ucast (drop_bit 16 handler AND 0xFFFF)\<rparr>"

text \<open>A run of gates: \<open>n\<close> of them from \<open>first\<close> on, with the handlers \<open>h 0\<close>, \<open>h 1\<close>, and so on.\<close>

fun set_gates ::
    "nat \<Rightarrow> nat \<Rightarrow> (nat \<Rightarrow> u32) \<Rightarrow> u16 \<Rightarrow> u8 \<Rightarrow> idt_entry list \<Rightarrow> idt_entry list option" where
  "set_gates first 0 h sel flags idt = Some idt"
| "set_gates first (Suc n) h sel flags idt = do {
     idt \<leftarrow> idt_set_gate (of_nat first) (h 0) sel flags idt;
     set_gates (Suc first) n (\<lambda>i. h (Suc i)) sel flags idt }"

subsection \<open>The interrupt controllers\<close>

definition PIC1_CMD :: u16 where "PIC1_CMD = 0x20"
definition PIC1_DATA :: u16 where "PIC1_DATA = 0x21"
definition PIC2_CMD :: u16 where "PIC2_CMD = 0xA0"
definition PIC2_DATA :: u16 where "PIC2_DATA = 0xA1"

text \<open>\<open>outb(port, v); io_wait();\<close>\<close>

definition out_wait :: "'d bus \<Rightarrow> u16 \<Rightarrow> u8 \<Rightarrow> 'd \<Rightarrow> 'd" where
  "out_wait b port v d = io_wait b (outb b port v d)"

definition pic_remap :: "'d bus \<Rightarrow> 'd \<Rightarrow> 'd" where
  "pic_remap b d =
     (let (mask1, d) = inb b PIC1_DATA d;
          (mask2, d) = inb b PIC2_DATA d;
          d = out_wait b PIC1_CMD 0x11 d;
          d = out_wait b PIC2_CMD 0x11 d;
          d = out_wait b PIC1_DATA 0x20 d;
          d = out_wait b PIC2_DATA 0x28 d;
          d = out_wait b PIC1_DATA 0x04 d;
          d = out_wait b PIC2_DATA 0x02 d;
          d = out_wait b PIC1_DATA 0x01 d;
          d = out_wait b PIC2_DATA 0x01 d;
          d = outb b PIC1_DATA mask1 d
      in outb b PIC2_DATA mask2 d)"

text \<open>\<open>isr\<close> and \<open>irq\<close> are the addresses of the stubs, \<open>addr\<close> that of the table.\<close>

definition idt_init :: "'d bus \<Rightarrow> u32 \<Rightarrow> (nat \<Rightarrow> u32) \<Rightarrow> (nat \<Rightarrow> u32) \<Rightarrow> idt_entry list \<times> 'd \<Rightarrow>
    (idt_pointer \<times> idt_entry list \<times> 'd) option" where
  "idt_init b addr isr irq = (\<lambda>(idt, d). do {
     let ptr = \<lparr>ip_limit = of_nat (8 * length idt - 1), ip_base = addr\<rparr>;
     idt \<leftarrow> set_gates 0 IDT_ENTRIES (\<lambda>_. 0) 0 0 idt;
     let d = pic_remap b d;
     idt \<leftarrow> set_gates 0 32 isr 0x08 0x8E idt;
     idt \<leftarrow> set_gates 32 16 irq 0x08 0x8E idt;
     Some (ptr, idt, d) })"

subsection \<open>Running an interrupt\<close>

record registers =
  r_ds :: u32
  r_edi :: u32
  r_esi :: u32
  r_ebp :: u32
  r_esp :: u32
  r_ebx :: u32
  r_edx :: u32
  r_ecx :: u32
  r_eax :: u32
  int_no :: u32
  err_code :: u32
  r_eip :: u32
  r_cs :: u32
  r_eflags :: u32
  r_useresp :: u32
  r_ss :: u32

definition exception_names :: "bytes list" where
  "exception_names = map literal
    [''Divide by zero'', ''Debug'', ''Non-maskable interrupt'', ''Breakpoint'', ''Overflow'',
     ''Bound range exceeded'', ''Invalid opcode'', ''Device not available'', ''Double fault'',
     ''Coprocessor segment overrun'', ''Invalid TSS'', ''Segment not present'',
     ''Stack-segment fault'', ''General protection fault'', ''Page fault'', ''Reserved'',
     ''x87 floating point'', ''Alignment check'', ''Machine check'', ''SIMD floating point'',
     ''Virtualization'', ''Control protection'', ''Reserved'', ''Reserved'', ''Reserved'',
     ''Reserved'', ''Reserved'', ''Reserved'', ''Hypervisor injection'', ''VMM communication'',
     ''Security'', ''Reserved'']"

text \<open>The functions of the kernel that handle an interrupt.\<close>

datatype irq_callback = Timer_callback | Keyboard_callback

text \<open>The slots before any handler is installed.\<close>

definition irq_handlers :: "'h option list" where
  "irq_handlers = replicate 16 None"

definition irq_install_handler :: "int \<Rightarrow> 'h \<Rightarrow> 'h option list \<Rightarrow> 'h option list option" where
  "irq_install_handler num handler slots =
     (if num \<ge> 0 \<and> num < 16 then aset slots (nat num) (Some handler) else Some slots)"

text \<open>\<open>isr_handler\<close> does not return; its value is the console at the halt, with the devices.\<close>

definition isr_handler :: "'d bus \<Rightarrow> registers \<Rightarrow> vga \<times> 'd \<Rightarrow> (vga \<times> 'd) option" where
  "isr_handler b regs = (\<lambda>(v, d). do {
     let v = vga_set_color (color_code VGA_WHITE) (color_code VGA_RED) v;
     st \<leftarrow> vga_write b (literal ''\<newline>*** KERNEL PANIC ***\<newline>'') (v, d);
     st \<leftarrow> (if int_no regs < 32
            then do { n \<leftarrow> aget exception_names (unat (int_no regs)); vga_write b n st }
            else vga_write b (literal ''Unknown exception'') st);
     vga_write b (literal ''\<newline>System halted.\<newline>'') st })"

text \<open>The subtraction is one of \<open>int\<close>, undefined where it would overflow.\<close>

definition irq_number :: "registers \<Rightarrow> int option" where
  "irq_number regs =
     (if sint (int_no regs) - 32 < - (2 ^ 31) then None else Some (sint (int_no regs) - 32))"

definition irq_handler :: "'d bus \<Rightarrow> ('h \<Rightarrow> registers \<Rightarrow> 'k \<times> 'd \<Rightarrow> ('k \<times> 'd) option) \<Rightarrow>
    'h option list \<Rightarrow> registers \<Rightarrow> 'k \<times> 'd \<Rightarrow> ('k \<times> 'd) option" where
  "irq_handler b call slots regs st = do {
     irq \<leftarrow> irq_number regs;
     st \<leftarrow> (if irq \<ge> 0 \<and> irq < 16 then do {
              slot \<leftarrow> aget slots (nat irq);
              (case slot of None \<Rightarrow> Some st | Some h \<Rightarrow> call h regs st) }
            else Some st);
     let (k, d) = st;
     let d = (if irq \<ge> 8 then outb b 0xA0 0x20 d else d);
     Some (k, outb b 0x20 0x20 d) }"

subsection \<open>What the CPU reads from a gate\<close>

definition gate_bytes :: "idt_entry \<Rightarrow> bytes" where
  "gate_bytes g = le16 (offset_low g) @ le16 (selector g) @ [zero g, gate_flags g] @ le16 (offset_high g)"

definition gate_target :: "bytes \<Rightarrow> u32" where
  "gate_target bs = un_le32 (bs ! 0) (bs ! 1) (bs ! 6) (bs ! 7)"

definition gate_selector :: "bytes \<Rightarrow> u16" where
  "gate_selector bs = un_le16 (bs ! 2) (bs ! 3)"

definition gate_present :: "bytes \<Rightarrow> bool" where
  "gate_present bs \<longleftrightarrow> bit (bs ! 5) 7"

text \<open>A 32-bit interrupt gate for ring 0: the CPU masks interrupts while the handler runs.\<close>

definition gate_ring0_interrupt :: "bytes \<Rightarrow> bool" where
  "gate_ring0_interrupt bs \<longleftrightarrow> bs ! 4 = 0 \<and> drop_bit 5 (bs ! 5) AND 3 = 0 \<and> take_bit 5 (bs ! 5) = 0xE"

definition packed_gate :: "u32 \<Rightarrow> u16 \<Rightarrow> u8 \<Rightarrow> idt_entry" where
  "packed_gate h sel flags = \<lparr>offset_low = ucast (h AND 0xFFFF), selector = sel, zero = 0,
     gate_flags = flags, offset_high = ucast (drop_bit 16 h AND 0xFFFF)\<rparr>"

lemma high_half_bytes: "(ucast (ucast (drop_bit 16 (h :: u32)) :: u16) :: u8) = ucast (drop_bit 16 h)"
  "(ucast (drop_bit 8 (ucast (drop_bit 16 h) :: u16)) :: u8) = ucast (drop_bit 24 h)"
  "(ucast (ucast h :: u16) :: u8) = ucast h"
  "(ucast (drop_bit 8 (ucast h :: u16)) :: u8) = ucast (drop_bit 8 h)"
  by (rule bit_word_eqI, auto simp: bit_unsigned_iff bit_drop_bit_eq)+

lemma packed_gate_bytes:
  "gate_target (gate_bytes (packed_gate h sel flags)) = h"
  "gate_selector (gate_bytes (packed_gate h sel flags)) = sel"
  "gate_bytes (packed_gate h sel flags) ! 4 = 0" "gate_bytes (packed_gate h sel flags) ! 5 = flags"
  by (simp_all add: gate_target_def gate_selector_def gate_bytes_def packed_gate_def le16_def
      ucast_masked high_half_bytes)

lemma set_gates_eq:
  "first + n \<le> length idt \<Longrightarrow> length idt \<le> 256 \<Longrightarrow>
   \<exists>idt'. set_gates first n h sel flags idt = Some idt' \<and> length idt' = length idt \<and>
     (\<forall>k < length idt. idt' ! k = (if first \<le> k \<and> k < first + n then packed_gate (h (k - first)) sel flags else idt ! k))"
proof (induction n arbitrary: first h idt)
  case (Suc n)
  let ?idt = "idt[first := packed_gate (h 0) sel flags]"
  have "unat (of_nat first :: u8) = first"
    using Suc.prems by (simp add: unat_of_nat)
  then have set: "idt_set_gate (of_nat first) (h 0) sel flags idt = Some ?idt"
    using Suc.prems by (simp add: idt_set_gate_def packed_gate_def aset_def)
  from Suc.IH [of "Suc first" ?idt "\<lambda>i. h (Suc i)"] Suc.prems obtain idt' where
    idt': "set_gates (Suc first) n (\<lambda>i. h (Suc i)) sel flags ?idt = Some idt'" "length idt' = length idt"
    "\<forall>k < length idt. idt' ! k =
       (if Suc first \<le> k \<and> k < Suc first + n then packed_gate (h (Suc (k - Suc first))) sel flags else ?idt ! k)"
    by auto
  have "idt' ! k = (if first \<le> k \<and> k < first + Suc n then packed_gate (h (k - first)) sel flags else idt ! k)"
    if k: "k < length idt" for k
  proof (cases "k = first")
    case True
    with idt'(3) k show ?thesis by simp
  next
    case False
    then have "Suc (k - Suc first) = k - first \<or> k < first" by arith
    with False idt'(3) k show ?thesis by auto
  qed
  with idt' set show ?case by simp
qed auto

text \<open>The gates \<open>idt_init\<close> makes, and what the CPU reads in them.\<close>

definition idt_gates :: "(nat \<Rightarrow> u32) \<Rightarrow> (nat \<Rightarrow> u32) \<Rightarrow> idt_entry list \<Rightarrow> bool" where
  "idt_gates isr irq idt \<longleftrightarrow> length idt = 256 \<and> (\<forall>n < 256. let g = gate_bytes (idt ! n) in
     if n < 48 then gate_present g \<and> gate_ring0_interrupt g \<and> gate_selector g = GDT_KERNEL_CODE \<and>
       gate_target g = (if n < 32 then isr n else irq (n - 32))
     else \<not> gate_present g)"

lemma idt_init_eq:
  assumes "length idt = 256"
  shows "\<exists>idt'. idt_init b addr isr irq (idt, d) = Some (\<lparr>ip_limit = 2047, ip_base = addr\<rparr>, idt', pic_remap b d) \<and>
    idt_gates isr irq idt'"
proof -
  obtain i1 where 1: "set_gates 0 256 (\<lambda>_. 0) 0 0 idt = Some i1" "length i1 = 256"
    "\<forall>k < 256. i1 ! k = packed_gate 0 0 0"
    using set_gates_eq [of 0 256 idt "\<lambda>_. 0" 0 0] assms(1) by auto
  obtain i2 where 2: "set_gates 0 32 isr 8 0x8E i1 = Some i2" "length i2 = 256"
    "\<forall>k < 256. i2 ! k = (if k < 32 then packed_gate (isr k) 8 0x8E else i1 ! k)"
    using set_gates_eq [of 0 32 i1 isr 8 "0x8E"] 1(2) by auto
  obtain i3 where 3: "set_gates 32 16 irq 8 0x8E i2 = Some i3" "length i3 = 256"
    "\<forall>k < 256. i3 ! k = (if 32 \<le> k \<and> k < 48 then packed_gate (irq (k - 32)) 8 0x8E else i2 ! k)"
    using set_gates_eq [of 32 16 i2 irq 8 "0x8E"] 2(2) by auto
  have gates: "i3 ! n = (if n < 32 then packed_gate (isr n) 8 0x8E
      else if n < 48 then packed_gate (irq (n - 32)) 8 0x8E else packed_gate 0 0 0)" if "n < 256" for n
    using that 1(3) 2(3) 3(3) by simp
  have flags: "bit (0x8E :: u8) 7" "drop_bit 5 (0x8E :: u8) AND 3 = 0" "take_bit 5 (0x8E :: u8) = 0xE"
    by code_simp+
  have "idt_init b addr isr irq (idt, d) = Some (\<lparr>ip_limit = 2047, ip_base = addr\<rparr>, i3, pic_remap b d)"
    using 1 2 3 assms(1) by (simp add: idt_init_def IDT_ENTRIES_def)
  moreover have "idt_gates isr irq i3"
    by (simp add: idt_gates_def 3(2) gates packed_gate_bytes flags gate_present_def gate_ring0_interrupt_def
        GDT_KERNEL_CODE_def Let_def)
  ultimately show ?thesis by blast
qed

subsection \<open>What the controllers do\<close>

text \<open>
  A controller as its data sheet describes it, as far as the kernel uses it: how many of the
  initialisation words after the first are still expected, what they set (the vector of line 0, the
  wiring of the cascade, the mode), the mask, and the lines in service, highest priority first.
\<close>

record pic =
  awaiting :: nat
  vector_base :: u8
  cascade :: u8
  pic_mode :: u8
  mask_bits :: u8
  serving :: "nat list"

definition pic_command :: "u8 \<Rightarrow> pic \<Rightarrow> pic" where
  "pic_command v p =
     (if bit v 4 then p\<lparr>awaiting := 3, mask_bits := 0, serving := []\<rparr>
      else if v = 0x20 then p\<lparr>serving := tl (serving p)\<rparr> else p)"

definition pic_data :: "u8 \<Rightarrow> pic \<Rightarrow> pic" where
  "pic_data v p =
     (if awaiting p = 3 then p\<lparr>awaiting := 2, vector_base := v AND 0xF8\<rparr>
      else if awaiting p = 2 then p\<lparr>awaiting := 1, cascade := v\<rparr>
      else if awaiting p = 1 then p\<lparr>awaiting := 0, pic_mode := v\<rparr>
      else p\<lparr>mask_bits := v\<rparr>)"

text \<open>The master and the slave at their ports; \<open>view\<close> finds them in the state of the devices.\<close>

definition pics_out :: "u16 \<Rightarrow> u8 \<Rightarrow> pic \<times> pic \<Rightarrow> pic \<times> pic" where
  "pics_out port v = (\<lambda>(m, s).
     if port = 0x20 then (pic_command v m, s) else if port = 0x21 then (pic_data v m, s)
     else if port = 0xA0 then (m, pic_command v s) else if port = 0xA1 then (m, pic_data v s)
     else (m, s))"

definition pic_wired :: "'d bus \<Rightarrow> ('d \<Rightarrow> pic \<times> pic) \<Rightarrow> bool" where
  "pic_wired b view \<longleftrightarrow>
     (\<forall>d port v. view (port_out b d port v) = pics_out port v (view d)) \<and>
     (\<forall>d port. view (snd (port_in b d port)) = view d) \<and>
     (\<forall>d. awaiting (fst (view d)) = 0 \<longrightarrow> fst (port_in b d 0x21) = mask_bits (fst (view d))) \<and>
     (\<forall>d. awaiting (snd (view d)) = 0 \<longrightarrow> fst (port_in b d 0xA1) = mask_bits (snd (view d)))"

text \<open>Line \<open>n\<close> interrupts: its controller has it in service, and the master the slave's line 2.\<close>

definition pic_raise :: "nat \<Rightarrow> pic \<times> pic \<Rightarrow> pic \<times> pic" where
  "pic_raise n = (\<lambda>(m, s).
     if n < 8 then (m\<lparr>serving := n # serving m\<rparr>, s)
     else (m\<lparr>serving := 2 # serving m\<rparr>, s\<lparr>serving := (n - 8) # serving s\<rparr>))"

text \<open>The vector at which the CPU takes an interrupt of line \<open>n\<close>.\<close>

definition irq_vector :: "nat \<Rightarrow> pic \<times> pic \<Rightarrow> u8" where
  "irq_vector n = (\<lambda>(m, s). if n < 8 then vector_base m + of_nat n else vector_base s + of_nat (n - 8))"

lemma pic_wiredD:
  assumes "pic_wired b view"
  shows "view (outb b port v d) = pics_out port v (view d)"
    and "view (snd (inb b port d)) = view d"
    and "awaiting (fst (view d)) = 0 \<Longrightarrow> fst (inb b 0x21 d) = mask_bits (fst (view d))"
    and "awaiting (snd (view d)) = 0 \<Longrightarrow> fst (inb b 0xA1 d) = mask_bits (snd (view d))"
  using assms by (auto simp: pic_wired_def outb_def inb_def)

lemma view_out_wait: "pic_wired b view \<Longrightarrow> view (out_wait b port v d) = pics_out port v (view d)"
  by (auto simp: out_wait_def io_wait_def pic_wiredD pics_out_def split: prod.splits)

text \<open>Two controllers on a bus of nothing else.\<close>

definition pic_bus :: "(pic \<times> pic) bus" where
  "pic_bus = \<lparr>
     port_in = (\<lambda>d p. (if p = 0x21 then mask_bits (fst d) else if p = 0xA1 then mask_bits (snd d) else 0, d)),
     port_out = (\<lambda>d p v. pics_out p v d),
     port_inw = (\<lambda>d p. (0, d)),
     port_outw = (\<lambda>d p v. d)\<rparr>"

lemma pic_bus_wired: "pic_wired pic_bus (\<lambda>d. d)"
  by (simp add: pic_wired_def pic_bus_def)

definition demo_pics :: "pic \<times> pic" where
  "demo_pics = (\<lparr>awaiting = 0, vector_base = 8, cascade = 4, pic_mode = 1, mask_bits = 0xB8, serving = []\<rparr>,
     \<lparr>awaiting = 0, vector_base = 0x70, cascade = 2, pic_mode = 1, mask_bits = 0x8E, serving = []\<rparr>)"

lemma pics_remapped:
  "pics_out 0xA1 m2 (pics_out 0x21 m1 (pics_out 0xA1 1 (pics_out 0x21 1 (pics_out 0xA1 2 (pics_out 0x21 4
     (pics_out 0xA1 0x28 (pics_out 0x21 0x20 (pics_out 0xA0 0x11 (pics_out 0x20 0x11 (m, s)))))))))) =
   (\<lparr>awaiting = 0, vector_base = 0x20, cascade = 4, pic_mode = 1, mask_bits = m1, serving = []\<rparr>,
    \<lparr>awaiting = 0, vector_base = 0x28, cascade = 2, pic_mode = 1, mask_bits = m2, serving = []\<rparr>)"
proof -
  have "bit (0x11 :: u8) 4" by code_simp
  then show ?thesis by (simp add: pics_out_def pic_command_def pic_data_def)
qed

lemma pic_remap_view:
  assumes wired: "pic_wired b view" and ready: "awaiting (fst (view d)) = 0" "awaiting (snd (view d)) = 0"
  shows "view (pic_remap b d) =
    (\<lparr>awaiting = 0, vector_base = 0x20, cascade = 4, pic_mode = 1, mask_bits = mask_bits (fst (view d)), serving = []\<rparr>,
     \<lparr>awaiting = 0, vector_base = 0x28, cascade = 2, pic_mode = 1, mask_bits = mask_bits (snd (view d)), serving = []\<rparr>)"
proof -
  obtain m1 d1 where d1: "inb b PIC1_DATA d = (m1, d1)" by fastforce
  obtain m2 d2 where d2: "inb b PIC2_DATA d1 = (m2, d2)" by fastforce
  from d1 ready have 1: "view d1 = view d" "m1 = mask_bits (fst (view d))"
    using pic_wiredD(2) [OF wired, of PIC1_DATA d] pic_wiredD(3) [OF wired, of d] by (simp_all add: PIC1_DATA_def)
  with d2 ready have 2: "view d2 = view d" "m2 = mask_bits (snd (view d))"
    using pic_wiredD(2) [OF wired, of PIC2_DATA d1] pic_wiredD(4) [OF wired, of d1] by (simp_all add: PIC2_DATA_def)
  show ?thesis
    unfolding pic_remap_def d1 d2 Let_def case_prod_conv
    unfolding pic_wiredD(1) [OF wired] view_out_wait [OF wired]
      PIC1_CMD_def PIC1_DATA_def PIC2_CMD_def PIC2_DATA_def
    using pics_remapped [of m2 m1 "fst (view d)" "snd (view d)"] by (simp add: 1 2)
qed

subsection \<open>Handlers\<close>

text \<open>Installing several handlers, in order.\<close>

fun install_all :: "(int \<times> 'h) list \<Rightarrow> 'h option list \<Rightarrow> 'h option list option" where
  "install_all [] slots = Some slots"
| "install_all ((num, h) # hs) slots = do { slots \<leftarrow> irq_install_handler num h slots; install_all hs slots }"

lemma install_all_eq:
  "length slots = 16 \<Longrightarrow> \<exists>slots'. install_all hs slots = Some slots' \<and> length slots' = 16 \<and>
     (\<forall>n < 16. slots' ! n = (case map_of (rev hs) (int n) of Some h \<Rightarrow> Some h | None \<Rightarrow> slots ! n))"
proof (induction hs arbitrary: slots)
  case (Cons x hs)
  obtain num h where x: "x = (num, h)" by fastforce
  show ?case
  proof (cases "0 \<le> num \<and> num < 16")
    case True
    then obtain m where m: "num = int m" "m < 16" by (auto elim: nonneg_int_cases)
    then have "irq_install_handler num h slots = Some (slots[m := Some h])"
      using Cons.prems by (simp add: irq_install_handler_def aset_def)
    with Cons.IH [of "slots[m := Some h]"] Cons.prems x m show ?thesis
      by (auto simp: map_add_def nth_list_update split: option.splits)
  next
    case False
    then have "irq_install_handler num h slots = Some slots" by (auto simp: irq_install_handler_def)
    moreover have "int n \<noteq> num" if "n < 16" for n using False that by auto
    ultimately show ?thesis using Cons.IH [of slots] Cons.prems x by (auto simp: map_add_def split: option.splits)
  qed
qed simp

text \<open>The register snapshot the stub of vector \<open>n\<close> makes.\<close>

definition at_vector :: "u32 \<Rightarrow> registers" where
  "at_vector n = \<lparr>r_ds = 0x10, r_edi = 0, r_esi = 0, r_ebp = 0, r_esp = 0, r_ebx = 0, r_edx = 0, r_ecx = 0,
     r_eax = 0, int_no = n, err_code = 0, r_eip = 0, r_cs = 8, r_eflags = 0x202, r_useresp = 0, r_ss = 0\<rparr>"

lemma irq_number_line: "n < 16 \<Longrightarrow> int_no regs = 32 + of_nat n \<Longrightarrow> irq_number regs = Some (int n)"
proof -
  assume n: "n < 16" and no: "int_no regs = 32 + of_nat n"
  have "unat (of_nat (32 + n) :: u32) = 32 + n" using n by (simp only: unat_of_nat) simp
  then have "unat (int_no regs) = 32 + n" using no by simp
  then have "int (unat (int_no regs)) = int (32 + n)" by (simp only:)
  then have "uint (int_no regs) = 32 + int n" by simp
  with n have "sint (int_no regs) = 32 + int n" by (simp add: sint_uint signed_take_bit_int_eq_self)
  then show ?thesis by (simp add: irq_number_def)
qed

text \<open>What the dispatch comes to for a hardware interrupt: the handler, then one or two ends of interrupt.\<close>

definition end_of_irq :: "'d bus \<Rightarrow> nat \<Rightarrow> 'd \<Rightarrow> 'd" where
  "end_of_irq b n d = outb b 0x20 0x20 (if n \<ge> 8 then outb b 0xA0 0x20 d else d)"

lemma irq_handler_eq:
  assumes "length slots = 16" "n < 16" "int_no regs = 32 + of_nat n"
  shows "irq_handler b call slots regs st =
    map_option (apsnd (end_of_irq b n)) (case slots ! n of None \<Rightarrow> Some st | Some h \<Rightarrow> call h regs st)"
  using assms irq_number_line [OF assms(2,3)]
  by (cases st; cases "slots ! n"; cases "call (the (slots ! n)) regs st")
     (auto simp: irq_handler_def aget_def end_of_irq_def)

lemma end_of_irq_view:
  assumes "pic_wired b view" "view d = pic_raise n ps" "n < 16"
  shows "view (end_of_irq b n d) = ps"
proof -
  have "\<not> bit (0x20 :: u8) 4" by code_simp
  with assms show ?thesis
    by (cases ps) (auto simp: end_of_irq_def pic_wiredD pics_out_def pic_command_def pic_raise_def)
qed

lemma exception_name:
  "k < 32 \<Longrightarrow> \<exists>t. exception_names ! k = t @ 0 # [] \<and> 0 \<notin> set t \<and> t \<noteq> []"
proof -
  have all: "list_all (\<lambda>s. last s = 0 \<and> 0 \<notin> set (butlast s) \<and> butlast s \<noteq> [] \<and> s \<noteq> []) exception_names"
    by code_simp
  assume "k < 32"
  moreover have "length exception_names = 32" by (simp add: exception_names_def)
  ultimately have "exception_names ! k \<in> set exception_names" by simp
  with all show ?thesis unfolding list_all_iff by (metis append_butlast_last_id)
qed

definition exception_text :: "registers \<Rightarrow> bytes" where
  "exception_text regs = (if int_no regs < 32 then butlast (exception_names ! unat (int_no regs)) else bytes_of ''Unknown exception'')"

lemma exception_text_written:
  assumes "vga_ok v"
  shows "\<exists>v' d'. (if int_no regs < 32
      then do { n \<leftarrow> aget exception_names (unat (int_no regs)); vga_write b n (v, d) }
      else vga_write b (literal ''Unknown exception'') (v, d)) = Some (v', d') \<and> vga_ok v' \<and>
    v_color v' = v_color v \<and> terminal_of v' = fold (term_char (v_color v)) (exception_text regs) (terminal_of v)"
proof (cases "int_no regs < 32")
  case True
  then have k: "unat (int_no regs) < 32" by (simp add: word_less_nat_alt)
  from exception_name [OF this] obtain t where
    t: "exception_names ! unat (int_no regs) = t @ 0 # []" "0 \<notin> set t" by blast
  have "aget exception_names (unat (int_no regs)) = Some (t @ 0 # [])"
    using k t(1) by (simp add: aget_def exception_names_def)
  with vga_write_fold [OF assms t(2), of b "[]" d] True t(1) show ?thesis by (simp add: exception_text_def)
next
  case False
  have "0 \<notin> set (bytes_of ''Unknown exception'')" by code_simp
  from vga_write_fold [OF assms this, of b "[]" d] False show ?thesis
    by (simp only: exception_text_def literal_def if_False)
qed

subsection \<open>Properties\<close>

text \<open>
  C33: The interrupt table. Whatever it held before, after \<open>idt_init\<close> the CPU finds at vectors 0 to
  31 the exception stubs and at 32 to 47 the stubs of the hardware lines, each behind a present ring-0
  interrupt gate into the kernel's code segment; all other vectors are absent; the limit is the
  size less one; and both controllers are ready, with line \<open>n\<close> delivered at vector \<open>32 + n\<close>, away from
  the exceptions, and the masks the firmware left.
\<close>

theorem idt_init_gates:
  assumes "length idt = 256" and "pic_wired b view"
    and "awaiting (fst (view d)) = 0" and "awaiting (snd (view d)) = 0"
  shows "\<exists>ptr idt' d'. idt_init b addr isr irq (idt, d) = Some (ptr, idt', d') \<and>
    ip_base ptr = addr \<and> unat (ip_limit ptr) + 1 = length (concat (map gate_bytes idt')) \<and> length idt' = 256 \<and>
    (\<forall>n < 256. let g = gate_bytes (idt' ! n) in
       if n < 48 then gate_present g \<and> gate_ring0_interrupt g \<and> gate_selector g = GDT_KERNEL_CODE \<and>
         gate_target g = (if n < 32 then isr n else irq (n - 32))
       else \<not> gate_present g) \<and>
    (\<forall>n < 16. unat (irq_vector n (view d')) = 32 + n) \<and>
    map awaiting [fst (view d'), snd (view d')] = [0, 0] \<and>
    map mask_bits [fst (view d'), snd (view d')] = map mask_bits [fst (view d), snd (view d)]"
proof -
  obtain idt' where run: "idt_init b addr isr irq (idt, d) = Some (\<lparr>ip_limit = 2047, ip_base = addr\<rparr>, idt', pic_remap b d)"
    and gates: "idt_gates isr irq idt'" using idt_init_eq [OF assms(1), of b addr isr irq d] by blast
  have vectors: "unat (irq_vector n (m, s)) = 32 + n" if "n < 16" "vector_base m = 0x20" "vector_base s = 0x28" for n m s
  proof -
    have "irq_vector n (m, s) = of_nat (32 + n)" using that by (simp add: irq_vector_def)
    then show ?thesis using that(1) by (simp only: unat_of_nat) simp
  qed
  have "length (gate_bytes g) = 8" for g by (simp add: gate_bytes_def)
  then have "length (concat (map gate_bytes xs)) = 8 * length xs" for xs by (induction xs) simp_all
  then have size: "length (concat (map gate_bytes idt')) = 2048" using gates by (simp add: idt_gates_def)
  note view = pic_remap_view [OF assms(2-4)]
  show ?thesis
    by (intro exI conjI, rule run, simp, simp add: size, rule conjunct1 [OF gates [unfolded idt_gates_def]],
        rule conjunct2 [OF gates [unfolded idt_gates_def]]) (simp_all add: view vectors)
qed

theorem idt_init_gates_witness:
  "\<exists>ptr idt' d'. idt_init pic_bus 0x5000 (\<lambda>n. 0x1000 + 16 * of_nat n) (\<lambda>n. 0x2000 + 16 * of_nat n)
      (replicate 256 (packed_gate 7 7 7), demo_pics) = Some (ptr, idt', d') \<and>
    gate_target (gate_bytes (idt' ! 33)) = 0x2010 \<and> unat (irq_vector 9 d') = 41"
proof -
  have "length (replicate 256 (packed_gate 7 7 7)) = 256" by simp
  from idt_init_gates [OF this pic_bus_wired, of demo_pics "0x5000" "\<lambda>n. 0x1000 + 16 * of_nat n" "\<lambda>n. 0x2000 + 16 * of_nat n"]
  obtain ptr idt' d' where r: "idt_init pic_bus 0x5000 (\<lambda>n. 0x1000 + 16 * of_nat n) (\<lambda>n. 0x2000 + 16 * of_nat n)
      (replicate 256 (packed_gate 7 7 7), demo_pics) = Some (ptr, idt', d')"
    and g: "\<forall>n < 256. let g = gate_bytes (idt' ! n) in
       if n < 48 then gate_present g \<and> gate_ring0_interrupt g \<and> gate_selector g = GDT_KERNEL_CODE \<and>
         gate_target g = (if n < 32 then 0x1000 + 16 * of_nat n else 0x2000 + 16 * of_nat (n - 32))
       else \<not> gate_present g"
    and i: "\<forall>n < 16. unat (irq_vector n d') = 32 + n"
    by (auto simp: demo_pics_def)
  from g [rule_format, of 33] i r show ?thesis by (simp add: Let_def)
qed

text \<open>
  C30: A hardware interrupt on line \<open>n\<close> runs the handler that was installed last for that line, and
  nothing else; numbers that are no line were ignored when installing. Then every controller that
  was serving the interrupt is told that it ended, so both are as they were before it.
\<close>

theorem irq_handler_completes:
  assumes "install_all hs irq_handlers = Some slots" and "n < 16" and "int_no regs = 32 + of_nat n"
    and "pic_wired b view" and "view d = pic_raise n ps"
    and "\<forall>h k d k' d'. call h regs (k, d) = Some (k', d') \<longrightarrow> view d' = view d"
    and "\<forall>h. call h regs (k, d) \<noteq> None"
  shows "\<exists>k' d'. irq_handler b call slots regs (k, d) = Some (k', d') \<and> view d' = ps \<and>
    k' = (case map_of (rev hs) (int n) of None \<Rightarrow> k | Some h \<Rightarrow> fst (the (call h regs (k, d))))"
proof -
  from install_all_eq [of irq_handlers hs] assms(1,2) have slots: "length slots = 16"
    "slots ! n = (case map_of (rev hs) (int n) of Some h \<Rightarrow> Some h | None \<Rightarrow> None)"
    by (auto simp: irq_handlers_def split: option.splits)
  note eq = irq_handler_eq [OF slots(1) assms(2,3), of b call "(k, d)"]
  show ?thesis
  proof (cases "map_of (rev hs) (int n)")
    case None
    with slots eq end_of_irq_view [OF assms(4,5,2)] show ?thesis by simp
  next
    case (Some h)
    obtain k' d' where call: "call h regs (k, d) = Some (k', d')" using assms(7) by fast
    with assms(5,6) have "view d' = pic_raise n ps" by fastforce
    from end_of_irq_view [OF assms(4) this assms(2)] call Some slots eq show ?thesis by simp
  qed
qed

theorem irq_handler_completes_witness:
  "\<exists>k' d'. irq_handler pic_bus (\<lambda>h regs (k, d). Some (k + h, d))
      ((irq_handlers :: nat option list)[9 := Some 5]) (at_vector 41) (1, pic_raise 9 demo_pics) = Some (k', d') \<and>
    d' = demo_pics \<and> k' = 6"
proof -
  have "install_all [(9, 3), (16, 7), (9, 5 :: nat)] irq_handlers = Some (irq_handlers[9 := Some 5])"
    by (simp add: irq_install_handler_def irq_handlers_def aset_def)
  from irq_handler_completes [OF this, of 9 "at_vector 41" pic_bus "\<lambda>d. d" "pic_raise 9 demo_pics" demo_pics
      "\<lambda>h regs (k, d). Some (k + h, d)" 1]
  show ?thesis using pic_bus_wired by (simp add: at_vector_def)
qed

text \<open>
  C38: A panic is always reported. For every register snapshot, also with a vector number outside the
  table of names, \<open>isr_handler\<close> writes the panic lines with the exception's name in white on red and
  reads no memory that is not its own.
\<close>

theorem isr_handler_panics:
  assumes "vga_ok v"
  shows "\<exists>v' d'. isr_handler b regs (v, d) = Some (v', d') \<and> vga_ok v' \<and>
    terminal_of v' = fold (term_char 0x4F)
      (bytes_of ''\<newline>*** KERNEL PANIC ***\<newline>'' @ exception_text regs @ bytes_of ''\<newline>System halted.\<newline>'')
      (terminal_of v)"
proof -
  define v0 where "v0 = vga_set_color (color_code VGA_WHITE) (color_code VGA_RED) v"
  have v0: "vga_ok v0" "v_color v0 = 0x4F" "terminal_of v0 = terminal_of v"
    using assms by (simp_all add: v0_def vga_set_color_def vga_ok_def terminal_of_def)
  have texts: "0 \<notin> set (bytes_of ''\<newline>*** KERNEL PANIC ***\<newline>'')" "0 \<notin> set (bytes_of ''\<newline>System halted.\<newline>'')"
    by code_simp+
  obtain v1 d1 where 1: "vga_write b (literal ''\<newline>*** KERNEL PANIC ***\<newline>'') (v0, d) = Some (v1, d1)" "vga_ok v1"
    "v_color v1 = 0x4F" "terminal_of v1 = fold (term_char 0x4F) (bytes_of ''\<newline>*** KERNEL PANIC ***\<newline>'') (terminal_of v)"
    using vga_write_fold [OF v0(1) texts(1), of b "[]" d] unfolding v0(2,3) literal_def by blast
  obtain v2 d2 where 2: "(if int_no regs < 32
      then do { n \<leftarrow> aget exception_names (unat (int_no regs)); vga_write b n (v1, d1) }
      else vga_write b (literal ''Unknown exception'') (v1, d1)) = Some (v2, d2)" "vga_ok v2"
    "v_color v2 = 0x4F" "terminal_of v2 = fold (term_char 0x4F) (exception_text regs) (terminal_of v1)"
    using exception_text_written [OF 1(2), of regs b d1] unfolding 1(3) by blast
  obtain v3 d3 where 3: "vga_write b (literal ''\<newline>System halted.\<newline>'') (v2, d2) = Some (v3, d3)" "vga_ok v3"
    "terminal_of v3 = fold (term_char 0x4F) (bytes_of ''\<newline>System halted.\<newline>'') (terminal_of v2)"
    using vga_write_fold [OF 2(2) texts(2), of b "[]" d2] unfolding 2(3) literal_def by blast
  have "isr_handler b regs (v, d) = Some (v3, d3)"
    unfolding isr_handler_def case_prod_conv Let_def v0_def [symmetric] 1(1) bind.bind_lunit 2(1) 3(1) ..
  with 3 show ?thesis by (simp only: fold_append comp_apply 1(4) 2(4)) blast
qed

theorem isr_handler_panics_witness:
  "\<exists>v' d'. isr_handler (log_bus (\<lambda>_ _. 0) (\<lambda>_ _. 0)) (at_vector 13) (demo_vga, []) = Some (v', d') \<and> vga_ok v' \<and>
    terminal_of v' = fold (term_char 0x4F)
      (bytes_of ''\<newline>*** KERNEL PANIC ***\<newline>'' @ exception_text (at_vector 13) @ bytes_of ''\<newline>System halted.\<newline>'')
      (terminal_of demo_vga)"
  using demo_vga_ok by (rule isr_handler_panics)

end
