(* ===== verification/Bounded_Queue.thy ===== *)
theory Bounded_Queue
  imports Prelude
begin

text \<open>
  The contract of a bounded queue between a producer that must not wait and a consumer that polls:
  adding to a full queue drops the element, removing from an empty one yields a fixed answer that
  is never an element. The keyboard's ring buffer provides it; what the shell relies on follows
  from the contract alone.
\<close>

datatype 'e queue_op = Push 'e | Pop

text \<open>A run: the answers of the pops and the final queue.\<close>

fun queue_run :: "('e \<Rightarrow> 'q \<Rightarrow> 'q option) \<Rightarrow> ('q \<Rightarrow> ('e \<times> 'q) option) \<Rightarrow> 'e queue_op list \<Rightarrow> 'q \<Rightarrow> ('e list \<times> 'q) option" where
  "queue_run push pop [] q = Some ([], q)"
| "queue_run push pop (Push x # ops) q = do { q \<leftarrow> push x q; queue_run push pop ops q }"
| "queue_run push pop (Pop # ops) q = do {
     (x, q) \<leftarrow> pop q;
     (xs, q) \<leftarrow> queue_run push pop ops q;
     Some (x # xs, q) }"

text \<open>The same on a list; \<open>none\<close> is the answer of an empty queue.\<close>

fun list_run :: "nat \<Rightarrow> 'e \<Rightarrow> 'e queue_op list \<Rightarrow> 'e list \<Rightarrow> 'e list \<times> 'e list" where
  "list_run cap none [] xs = ([], xs)"
| "list_run cap none (Push x # ops) xs = list_run cap none ops (if length xs < cap then xs @ [x] else xs)"
| "list_run cap none (Pop # ops) xs =
     (case xs of [] \<Rightarrow> apfst ((#) none) (list_run cap none ops []) | x # xs \<Rightarrow> apfst ((#) x) (list_run cap none ops xs))"

text \<open>The elements that are let in.\<close>

fun accepted :: "nat \<Rightarrow> 'e queue_op list \<Rightarrow> nat \<Rightarrow> 'e list" where
  "accepted cap [] n = []"
| "accepted cap (Push x # ops) n = (if n < cap then x # accepted cap ops (Suc n) else accepted cap ops n)"
| "accepted cap (Pop # ops) n = accepted cap ops (n - 1)"

locale bounded_queue =
  fixes push :: "'e \<Rightarrow> 'q \<Rightarrow> 'q option"
    and pop :: "'q \<Rightarrow> ('e \<times> 'q) option"
    and pending :: "'q \<Rightarrow> 'e list"
    and ok :: "'q \<Rightarrow> bool"
    and element :: "'e \<Rightarrow> bool"
    and none :: 'e
    and capacity :: nat
  assumes push_ok: "ok q \<Longrightarrow> element x \<Longrightarrow> \<exists>q'. push x q = Some q' \<and> ok q' \<and>
      pending q' = (if length (pending q) < capacity then pending q @ [x] else pending q)"
    and pop_ok: "ok q \<Longrightarrow> \<exists>q'. pop q = Some (case pending q of [] \<Rightarrow> none | x # _ \<Rightarrow> x, q') \<and> ok q' \<and>
      pending q' = tl (pending q)"
    and pending_elements: "ok q \<Longrightarrow> x \<in> set (pending q) \<Longrightarrow> element x"
    and pending_bound: "ok q \<Longrightarrow> length (pending q) \<le> capacity"
    and none_no_element: "\<not> element none"
begin

text \<open>Any mix of the two operations is defined and does what it does on the list.\<close>

lemma run_refines:
  assumes "ok q" and "\<forall>x. Push x \<in> set ops \<longrightarrow> element x"
  shows "\<exists>q'. queue_run push pop ops q = Some (fst (list_run capacity none ops (pending q)), q') \<and> ok q' \<and>
    pending q' = snd (list_run capacity none ops (pending q))"
  using assms
proof (induction ops arbitrary: q)
  case (Cons op ops)
  show ?case
  proof (cases op)
    case (Push x)
    from Push Cons.prems push_ok [of q x] obtain q1 where
      "push x q = Some q1" "ok q1" "pending q1 = (if length (pending q) < capacity then pending q @ [x] else pending q)"
      by auto
    with Cons.IH [of q1] Cons.prems(2) Push show ?thesis by simp
  next
    case Pop
    from pop_ok [OF Cons.prems(1)] obtain q1 where
      q1: "pop q = Some (case pending q of [] \<Rightarrow> none | x # _ \<Rightarrow> x, q1)" "ok q1" "pending q1 = tl (pending q)" by blast
    from Cons.IH [OF q1(2)] Cons.prems(2) obtain q' where
      "queue_run push pop ops q1 = Some (fst (list_run capacity none ops (pending q1)), q')" "ok q'"
      "pending q' = snd (list_run capacity none ops (pending q1))" by auto
    with Pop q1 show ?thesis by (cases "pending q") simp_all
  qed
qed simp

text \<open>An answer is \<open>none\<close> exactly when the queue was empty.\<close>

lemma pop_none_iff:
  assumes "ok q" "pop q = Some (x, q')"
  shows "x = none \<longleftrightarrow> pending q = []"
proof (cases "pending q")
  case (Cons y ys)
  then have "y \<noteq> none" using pending_elements [OF assms(1), of y] none_no_element by auto
  with Cons pop_ok [OF assms(1)] assms(2) show ?thesis by auto
qed (use pop_ok [OF assms(1)] assms(2) in auto)

end

lemma list_run_accepted:
  assumes "none \<notin> set xs" "\<forall>x. Push x \<in> set ops \<longrightarrow> x \<noteq> none" "length xs \<le> cap"
  shows "filter (\<lambda>x. x \<noteq> none) (fst (list_run cap none ops xs)) @ snd (list_run cap none ops xs) =
    xs @ accepted cap ops (length xs)"
  using assms
proof (induction cap none ops xs rule: list_run.induct)
  case (3 cap none ops xs)
  then show ?case by (cases xs) (auto simp: filter_empty_conv)
qed auto

end
