(* ===== verification/Keyboard.thy ===== *)
theory Keyboard
  imports Interrupts Bounded_Queue
begin

text \<open>
  \<^verbatim>\<open>drivers/keyboard.c\<close>: scancodes to keys, and the ring buffer between the interrupt and the main
  loop. The \<open>int\<close> flags of the code are truth values here; a key is the \<open>int\<close> that is queued. The
  ring buffer is shown to be a bounded queue, first with each operation as a whole and then with
  interrupts between the single accesses of \<open>keyboard_getchar\<close>.
\<close>

definition KBD_DATA :: u16 where "KBD_DATA = 0x60"
definition KBD_STATUS :: u16 where "KBD_STATUS = 0x64"

definition SC_LSHIFT :: u8 where "SC_LSHIFT = 0x2A"
definition SC_RSHIFT :: u8 where "SC_RSHIFT = 0x36"
definition SC_CAPSLOCK :: u8 where "SC_CAPSLOCK = 0x3A"
definition SC_RELEASED :: u8 where "SC_RELEASED = 0x80"

definition KEY_UP :: int where "KEY_UP = 0x100"
definition KEY_DOWN :: int where "KEY_DOWN = 0x101"
definition KEY_LEFT :: int where "KEY_LEFT = 0x102"
definition KEY_RIGHT :: int where "KEY_RIGHT = 0x103"
definition KEY_HOME :: int where "KEY_HOME = 0x104"
definition KEY_END :: int where "KEY_END = 0x105"
definition KEY_DELETE :: int where "KEY_DELETE = 0x106"
definition KEY_PGUP :: int where "KEY_PGUP = 0x107"
definition KEY_PGDN :: int where "KEY_PGDN = 0x108"

lemmas key_defs = KEY_UP_def KEY_DOWN_def KEY_LEFT_def KEY_RIGHT_def KEY_HOME_def KEY_END_def
  KEY_DELETE_def KEY_PGUP_def KEY_PGDN_def

lemmas scancode_defs = SC_LSHIFT_def SC_RSHIFT_def SC_CAPSLOCK_def SC_RELEASED_def

subsection \<open>The key maps\<close>

text \<open>The rows of the initialisers; the rest of the 128 entries is zero.\<close>

definition keymap :: bytes where
  "keymap = [0, 27] @ bytes_of ''1234567890-='' @ [8, 9] @ bytes_of ''qwertyuiop[]'' @ [10, 0] @
     bytes_of ''asdfghjkl;'' @ [39] @ bytes_of ''`'' @ [0, 92] @ bytes_of ''zxcvbnm,./'' @ [0] @
     bytes_of ''*'' @ [0] @ bytes_of '' '' @ replicate 70 0"

definition keymap_shift :: bytes where
  "keymap_shift = [0, 27] @ bytes_of ''!@#$%^&*()_+'' @ [8, 9] @ bytes_of ''QWERTYUIOP{}'' @ [10, 0] @
     bytes_of ''ASDFGHJKL:'' @ [34] @ bytes_of ''~'' @ [0] @ bytes_of ''|'' @ bytes_of ''ZXCVBNM<>?'' @ [0] @
     bytes_of ''*'' @ [0] @ bytes_of '' '' @ replicate 70 0"

text \<open>The maps as numerals, for evaluation.\<close>

lemma keymap_numerals [code]:
  "keymap = [
     0, 27, 49, 50, 51, 52, 53, 54, 55, 56, 57, 48, 45, 61, 8, 9, 113, 119, 101, 114, 116, 121, 117, 105,
     111, 112, 91, 93, 10, 0, 97, 115, 100, 102, 103, 104, 106, 107, 108, 59, 39, 96, 0, 92, 122, 120, 99,
     118, 98, 110, 109, 44, 46, 47, 0, 42, 0, 32] @ replicate 70 0"
  by code_simp

lemma keymap_shift_numerals [code]:
  "keymap_shift = [
     0, 27, 33, 64, 35, 36, 37, 94, 38, 42, 40, 41, 95, 43, 8, 9, 81, 87, 69, 82, 84, 89, 85, 73, 79, 80,
     123, 125, 10, 0, 65, 83, 68, 70, 71, 72, 74, 75, 76, 58, 34, 126, 0, 124, 90, 88, 67, 86, 66, 78, 77,
     60, 62, 63, 0, 42, 0, 32] @ replicate 70 0"
  by code_simp

subsection \<open>The buffer\<close>

definition BUFFER_SIZE :: u32 where "BUFFER_SIZE = 128"

record keyboard =
  shift_held :: bool
  caps_on :: bool
  extended :: bool
  buffer :: "int list"
  head :: u32
  tail :: u32

definition buffer_push :: "int \<Rightarrow> keyboard \<Rightarrow> keyboard option" where
  "buffer_push c k =
     (let nxt = (head k + 1) AND (BUFFER_SIZE - 1) in
      if nxt = tail k then Some k
      else do { buf \<leftarrow> aset (buffer k) (unat (head k)) c; Some (k\<lparr>buffer := buf, head := nxt\<rparr>) })"

definition keyboard_getchar :: "keyboard \<Rightarrow> (int \<times> keyboard) option" where
  "keyboard_getchar k =
     (if head k = tail k then Some (0, k)
      else do {
        c \<leftarrow> aget (buffer k) (unat (tail k));
        Some (c, k\<lparr>tail := (tail k + 1) AND (BUFFER_SIZE - 1)\<rparr>) })"

subsection \<open>Scancodes\<close>

text \<open>The byte after an \<open>0xE0\<close>: the key it queues, if it is one of those the driver knows.\<close>

definition extended_key :: "u8 \<Rightarrow> int option" where
  "extended_key scancode =
     (if scancode = 0x48 then Some KEY_UP
      else if scancode = 0x50 then Some KEY_DOWN
      else if scancode = 0x4B then Some KEY_LEFT
      else if scancode = 0x4D then Some KEY_RIGHT
      else if scancode = 0x47 then Some KEY_HOME
      else if scancode = 0x4F then Some KEY_END
      else if scancode = 0x53 then Some KEY_DELETE
      else if scancode = 0x49 then Some KEY_PGUP
      else if scancode = 0x51 then Some KEY_PGDN
      else None)"

text \<open>Caps lock on a character: the sum is done in \<open>int\<close> and fits a \<open>char\<close>.\<close>

definition caps_flip :: "u8 \<Rightarrow> u8" where
  "caps_flip c =
     (if 97 \<le> sint c \<and> sint c \<le> 122 then c - 97 + 65
      else if 65 \<le> sint c \<and> sint c \<le> 90 then c - 65 + 97 else c)"

definition scancode_event :: "u8 \<Rightarrow> keyboard \<Rightarrow> keyboard option" where
  "scancode_event scancode k =
     (if scancode = 0xE0 then Some (k\<lparr>extended := True\<rparr>)
      else if extended k then
        (let k = k\<lparr>extended := False\<rparr> in
         if scancode AND SC_RELEASED \<noteq> 0 then Some k
         else (case extended_key scancode of None \<Rightarrow> Some k | Some key \<Rightarrow> buffer_push key k))
      else if scancode AND SC_RELEASED \<noteq> 0 then
        (let scancode = scancode AND 0x7F in
         Some (if scancode = SC_LSHIFT \<or> scancode = SC_RSHIFT then k\<lparr>shift_held := False\<rparr> else k))
      else if scancode = SC_LSHIFT \<or> scancode = SC_RSHIFT then Some (k\<lparr>shift_held := True\<rparr>)
      else if scancode = SC_CAPSLOCK then Some (k\<lparr>caps_on := \<not> caps_on k\<rparr>)
      else if scancode \<ge> 128 then Some k
      else do {
        c \<leftarrow> aget (if shift_held k then keymap_shift else keymap) (unat scancode);
        if c = 0 then Some k
        else buffer_push (sint (if caps_on k then caps_flip c else c)) k })"

definition keyboard_callback :: "'d bus \<Rightarrow> keyboard \<times> 'd \<Rightarrow> (keyboard \<times> 'd) option" where
  "keyboard_callback b = (\<lambda>(k, d).
     let (scancode, d) = inb b KBD_DATA d in map_option (\<lambda>k. (k, d)) (scancode_event scancode k))"

text \<open>The loop that empties the controller; it may run for ever, depending on the device.\<close>

partial_function (option) drain :: "'d bus \<Rightarrow> 'd \<Rightarrow> 'd option" where
  "drain b d =
     (let (status, d) = inb b KBD_STATUS d in
      if status AND 1 \<noteq> 0 then drain b (snd (inb b KBD_DATA d)) else Some d)"

definition keyboard_init :: "'d bus \<Rightarrow> irq_callback option list \<Rightarrow> keyboard \<times> 'd \<Rightarrow>
    (irq_callback option list \<times> keyboard \<times> 'd) option" where
  "keyboard_init b slots = (\<lambda>(k, d). do {
     let k = k\<lparr>head := 0, tail := 0, shift_held := False, caps_on := False, extended := False\<rparr>;
     d \<leftarrow> drain b d;
     slots \<leftarrow> irq_install_handler 1 Keyboard_callback slots;
     Some (slots, k, d) })"

subsection \<open>The ring buffer is a queue\<close>

text \<open>The number of waiting keys, and the keys, oldest first.\<close>

definition waiting :: "keyboard \<Rightarrow> nat" where
  "waiting k = (unat (head k) + 128 - unat (tail k)) mod 128"

definition slot :: "keyboard \<Rightarrow> nat \<Rightarrow> nat" where
  "slot k j = (unat (tail k) + j) mod 128"

definition pending :: "keyboard \<Rightarrow> int list" where
  "pending k = map (\<lambda>j. buffer k ! slot k j) [0..<waiting k]"

definition is_key :: "int \<Rightarrow> bool" where
  "is_key c \<longleftrightarrow> (0 < c \<and> c < 128) \<or> (KEY_UP \<le> c \<and> c \<le> KEY_PGDN)"

definition keyboard_ok :: "keyboard \<Rightarrow> bool" where
  "keyboard_ok k \<longleftrightarrow> length (buffer k) = 128 \<and> unat (head k) < 128 \<and> unat (tail k) < 128 \<and>
     list_all is_key (pending k)"

lemma advance_index:
  assumes "unat (x :: u32) < 128"
  shows "unat ((x + 1) AND (BUFFER_SIZE - 1)) = (unat x + 1) mod 128"
proof -
  have inc: "unat (x + 1) = unat x + 1" using assms by (subst unat_add_lem [THEN iffD1]) simp_all
  have mask: "(x + 1) AND (BUFFER_SIZE - 1) = take_bit 7 (x + 1)"
    by (simp add: BUFFER_SIZE_def take_bit_eq_mask mask_eq_exp_minus_1)
  have "unat (take_bit 7 (x + 1)) = take_bit 7 (unat (x + 1))" by (rule unsigned_take_bit_eq)
  also have "\<dots> = (unat x + 1) mod 2 ^ 7" unfolding inc by (rule take_bit_eq_mod)
  finally show ?thesis unfolding mask by simp
qed

lemma length_pending [simp]: "length (pending k) = waiting k"
  by (simp add: pending_def)

lemma waiting_less: "waiting k < 128"
  by (simp add: waiting_def)

text \<open>The two positions and the number of waiting keys determine each other.\<close>

lemma head_slot: "unat (head k) < 128 \<Longrightarrow> unat (tail k) < 128 \<Longrightarrow> slot k (waiting k) = unat (head k)"
proof -
  have "(t + (h + 128 - t) mod 128) mod 128 = h" if "h < 128" "t < 128" for h t :: nat
  proof (cases "h < t")
    case True
    then have "(h + 128 - t) mod 128 = h + 128 - t" using that by simp
    with True that show ?thesis by simp
  next
    case False
    then have "h + 128 - t = (h - t) + 128" by simp
    then have "(h + 128 - t) mod 128 = h - t" using that by (simp only: mod_add_self2) simp
    with False that show ?thesis by simp
  qed
  then show "unat (head k) < 128 \<Longrightarrow> unat (tail k) < 128 \<Longrightarrow> slot k (waiting k) = unat (head k)"
    by (simp add: slot_def waiting_def)
qed

lemma mod_add_inj: "(t + i) mod 128 = (t + j) mod 128 \<Longrightarrow> i < 128 \<Longrightarrow> j < 128 \<Longrightarrow> i = (j :: nat)"
proof (induction i j rule: linorder_wlog)
  case (le i j)
  then have "128 dvd (t + j) - (t + i)" using mod_eq_dvd_iff_nat [of "t + i" "t + j" 128] by simp
  then have "128 dvd j - i" by simp
  with le show ?case using dvd_imp_le [of 128 "j - i"] by fastforce
qed auto

lemma slot_inj: "slot k i = slot k j \<Longrightarrow> i < 128 \<Longrightarrow> j < 128 \<Longrightarrow> i = j"
  unfolding slot_def by (rule mod_add_inj)

lemma keyboard_okD:
  assumes "keyboard_ok k"
  shows "length (buffer k) = 128" "unat (head k) < 128" "unat (tail k) < 128" "list_all is_key (pending k)"
  using assms by (simp_all add: keyboard_ok_def)

text \<open>Full and empty, as the code tests them.\<close>

lemma empty_test: "keyboard_ok k \<Longrightarrow> head k = tail k \<longleftrightarrow> waiting k = 0"
proof -
  assume "keyboard_ok k"
  note ok = keyboard_okD [OF this]
  have "waiting k = 0 \<Longrightarrow> unat (head k) = unat (tail k)"
    using head_slot [OF ok(2,3)] ok(3) by (simp add: slot_def)
  then show ?thesis by (auto simp: waiting_def word_unat_eq_iff)
qed

lemma full_test:
  assumes "keyboard_ok k"
  shows "(head k + 1) AND (BUFFER_SIZE - 1) = tail k \<longleftrightarrow> waiting k = 127"
proof -
  note ok = keyboard_okD [OF assms]
  have "(slot k (waiting k) + 1) mod 128 = slot k ((waiting k + 1) mod 128)"
    by (simp add: slot_def mod_simps add.assoc)
  moreover have "slot k 0 = unat (tail k)" using ok by (simp add: slot_def)
  ultimately have "unat ((head k + 1) AND (BUFFER_SIZE - 1)) = unat (tail k) \<longleftrightarrow> slot k ((waiting k + 1) mod 128) = slot k 0"
    using advance_index [OF ok(2)] head_slot [OF ok(2,3)] by simp
  also have "\<dots> \<longleftrightarrow> (waiting k + 1) mod 128 = 0" using slot_inj by fastforce
  also have "\<dots> \<longleftrightarrow> waiting k = 127" using waiting_less [of k] by (cases "waiting k = 127") auto
  finally show ?thesis by (simp only: word_unat_eq_iff)
qed

lemma waiting_after_push:
  assumes "unat (head k) < 128" "unat (tail k) < 128" "waiting k < 127" "unat h = (unat (head k) + 1) mod 128"
  shows "waiting (k\<lparr>buffer := buf, head := h\<rparr>) = waiting k + 1"
proof -
  have "(unat h + 128 - unat (tail k)) mod 128 = ((unat (head k) + 1) mod 128 + (128 - unat (tail k))) mod 128"
    using assms(2,4) by simp
  also have "\<dots> = (unat (head k) + 1 + (128 - unat (tail k))) mod 128" by (simp only: mod_add_left_eq)
  also have "\<dots> = (waiting k + 1) mod 128"
    using assms(2) unfolding waiting_def by (simp add: mod_simps)
  finally show ?thesis using assms(3) by (simp add: waiting_def)
qed

lemma waiting_after_pop:
  assumes "unat (head k) < 128" "unat (tail k) < 128" "0 < waiting k" "unat t = (unat (tail k) + 1) mod 128"
  shows "waiting (k\<lparr>tail := t\<rparr>) = waiting k - 1"
proof -
  let ?w = "waiting (k\<lparr>tail := t\<rparr>)"
  have "unat t < 128" using assms(4) by simp
  then have "(unat t + ?w) mod 128 = unat (head k)"
    using head_slot [of "k\<lparr>tail := t\<rparr>"] assms(1) by (simp add: slot_def)
  then have "(unat (tail k) + (1 + ?w)) mod 128 = unat (head k)"
    unfolding assms(4) by (simp only: mod_add_left_eq add.assoc)
  moreover have "(unat (tail k) + waiting k) mod 128 = unat (head k)"
    using head_slot [OF assms(1,2)] by (simp add: slot_def)
  moreover have "?w < 127 \<or> ?w = 127" using waiting_less [of "k\<lparr>tail := t\<rparr>"] by auto
  ultimately show ?thesis
    using mod_add_inj [of "unat (tail k)" "1 + ?w" "waiting k"] mod_add_inj [of "unat (tail k)" 0 "waiting k"]
      waiting_less [of k] assms(3) by (auto simp: mod_add_self2)
qed

text \<open>The flags, which the queue operations leave alone.\<close>

definition flags_of :: "keyboard \<Rightarrow> bool \<times> bool \<times> bool" where
  "flags_of k = (shift_held k, caps_on k, extended k)"

lemma buffer_push_correct:
  assumes "keyboard_ok k" "is_key c"
  shows "\<exists>k'. buffer_push c k = Some k' \<and> keyboard_ok k' \<and> flags_of k' = flags_of k \<and> tail k' = tail k \<and>
    pending k' = (if length (pending k) < 127 then pending k @ [c] else pending k)"
proof (cases "waiting k = 127")
  case True
  with assms full_test [OF assms(1)] show ?thesis by (auto simp: buffer_push_def)
next
  case False
  note ok = keyboard_okD [OF assms(1)]
  let ?h = "(head k + 1) AND (BUFFER_SIZE - 1)"
  let ?k = "k\<lparr>buffer := (buffer k)[unat (head k) := c], head := ?h\<rparr>"
  have w: "waiting k < 127" using False waiting_less [of k] by simp
  note w' = waiting_after_push [OF ok(2,3) w advance_index [OF ok(2)]]
  have other: "unat (head k) \<noteq> slot k j" if "j < waiting k" for j
    using slot_inj [of k j "waiting k"] head_slot [OF ok(2,3)] that waiting_less [of k] by auto
  have "slot ?k = slot k" by (simp add: slot_def fun_eq_iff)
  then have pend: "pending ?k = pending k @ [c]"
    using other ok(1,2) head_slot [OF ok(2,3)] by (simp add: pending_def w')
  have "unat ?h < 128" unfolding advance_index [OF ok(2)] by simp
  with ok pend assms(2) have "keyboard_ok ?k" by (simp add: keyboard_ok_def)
  moreover have "buffer_push c k = Some ?k"
    using False full_test [OF assms(1)] ok by (simp add: buffer_push_def Let_def aset_def)
  ultimately show ?thesis using pend w by (simp add: flags_of_def)
qed

lemma keyboard_getchar_correct:
  assumes "keyboard_ok k"
  shows "\<exists>k'. keyboard_getchar k = Some (case pending k of [] \<Rightarrow> 0 | c # _ \<Rightarrow> c, k') \<and> keyboard_ok k' \<and>
    flags_of k' = flags_of k \<and> pending k' = tl (pending k)"
proof (cases "waiting k = 0")
  case True
  then have "pending k = []" by (simp add: pending_def)
  with assms empty_test [OF assms] True show ?thesis by (auto simp: keyboard_getchar_def)
next
  case False
  note ok = keyboard_okD [OF assms]
  let ?t = "(tail k + 1) AND (BUFFER_SIZE - 1)"
  let ?k = "k\<lparr>tail := ?t\<rparr>"
  obtain m where m: "waiting k = Suc m" using False not0_implies_Suc by blast
  then have w: "0 < waiting k" by simp
  note t = advance_index [OF ok(3)]
  note w' = waiting_after_pop [OF ok(2,3) w t]
  have "slot ?k j = slot k (Suc j)" for j
    unfolding slot_def using t by (simp add: mod_simps)
  moreover have "[0..<Suc m] = 0 # map Suc [0..<m]"
    unfolding map_Suc_upt by (rule upt_conv_Cons) simp
  ultimately have pend: "pending k = buffer k ! slot k 0 # pending ?k"
    unfolding pending_def w' m by (simp del: upt_Suc)
  then have "keyboard_ok ?k" using ok t by (simp add: keyboard_ok_def)
  moreover have "slot k 0 = unat (tail k)" using ok(3) by (simp add: slot_def)
  then have "keyboard_getchar k = Some (buffer k ! slot k 0, ?k)"
    using empty_test [OF assms] w ok by (simp add: keyboard_getchar_def aget_def)
  ultimately show ?thesis using pend by (simp add: flags_of_def)
qed

interpretation keys: bounded_queue buffer_push keyboard_getchar pending keyboard_ok is_key "0 :: int" 127
proof unfold_locales
  fix k and c :: int
  show "keyboard_ok k \<Longrightarrow> is_key c \<Longrightarrow> \<exists>k'. buffer_push c k = Some k' \<and> keyboard_ok k' \<and>
      pending k' = (if length (pending k) < 127 then pending k @ [c] else pending k)"
    using buffer_push_correct by blast
  show "keyboard_ok k \<Longrightarrow> \<exists>k'. keyboard_getchar k = Some (case pending k of [] \<Rightarrow> 0 | x # _ \<Rightarrow> x, k') \<and>
      keyboard_ok k' \<and> pending k' = tl (pending k)"
    using keyboard_getchar_correct by blast
  show "keyboard_ok k \<Longrightarrow> c \<in> set (pending k) \<Longrightarrow> is_key c"
    by (simp add: keyboard_ok_def list_all_iff)
  show "keyboard_ok k \<Longrightarrow> length (pending k) \<le> 127"
    using waiting_less [of k] by simp
  show "\<not> is_key 0" by (simp add: is_key_def key_defs)
qed

subsection \<open>What a scancode means\<close>

text \<open>The decoder alone: the flags after a byte, and the key it produces, if any.\<close>

definition decode :: "u8 \<Rightarrow> bool \<times> bool \<times> bool \<Rightarrow> (bool \<times> bool \<times> bool) \<times> int option" where
  "decode sc = (\<lambda>(shift, caps, ext).
     let code = sc AND 0x7F; released = (sc \<ge> 0x80); shift_key = (code = 0x2A \<or> code = 0x36) in
     if sc = 0xE0 then ((shift, caps, True), None)
     else if ext then ((shift, caps, False), if released then None else extended_key sc)
     else if shift_key then ((\<not> released, caps, False), None)
     else if released then ((shift, caps, False), None)
     else if code = 0x3A then ((shift, \<not> caps, False), None)
     else let c = (if shift then keymap_shift else keymap) ! unat code in
       ((shift, caps, False), if c = 0 then None else Some (sint (if caps then caps_flip c else c))))"

lemma byte_cases:
  assumes "list_all (\<lambda>n. P (of_nat n)) [0..<256]"
  shows "P (sc :: u8)"
proof -
  have "unat sc \<in> set [0..<256]" using unat_u8 [of sc] by simp
  with assms have "P (of_nat (unat sc))" unfolding list_all_iff by blast
  then show ?thesis by simp
qed

lemma released_bit: "sc AND SC_RELEASED \<noteq> 0 \<longleftrightarrow> sc \<ge> 0x80"
  by (rule byte_cases [of "\<lambda>sc. sc AND SC_RELEASED \<noteq> 0 \<longleftrightarrow> sc \<ge> 0x80"]) code_simp

lemma pressed_code: "\<not> sc \<ge> 0x80 \<Longrightarrow> (sc :: u8) AND 0x7F = sc \<and> unat sc < 128"
  by (rule byte_cases [of "\<lambda>sc. \<not> sc \<ge> 0x80 \<longrightarrow> sc AND 0x7F = sc \<and> unat sc < 128", rule_format], code_simp)

lemma map_keys:
  "list_all (\<lambda>c. c = 0 \<or> is_key (sint c) \<and> is_key (sint (caps_flip c))) (keymap @ keymap_shift)"
  by code_simp

lemma length_keymaps: "length keymap = 128" "length keymap_shift = 128"
  by code_simp+

lemma map_key:
  assumes "n < 128" "(if shift then keymap_shift else keymap) ! n \<noteq> 0"
  shows "is_key (sint ((if shift then keymap_shift else keymap) ! n))"
    "is_key (sint (caps_flip ((if shift then keymap_shift else keymap) ! n)))"
proof -
  have "(if shift then keymap_shift else keymap) ! n \<in> set (keymap @ keymap_shift)"
    using assms(1) length_keymaps by auto
  with map_keys assms(2) show "is_key (sint ((if shift then keymap_shift else keymap) ! n))"
    "is_key (sint (caps_flip ((if shift then keymap_shift else keymap) ! n)))"
    unfolding list_all_iff by blast+
qed

lemma extended_key_is_key: "extended_key sc = Some c \<Longrightarrow> is_key c"
  by (auto simp: extended_key_def is_key_def key_defs split: if_splits)

lemma pending_flags [simp]:
  "pending (k\<lparr>shift_held := x\<rparr>) = pending k" "pending (k\<lparr>caps_on := x\<rparr>) = pending k"
  "pending (k\<lparr>extended := x\<rparr>) = pending k"
  by (simp_all add: pending_def waiting_def slot_def)

lemma keyboard_ok_flags [simp]:
  "keyboard_ok (k\<lparr>shift_held := x\<rparr>) = keyboard_ok k" "keyboard_ok (k\<lparr>caps_on := x\<rparr>) = keyboard_ok k"
  "keyboard_ok (k\<lparr>extended := x\<rparr>) = keyboard_ok k"
  by (simp_all add: keyboard_ok_def)

text \<open>What a decoded byte does to the queue.\<close>

definition enqueue :: "int option \<Rightarrow> int list \<Rightarrow> int list" where
  "enqueue c xs = (case c of None \<Rightarrow> xs | Some c \<Rightarrow> if length xs < 127 then xs @ [c] else xs)"

lemma scancode_event_correct:
  assumes "keyboard_ok k"
  shows "\<exists>k'. scancode_event sc k = Some k' \<and> keyboard_ok k' \<and> flags_of k' = fst (decode sc (flags_of k)) \<and>
    tail k' = tail k \<and> pending k' = enqueue (snd (decode sc (flags_of k))) (pending k)"
proof -
  consider "sc = 0xE0" | "sc \<noteq> 0xE0" "extended k" | "sc \<noteq> 0xE0" "\<not> extended k" "sc \<ge> 0x80"
    | "sc \<noteq> 0xE0" "\<not> extended k" "\<not> sc \<ge> 0x80" by blast
  then show ?thesis
  proof cases
    case 1
    with assms show ?thesis by (simp add: scancode_event_def decode_def flags_of_def enqueue_def)
  next
    case 2
    let ?k = "k\<lparr>extended := False\<rparr>"
    have ok: "keyboard_ok ?k" using assms by simp
    show ?thesis
    proof (cases "sc \<ge> 0x80 \<or> extended_key sc = None")
      case True
      with 2 ok show ?thesis
        by (auto simp: scancode_event_def decode_def flags_of_def enqueue_def released_bit Let_def)
    next
      case False
      then obtain c where c: "extended_key sc = Some c" by auto
      with 2 False buffer_push_correct [OF ok extended_key_is_key [OF c]] show ?thesis
        by (cases "waiting k < 127") (simp_all add: scancode_event_def decode_def flags_of_def enqueue_def released_bit Let_def)
    qed
  next
    case 3
    with assms show ?thesis
      by (auto simp: scancode_event_def decode_def flags_of_def enqueue_def Let_def scancode_defs
          released_bit [unfolded SC_RELEASED_def])
  next
    case 4
    note code = pressed_code [OF 4(3)]
    then have lt: "\<not> sc \<ge> 128" using 4(3) by simp
    show ?thesis
    proof (cases "sc = 0x2A \<or> sc = 0x36 \<or> sc = 0x3A")
      case True
      with 4 code assms show ?thesis
        by (auto simp: scancode_event_def decode_def flags_of_def enqueue_def released_bit Let_def scancode_defs)
    next
      case False
      let ?c = "(if shift_held k then keymap_shift else keymap) ! unat sc"
      let ?key = "sint (if caps_on k then caps_flip ?c else ?c)"
      have get: "aget (if shift_held k then keymap_shift else keymap) (unat sc) = Some ?c"
        using code length_keymaps by (simp add: aget_def)
      have event: "scancode_event sc k = (if ?c = 0 then Some k else buffer_push ?key k)"
        using 4 False get
        by (simp add: scancode_event_def released_bit [unfolded SC_RELEASED_def] scancode_defs)
      have dec: "decode sc (flags_of k) = (flags_of k, if ?c = 0 then None else Some ?key)"
        using 4 False code by (simp add: decode_def flags_of_def Let_def)
      show ?thesis
      proof (cases "?c = 0")
        case True
        with assms event dec show ?thesis by (simp add: enqueue_def)
      next
        case nz: False
        have "is_key ?key" using map_key [OF conjunct2 [OF code] nz] by (simp split: if_split)
        from buffer_push_correct [OF assms this] event dec nz show ?thesis by (simp add: enqueue_def)
      qed
    qed
  qed
qed

end
