(* ===== verification/Keyboard_Props.thy ===== *)
theory Keyboard_Props
  imports Keyboard
begin

text \<open>
  The properties of the keyboard driver: keys arrive in order, whether the interrupt comes between
  two calls of \<open>keyboard_getchar\<close> or in the middle of one; typing a text yields the text.
\<close>

subsection \<open>Runs of whole operations\<close>

datatype keyboard_op = Scancode u8 | Getchar

fun keyboard_run :: "keyboard_op list \<Rightarrow> keyboard \<Rightarrow> (int list \<times> keyboard) option" where
  "keyboard_run [] k = Some ([], k)"
| "keyboard_run (Scancode sc # ops) k = do { k \<leftarrow> scancode_event sc k; keyboard_run ops k }"
| "keyboard_run (Getchar # ops) k = do {
     (c, k) \<leftarrow> keyboard_getchar k;
     (cs, k) \<leftarrow> keyboard_run ops k;
     Some (c # cs, k) }"

text \<open>The queue operations that a run amounts to, from given flags.\<close>

fun queue_ops :: "keyboard_op list \<Rightarrow> bool \<times> bool \<times> bool \<Rightarrow> int queue_op list" where
  "queue_ops [] f = []"
| "queue_ops (Scancode sc # ops) f =
     (case snd (decode sc f) of None \<Rightarrow> [] | Some c \<Rightarrow> [Push c]) @ queue_ops ops (fst (decode sc f))"
| "queue_ops (Getchar # ops) f = Pop # queue_ops ops f"

lemma keyboard_run_queue:
  "keyboard_ok k \<Longrightarrow> \<exists>k'. keyboard_run ops k =
      Some (fst (list_run 127 0 (queue_ops ops (flags_of k)) (pending k)), k') \<and> keyboard_ok k' \<and>
    pending k' = snd (list_run 127 0 (queue_ops ops (flags_of k)) (pending k))"
proof (induction ops arbitrary: k)
  case (Cons op ops)
  show ?case
  proof (cases op)
    case (Scancode sc)
    from scancode_event_correct [OF Cons.prems, of sc] obtain k1 where
      k1: "scancode_event sc k = Some k1" "keyboard_ok k1" "flags_of k1 = fst (decode sc (flags_of k))"
      "pending k1 = enqueue (snd (decode sc (flags_of k))) (pending k)" by blast
    with Cons.IH [OF k1(2)] Scancode show ?thesis
      by (cases "snd (decode sc (flags_of k))") (simp_all add: enqueue_def)
  next
    case Getchar
    from keyboard_getchar_correct [OF Cons.prems] obtain k1 where
      k1: "keyboard_getchar k = Some (case pending k of [] \<Rightarrow> 0 | c # _ \<Rightarrow> c, k1)" "keyboard_ok k1"
      "flags_of k1 = flags_of k" "pending k1 = tl (pending k)" by blast
    from Cons.IH [OF k1(2)] obtain k' where
      "keyboard_run ops k1 = Some (fst (list_run 127 0 (queue_ops ops (flags_of k)) (tl (pending k))), k')"
      "keyboard_ok k'" "pending k' = snd (list_run 127 0 (queue_ops ops (flags_of k)) (tl (pending k)))"
      unfolding k1(3,4) by blast
    with Getchar k1(1) show ?thesis by (cases "pending k") simp_all
  qed
qed simp

text \<open>No byte produces the key 0, which \<open>keyboard_getchar\<close> keeps for "nothing waiting".\<close>

lemma decode_nonzero: "snd (decode sc f) \<noteq> Some 0"
proof -
  define k where "k = \<lparr>shift_held = fst f, caps_on = fst (snd f), extended = snd (snd f),
    buffer = replicate 128 0, head = 0, tail = 0\<rparr>"
  have k: "keyboard_ok k" "flags_of k = f" "pending k = []"
    by (simp_all add: k_def keyboard_ok_def pending_def waiting_def flags_of_def)
  from scancode_event_correct [OF k(1), of sc] obtain k' where
    "keyboard_ok k'" "pending k' = enqueue (snd (decode sc f)) []" unfolding k(2,3) by blast
  then show ?thesis
    using keys.pending_elements [of k' 0] keys.none_no_element by (auto simp: enqueue_def)
qed

lemma queue_ops_nonzero: "Push 0 \<notin> set (queue_ops ops f)"
  by (induction ops f rule: queue_ops.induct) (auto simp: decode_nonzero decode_nonzero [symmetric] split: option.splits)

subsection \<open>Interrupts inside \<open>keyboard_getchar\<close>\<close>

text \<open>
  The accesses of \<open>keyboard_getchar\<close> one by one: reading \<open>head\<close>, comparing it with \<open>tail\<close>, loading
  the key, advancing \<open>tail\<close>. The interrupt runs as a whole between any two of them, because the gate
  masks interrupts. \<open>answers\<close> are the values returned so far, \<open>queued\<close> the keys let into the buffer.
\<close>

datatype getchar_at = Outside | Read_head u32 | Not_empty | Loaded int

record preempted =
  kb :: keyboard
  at :: getchar_at
  answers :: "int list"
  queued :: "int list"

text \<open>The key a byte adds, unless the buffer is full.\<close>

definition let_in :: "u8 \<Rightarrow> keyboard \<Rightarrow> int list" where
  "let_in sc k = (case snd (decode sc (flags_of k)) of None \<Rightarrow> [] | Some c \<Rightarrow> if waiting k < 127 then [c] else [])"

inductive preempt_step :: "preempted \<Rightarrow> preempted \<Rightarrow> bool" where
  read_head: "at s = Outside \<Longrightarrow> preempt_step s (s\<lparr>at := Read_head (head (kb s))\<rparr>)"
| return_0: "at s = Read_head h \<Longrightarrow> h = tail (kb s) \<Longrightarrow>
     preempt_step s (s\<lparr>at := Outside, answers := answers s @ [0]\<rparr>)"
| not_empty: "at s = Read_head h \<Longrightarrow> h \<noteq> tail (kb s) \<Longrightarrow> preempt_step s (s\<lparr>at := Not_empty\<rparr>)"
| load: "at s = Not_empty \<Longrightarrow> aget (buffer (kb s)) (unat (tail (kb s))) = Some c \<Longrightarrow>
     preempt_step s (s\<lparr>at := Loaded c\<rparr>)"
| advance: "at s = Loaded c \<Longrightarrow> k = (kb s)\<lparr>tail := (tail (kb s) + 1) AND (BUFFER_SIZE - 1)\<rparr> \<Longrightarrow>
     preempt_step s (s\<lparr>kb := k, at := Outside, answers := answers s @ [c]\<rparr>)"
| interrupt: "scancode_event sc (kb s) = Some k \<Longrightarrow>
     preempt_step s (s\<lparr>kb := k, queued := queued s @ let_in sc (kb s)\<rparr>)"

text \<open>The next access of the call alone, and a whole call that nothing interrupts.\<close>

definition getchar_access :: "preempted \<Rightarrow> preempted option" where
  "getchar_access s = (case at s of
     Outside \<Rightarrow> Some (s\<lparr>at := Read_head (head (kb s))\<rparr>)
   | Read_head h \<Rightarrow> Some (if h = tail (kb s) then s\<lparr>at := Outside, answers := answers s @ [0]\<rparr> else s\<lparr>at := Not_empty\<rparr>)
   | Not_empty \<Rightarrow> map_option (\<lambda>c. s\<lparr>at := Loaded c\<rparr>) (aget (buffer (kb s)) (unat (tail (kb s))))
   | Loaded c \<Rightarrow> Some (s\<lparr>kb := (kb s)\<lparr>tail := (tail (kb s) + 1) AND (BUFFER_SIZE - 1)\<rparr>, at := Outside, answers := answers s @ [c]\<rparr>))"

definition getchar_accesses :: "preempted \<Rightarrow> preempted option" where
  "getchar_accesses s = do { s \<leftarrow> getchar_access s; s \<leftarrow> getchar_access s; if at s = Outside then Some s else do { s \<leftarrow> getchar_access s; getchar_access s } }"

lemma preempt_step_access: "preempt_step s s' \<longleftrightarrow> getchar_access s = Some s' \<or>
   (\<exists>sc k. scancode_event sc (kb s) = Some k \<and> s' = s\<lparr>kb := k, queued := queued s @ let_in sc (kb s)\<rparr>)"
  by (cases "at s") (auto simp: getchar_access_def preempt_step.simps)

lemma accesses_getchar:
  "at s = Outside \<Longrightarrow> getchar_accesses s = map_option (\<lambda>(c, k). s\<lparr>kb := k, answers := answers s @ [c]\<rparr>) (keyboard_getchar (kb s))"
  by (cases s) (auto simp: getchar_accesses_def getchar_access_def keyboard_getchar_def split: Option.bind_splits)

inductive preempt_reachable :: "preempted \<Rightarrow> bool" where
  start: "keyboard_ok k \<Longrightarrow> preempt_reachable \<lparr>kb = k, at = Outside, answers = [], queued = pending k\<rparr>"
| step: "preempt_reachable s \<Longrightarrow> preempt_step s s' \<Longrightarrow> preempt_reachable s'"

text \<open>What is known at each point of \<open>keyboard_getchar\<close>: the head it read is a position of the queue.\<close>

definition point_ok :: "keyboard \<Rightarrow> getchar_at \<Rightarrow> bool" where
  "point_ok k a = (case a of
     Outside \<Rightarrow> True
   | Read_head h \<Rightarrow> (\<exists>j \<le> waiting k. unat h = slot k j)
   | Not_empty \<Rightarrow> 0 < waiting k
   | Loaded c \<Rightarrow> 0 < waiting k \<and> c = hd (pending k))"

definition preempt_inv :: "preempted \<Rightarrow> bool" where
  "preempt_inv s \<longleftrightarrow> keyboard_ok (kb s) \<and> filter (\<lambda>c. c \<noteq> 0) (answers s) @ pending (kb s) = queued s \<and>
     point_ok (kb s) (at s)"

lemma enqueue_let_in: "enqueue (snd (decode sc (flags_of k))) (pending k) = pending k @ let_in sc k"
  by (simp add: enqueue_def let_in_def split: option.splits)

lemma waiting_pending: "pending k' = pending k @ xs \<Longrightarrow> waiting k' = waiting k + length xs"
  by (metis length_append length_pending)

lemma point_ok_push:
  assumes "point_ok k a" "tail k' = tail k" "pending k' = pending k @ xs"
  shows "point_ok k' a"
proof -
  have w: "waiting k \<le> waiting k'" using waiting_pending [OF assms(3)] by simp
  have "slot k' = slot k" using assms(2) by (simp add: slot_def fun_eq_iff)
  moreover have "hd (pending k') = hd (pending k)" if "0 < waiting k"
    using that assms(3) by (metis hd_append2 length_greater_0_conv length_pending)
  ultimately show ?thesis
    using assms(1) w by (cases a) (auto simp: point_ok_def intro: order_trans less_le_trans)
qed

lemma front: "keyboard_ok k \<Longrightarrow> 0 < waiting k \<Longrightarrow>
  aget (buffer k) (unat (tail k)) = Some (hd (pending k)) \<and> hd (pending k) \<noteq> 0 \<and>
  keyboard_getchar k = Some (hd (pending k), k\<lparr>tail := (tail k + 1) AND (BUFFER_SIZE - 1)\<rparr>)"
proof -
  assume ok: "keyboard_ok k" and w: "0 < waiting k"
  then obtain c cs where cs: "pending k = c # cs" by (metis length_pending length_greater_0_conv neq_Nil_conv)
  from keyboard_getchar_correct [OF ok] obtain k' where g: "keyboard_getchar k = Some (c, k')"
    unfolding cs by auto
  have "aget (buffer k) (unat (tail k)) = Some c" "k' = k\<lparr>tail := (tail k + 1) AND (BUFFER_SIZE - 1)\<rparr>"
    using g empty_test [OF ok] w by (auto simp: keyboard_getchar_def split: bind_split_asm)
  moreover have "c \<noteq> 0" using keys.pop_none_iff [OF ok g] cs by simp
  ultimately show ?thesis using g cs by simp
qed

lemma preempt_step_inv: "preempt_step s s' \<Longrightarrow> preempt_inv s \<Longrightarrow> preempt_inv s'"
proof (induction rule: preempt_step.induct)
  case (read_head s)
  then have "unat (head (kb s)) = slot (kb s) (waiting (kb s))"
    using head_slot keyboard_okD by (simp add: preempt_inv_def)
  with read_head show ?case by (auto simp: preempt_inv_def point_ok_def)
next
  case (return_0 s h)
  then show ?case by (simp add: preempt_inv_def point_ok_def)
next
  case (not_empty s h)
  then obtain j where j: "j \<le> waiting (kb s)" "unat h = slot (kb s) j" by (auto simp: preempt_inv_def point_ok_def)
  have "slot (kb s) 0 = unat (tail (kb s))"
    using not_empty.prems keyboard_okD(3) by (simp add: preempt_inv_def slot_def)
  with j not_empty.hyps(2) have "0 < waiting (kb s)" by (cases j) (auto simp: word_unat_eq_iff)
  with not_empty show ?case by (simp add: preempt_inv_def point_ok_def)
next
  case (load s c)
  then show ?case using front [of "kb s"] by (simp add: preempt_inv_def point_ok_def)
next
  case (advance s c k)
  then have inv: "keyboard_ok (kb s)" "0 < waiting (kb s)" "c = hd (pending (kb s))"
    "filter (\<lambda>c. c \<noteq> 0) (answers s) @ pending (kb s) = queued s"
    by (simp_all add: preempt_inv_def point_ok_def)
  from front [OF inv(1,2)] advance.hyps(2) have g: "keyboard_getchar (kb s) = Some (c, k)" "c \<noteq> 0"
    by (simp_all add: inv(3))
  from keyboard_getchar_correct [OF inv(1)] g(1) have k: "keyboard_ok k" "pending k = tl (pending (kb s))" by auto
  have "pending (kb s) = c # tl (pending (kb s))"
    using inv(2,3) by (metis hd_Cons_tl length_greater_0_conv length_pending)
  with inv(4) k g(2) show ?case by (simp add: preempt_inv_def point_ok_def)
next
  case (interrupt sc s k)
  then have ok: "keyboard_ok (kb s)" by (simp add: preempt_inv_def)
  from scancode_event_correct [OF ok, of sc] interrupt.hyps have
    k: "keyboard_ok k" "tail k = tail (kb s)" "pending k = pending (kb s) @ let_in sc (kb s)"
    by (auto simp: enqueue_let_in)
  with interrupt.prems point_ok_push [OF _ k(2,3)] show ?case by (simp add: preempt_inv_def)
qed

lemma preempt_reachable_inv: "preempt_reachable s \<Longrightarrow> preempt_inv s"
proof (induction rule: preempt_reachable.induct)
  case (start k)
  have "filter (\<lambda>c. c \<noteq> 0) [] @ pending k = pending k" by simp
  with start show ?case by (simp add: preempt_inv_def point_ok_def)
qed (rule preempt_step_inv)

subsection \<open>Typing\<close>

fun decode_all :: "u8 list \<Rightarrow> bool \<times> bool \<times> bool \<Rightarrow> (bool \<times> bool \<times> bool) \<times> int list" where
  "decode_all [] f = (f, [])"
| "decode_all (sc # scs) f =
     (case decode sc f of (f, c) \<Rightarrow> apsnd ((@) (case c of None \<Rightarrow> [] | Some c \<Rightarrow> [c])) (decode_all scs f))"

fun scancodes :: "u8 list \<Rightarrow> keyboard \<Rightarrow> keyboard option" where
  "scancodes [] k = Some k"
| "scancodes (sc # scs) k = do { k \<leftarrow> scancode_event sc k; scancodes scs k }"

lemma scancodes_correct:
  "keyboard_ok k \<Longrightarrow> waiting k + length (snd (decode_all scs (flags_of k))) \<le> 127 \<Longrightarrow>
   \<exists>k'. scancodes scs k = Some k' \<and> keyboard_ok k' \<and> flags_of k' = fst (decode_all scs (flags_of k)) \<and>
     pending k' = pending k @ snd (decode_all scs (flags_of k))"
proof (induction scs arbitrary: k)
  case (Cons sc scs)
  obtain f c where d: "decode sc (flags_of k) = (f, c)" by fastforce
  from scancode_event_correct [OF Cons.prems(1), of sc] obtain k1 where
    k1: "scancode_event sc k = Some k1" "keyboard_ok k1" "flags_of k1 = f" "pending k1 = enqueue c (pending k)"
    unfolding d by auto
  have p: "pending k1 = pending k @ (case c of None \<Rightarrow> [] | Some c \<Rightarrow> [c])"
    using k1(4) Cons.prems(2) d by (auto simp: enqueue_def split: option.splits)
  from Cons.IH [OF k1(2)] Cons.prems(2) waiting_pending [OF p] k1 p d show ?case
    by (auto split: option.splits)
qed simp

text \<open>The keys a typist presses for a character on the US layout: the position in one of the maps.\<close>

definition key_code :: "bytes \<Rightarrow> u8 \<Rightarrow> u8" where
  "key_code m c = of_nat (length (takeWhile (\<lambda>x. x \<noteq> c) m))"

definition keystroke :: "u8 \<Rightarrow> u8 list" where
  "keystroke c =
     (if c \<in> set keymap then [key_code keymap c, key_code keymap c OR 0x80]
      else [0x2A, key_code keymap_shift c, key_code keymap_shift c OR 0x80, 0xAA])"

definition typeable :: "u8 \<Rightarrow> bool" where
  "typeable c \<longleftrightarrow> c \<in> set (keymap @ keymap_shift) - {0}"

definition released :: "bool \<times> bool \<times> bool" where
  "released = (False, False, False)"

text \<open>Pressing and releasing the key at position \<open>n\<close> of the map in force.\<close>

lemma unmapped:
  "list_all (\<lambda>m. list_all (\<lambda>n. m ! n = 0) [0x2A, 0x36, 0x3A, 0x60]) [keymap, keymap_shift]"
  by code_simp

lemma release_byte:
  "sc < 0x80 \<Longrightarrow> (sc OR 0x80) AND 0x7F = sc \<and> sc OR 0x80 \<ge> (0x80 :: u8) \<and> (sc OR 0x80 = 0xE0 \<longleftrightarrow> sc = 0x60)"
  by (rule byte_cases [of "\<lambda>sc. sc < 0x80 \<longrightarrow>
        (sc OR 0x80) AND 0x7F = sc \<and> sc OR 0x80 \<ge> 0x80 \<and> (sc OR 0x80 = 0xE0 \<longleftrightarrow> sc = 0x60)", rule_format], code_simp)

lemma press_release:
  fixes shift :: bool
  defines "m \<equiv> if shift then keymap_shift else keymap"
  assumes n: "n < 128" "m ! n \<noteq> 0"
  shows "decode_all [of_nat n, of_nat n OR 0x80] (shift, False, False) = ((shift, False, False), [sint (m ! n)])"
proof -
  let ?sc = "of_nat n :: u8"
  have un: "unat ?sc = n" using n(1) by (simp add: unat_of_nat)
  then have lt: "?sc < 0x80" using n(1) by (simp add: word_less_nat_alt)
  have "n \<noteq> 0x2A" "n \<noteq> 0x36" "n \<noteq> 0x3A" "n \<noteq> 0x60"
    using unmapped n(2) by (auto simp: m_def list_all_iff split: if_splits)
  then have ne: "?sc \<noteq> 0x2A" "?sc \<noteq> 0x36" "?sc \<noteq> 0x3A" "?sc \<noteq> 0x60" using un by auto
  moreover have "?sc \<noteq> 0xE0" "\<not> ?sc \<ge> 0x80" using lt by auto
  moreover note pressed_code [of ?sc] release_byte [OF lt] un n(2)
  ultimately show ?thesis by (simp add: decode_def m_def [symmetric] Let_def)
qed

lemma length_takeWhile_member: "c \<in> set m \<Longrightarrow> length (takeWhile (\<lambda>x. x \<noteq> c) m) < length m"
  by (induction m) auto

lemma key_code_position:
  assumes "c \<in> set m" "length m = 128"
  shows "\<exists>n < 128. key_code m c = of_nat n \<and> m ! n = c"
proof (intro exI conjI)
  let ?n = "length (takeWhile (\<lambda>x. x \<noteq> c) m)"
  show "?n < 128" using length_takeWhile_member [OF assms(1)] assms(2) by simp
  then show "m ! ?n = c" using nth_length_takeWhile [of "\<lambda>x. x \<noteq> c" m] assms(2) by simp
qed (simp add: key_code_def)

lemma shift_keys:
  "decode 0x2A released = ((True, False, False), None)" "decode 0xAA (True, False, False) = (released, None)"
  by (simp_all add: decode_def released_def Let_def)

lemma decode_all_append:
  "decode_all (xs @ ys) f = (case decode_all xs f of (f, cs) \<Rightarrow> apsnd ((@) cs) (decode_all ys f))"
  by (induction xs arbitrary: f) (auto simp: apsnd_def map_prod_def split: prod.splits)

lemma keystroke_decode:
  assumes "typeable c"
  shows "decode_all (keystroke c) released = (released, [sint c])"
proof (cases "c \<in> set keymap")
  case True
  from key_code_position [OF this length_keymaps(1)] obtain n where n: "n < 128" "key_code keymap c = of_nat n" "keymap ! n = c"
    by blast
  with press_release [of n False] assms True show ?thesis
    by (simp add: keystroke_def released_def typeable_def)
next
  case False
  with assms have "c \<in> set keymap_shift" by (simp add: typeable_def)
  from key_code_position [OF this length_keymaps(2)] obtain n where
    n: "n < 128" "key_code keymap_shift c = of_nat n" "keymap_shift ! n = c" by blast
  then have "decode_all [of_nat n, of_nat n OR 0x80] (True, False, False) = ((True, False, False), [sint c])"
    using press_release [of n True] assms by (simp add: typeable_def)
  moreover have "keystroke c = 0x2A # [of_nat n, of_nat n OR 0x80] @ [0xAA]" using False n by (simp add: keystroke_def)
  ultimately show ?thesis by (simp only: decode_all_append decode_all.simps shift_keys) (simp add: shift_keys)
qed

lemma decode_text:
  "list_all typeable t \<Longrightarrow> decode_all (concat (map keystroke t)) released = (released, map sint t)"
  by (induction t) (simp_all add: decode_all_append keystroke_decode)

text \<open>The printable characters, by map and position.\<close>

definition printable_keys :: "(bool \<times> nat) list" where
  "printable_keys = [
     (False, 57), (True, 2), (True, 40), (True, 4), (True, 5), (True, 6), (True, 8), (False, 40),
     (True, 10), (True, 11), (False, 55), (True, 13), (False, 51), (False, 12), (False, 52), (False, 53),
     (False, 11), (False, 2), (False, 3), (False, 4), (False, 5), (False, 6), (False, 7), (False, 8),
     (False, 9), (False, 10), (True, 39), (False, 39), (True, 51), (False, 13), (True, 52), (True, 53),
     (True, 3), (True, 30), (True, 48), (True, 46), (True, 32), (True, 18), (True, 33), (True, 34),
     (True, 35), (True, 23), (True, 36), (True, 37), (True, 38), (True, 50), (True, 49), (True, 24),
     (True, 25), (True, 16), (True, 19), (True, 31), (True, 20), (True, 22), (True, 47), (True, 17),
     (True, 45), (True, 21), (True, 44), (False, 26), (False, 43), (False, 27), (True, 7), (True, 12),
     (False, 41), (False, 30), (False, 48), (False, 46), (False, 32), (False, 18), (False, 33),
     (False, 34), (False, 35), (False, 23), (False, 36), (False, 37), (False, 38), (False, 50),
     (False, 49), (False, 24), (False, 25), (False, 16), (False, 19), (False, 31), (False, 20),
     (False, 22), (False, 47), (False, 17), (False, 45), (False, 21), (False, 44), (True, 26), (True, 43),
     (True, 27), (True, 41)]"

lemma printable_typeable:
  assumes c: "c \<in> set (map of_nat [32..<127])"
  shows "typeable c"
proof -
  have "map (\<lambda>(shift, n). (if shift then keymap_shift else keymap) ! n) printable_keys = map of_nat [32..<127]"
    by code_simp
  moreover have "list_all (\<lambda>(shift, n). n < 128) printable_keys" by code_simp
  moreover note c
  ultimately have "c \<in> (\<lambda>(shift, n). (if shift then keymap_shift else keymap) ! n) ` set printable_keys"
    "\<forall>(shift, n) \<in> set printable_keys. n < 128"
    by (simp_all only: set_map [symmetric] list_all_iff)
  then obtain shift n where "c = (if shift then keymap_shift else keymap) ! n" "n < 128" by fastforce
  then have "c \<in> set keymap \<union> set keymap_shift" using length_keymaps by auto
  moreover from c have "c \<noteq> 0" by (auto simp: word_unat_eq_iff unat_of_nat)
  ultimately show ?thesis by (auto simp: typeable_def)
qed

text \<open>The letters and their scancodes, row by row.\<close>

definition letter_codes :: "(u8 \<times> u8) list" where
  "letter_codes = zip (bytes_of ''qwertyuiop'') (map of_nat [0x10..<0x1A]) @
     zip (bytes_of ''asdfghjkl'') (map of_nat [0x1E..<0x27]) @ zip (bytes_of ''zxcvbnm'') (map of_nat [0x2C..<0x33])"

lemma letter_table:
  "list_all (\<lambda>(c, sc). list_all (\<lambda>(shift, caps).
     decode sc (shift, caps, False) = ((shift, caps, False), Some (sint (if shift \<noteq> caps then c - 32 else c))))
     [(False, False), (False, True), (True, False), (True, True)]) letter_codes"
  by code_simp

lemma letter_decode:
  assumes "(c, sc) \<in> set letter_codes"
  shows "decode sc (shift, caps, False) = ((shift, caps, False), Some (sint (if shift \<noteq> caps then c - 32 else c)))"
proof -
  have "(shift, caps) \<in> set [(False, False), (False, True), (True, False), (True, True)]" by auto
  with letter_table assms show ?thesis unfolding list_all_iff by fastforce
qed

subsection \<open>The controller\<close>

text \<open>The keyboard controller's ports, as documented: bit 0 of the status says whether a byte is
  waiting, reading the status takes nothing and reading the data takes one byte.\<close>

definition kbc_wired :: "'d bus \<Rightarrow> ('d \<Rightarrow> u8 list) \<Rightarrow> bool" where
  "kbc_wired b full \<longleftrightarrow>
     (\<forall>d. bit (fst (port_in b d 0x64)) 0 = (full d \<noteq> [])) \<and>
     (\<forall>d. full (snd (port_in b d 0x64)) = full d) \<and>
     (\<forall>d. full (snd (port_in b d 0x60)) = tl (full d)) \<and>
     (\<forall>d c cs. full d = c # cs \<longrightarrow> fst (port_in b d 0x60) = c)"

definition kbc_bus :: "u8 list bus" where
  "kbc_bus = \<lparr>
     port_in = (\<lambda>d p. if p = 0x60 then (case d of [] \<Rightarrow> (0, []) | c # cs \<Rightarrow> (c, cs))
       else if p = 0x64 then (if d = [] then 0 else 1, d) else (0, d)),
     port_out = (\<lambda>d p v. d),
     port_inw = (\<lambda>d p. (0, d)),
     port_outw = (\<lambda>d p v. d)\<rparr>"

lemma kbc_bus_wired: "kbc_wired kbc_bus (\<lambda>d. d)"
  by (auto simp: kbc_wired_def kbc_bus_def split: list.splits)

lemma status_bit: "status AND 1 \<noteq> (0 :: u8) \<longleftrightarrow> bit status 0"
  by (simp add: and_one_eq odd_iff_mod_2_eq_one bit_0 even_iff_mod_2_eq_zero)

lemma drain_empties:
  assumes "kbc_wired b full"
  shows "\<exists>d'. drain b d = Some d' \<and> full d' = []"
proof (induction "length (full d)" arbitrary: d rule: less_induct)
  case less
  obtain st d1 where st: "inb b KBD_STATUS d = (st, d1)" by fastforce
  have 1: "bit st 0 = (full d \<noteq> [])" "full d1 = full d"
    using assms st by (auto simp: kbc_wired_def inb_def KBD_STATUS_def dest: spec [of _ d])
  show ?case
  proof (cases "full d = []")
    case True
    with 1 st show ?thesis by (subst drain.simps) (simp add: status_bit [simplified])
  next
    case False
    let ?d = "snd (inb b KBD_DATA d1)"
    have "full ?d = tl (full d)" using assms 1(2) by (simp add: kbc_wired_def inb_def KBD_DATA_def)
    with False less.hyps [of ?d] 1 st show ?thesis
      by (subst drain.simps) (simp add: status_bit [simplified])
  qed
qed

lemma keyboard_ok_empty: "length (buffer k) = 128 \<Longrightarrow> head k = 0 \<Longrightarrow> tail k = 0 \<Longrightarrow> keyboard_ok k \<and> pending k = []"
  by (simp add: keyboard_ok_def pending_def waiting_def)

lemma keyboard_init_starts:
  assumes "kbc_wired b full" and "length (buffer k) = 128" and "length slots = 16"
  shows "\<exists>k' d'. drain b d = Some d' \<and> full d' = [] \<and> keyboard_ok k' \<and> pending k' = [] \<and> flags_of k' = released \<and>
    keyboard_getchar k' = Some (0, k') \<and> keyboard_init b slots (k, d) = Some (slots[1 := Some Keyboard_callback], k', d')"
proof -
  let ?k = "k\<lparr>head := 0, tail := 0, shift_held := False, caps_on := False, extended := False\<rparr>"
  from drain_empties [OF assms(1)] obtain d' where "drain b d = Some d'" "full d' = []" by blast
  moreover have "keyboard_ok ?k \<and> pending ?k = []" using assms(2) by (intro keyboard_ok_empty) simp_all
  ultimately show ?thesis using assms(3)
    by (simp add: keyboard_init_def irq_install_handler_def aset_def flags_of_def released_def keyboard_getchar_def)
qed

subsection \<open>Properties\<close>

definition demo_keyboard :: keyboard where
  "demo_keyboard = \<lparr>shift_held = False, caps_on = False, extended = False, buffer = replicate 128 0,
     head = 126, tail = 126\<rparr>"

lemma demo_keyboard_ok: "keyboard_ok demo_keyboard" "pending demo_keyboard = []" "waiting demo_keyboard = 0"
  "flags_of demo_keyboard = released"
  by (simp_all add: demo_keyboard_def keyboard_ok_def pending_def waiting_def flags_of_def released_def)

text \<open>
  Keys come out in the order they went in. Any mix of scancodes and calls of
  \<open>keyboard_getchar\<close> is free of accesses outside the buffer and answers like a list of at most 127
  keys: what was answered, followed by what is waiting, is what was let in; a key is dropped only
  when 127 are waiting, and the answer 0 always means that nothing is.
\<close>

theorem keyboard_fifo:
  assumes "keyboard_ok k"
  shows "\<exists>out k'. keyboard_run ops k = Some (out, k') \<and> keyboard_ok k' \<and> length (pending k') \<le> 127 \<and>
    (out, pending k') = list_run 127 0 (queue_ops ops (flags_of k)) (pending k) \<and>
    filter (\<lambda>c. c \<noteq> 0) out @ pending k' = pending k @ accepted 127 (queue_ops ops (flags_of k)) (length (pending k))"
proof -
  obtain out k' where r: "keyboard_run ops k = Some (out, k')" "keyboard_ok k'"
    "(out, pending k') = list_run 127 0 (queue_ops ops (flags_of k)) (pending k)"
    using keyboard_run_queue [OF assms, of ops] by fastforce
  have "0 \<notin> set (pending k)" using keys.pending_elements [OF assms] keys.none_no_element by blast
  moreover have "\<forall>x. Push x \<in> set (queue_ops ops (flags_of k)) \<longrightarrow> x \<noteq> 0" using queue_ops_nonzero [of ops "flags_of k"] by auto
  ultimately have "filter (\<lambda>c. c \<noteq> 0) out @ pending k' = pending k @ accepted 127 (queue_ops ops (flags_of k)) (length (pending k))"
    using list_run_accepted [of 0 "pending k" _ 127] keys.pending_bound [OF assms] r(3) by (metis fst_conv snd_conv)
  with r keys.pending_bound [OF r(2)] show ?thesis by blast
qed

theorem keyboard_fifo_witness:
  "\<exists>k'. keyboard_run [Scancode 0x23, Getchar, Getchar, Scancode 0x17, Scancode 0x97] demo_keyboard = Some ([104, 0], k') \<and>
    pending k' = [105]"
proof -
  have l: "list_run 127 0 (queue_ops [Scancode 0x23, Getchar, Getchar, Scancode 0x17, Scancode 0x97] (False, False, False)) [] =
      ([104, 0 :: int], [105])" by code_simp
  from keyboard_fifo [OF demo_keyboard_ok(1), of "[Scancode 0x23, Getchar, Getchar, Scancode 0x17, Scancode 0x97]"]
  show ?thesis unfolding demo_keyboard_ok released_def l by auto
qed

text \<open>
  C29: An interrupt in the middle of \<open>keyboard_getchar\<close> does no harm. Wherever keyboard interrupts
  fall between its accesses, the keys answered followed by the keys waiting are exactly the keys
  let in; the load always finds its slot, and no byte is without effect. The accesses are those of \<open>keyboard_getchar\<close>: a step is either the
  next of them or an interrupt, and all of them in a row are the call.
\<close>

theorem keyboard_preemption:
  assumes "preempt_reachable s"
  shows "filter (\<lambda>c. c \<noteq> 0) (answers s) @ pending (kb s) = queued s \<and> length (pending (kb s)) \<le> 127 \<and>
    scancode_event sc (kb s) \<noteq> None \<and>
    (at s = Not_empty \<longrightarrow> aget (buffer (kb s)) (unat (tail (kb s))) \<noteq> None) \<and>
    (\<forall>s'. preempt_step s s' \<longleftrightarrow> getchar_access s = Some s' \<or>
      (\<exists>sc k. scancode_event sc (kb s) = Some k \<and> s' = s\<lparr>kb := k, queued := queued s @ let_in sc (kb s)\<rparr>)) \<and>
    (at s = Outside \<longrightarrow> getchar_accesses s = map_option (\<lambda>(c, k). s\<lparr>kb := k, answers := answers s @ [c]\<rparr>) (keyboard_getchar (kb s)))"
proof -
  from preempt_reachable_inv [OF assms] have inv: "keyboard_ok (kb s)" "point_ok (kb s) (at s)"
    "filter (\<lambda>c. c \<noteq> 0) (answers s) @ pending (kb s) = queued s" by (simp_all add: preempt_inv_def)
  with front [OF inv(1)] scancode_event_correct [OF inv(1), of sc] keys.pending_bound [OF inv(1)]
  have "at s = Not_empty \<longrightarrow> aget (buffer (kb s)) (unat (tail (kb s))) \<noteq> None" "scancode_event sc (kb s) \<noteq> None"
    "length (pending (kb s)) \<le> 127" by (auto simp: point_ok_def)
  with inv(3) preempt_step_access [of s] accesses_getchar [of s] show ?thesis by blast
qed

text \<open>The same keyboard after an h.\<close>

definition demo_keyboard_h :: keyboard where
  "demo_keyboard_h = demo_keyboard\<lparr>buffer := (replicate 128 0)[126 := 104], head := 127\<rparr>"

definition demo_preempted :: preempted where
  "demo_preempted = \<lparr>kb = demo_keyboard_h, at = Outside, answers = [0], queued = [104]\<rparr>"

text \<open>The call reads an empty queue, the key arrives, and the call answers 0 all the same.\<close>

lemma demo_preempted_reachable: "preempt_reachable demo_preempted"
proof -
  let ?s0 = "\<lparr>kb = demo_keyboard, at = Outside, answers = [], queued = pending demo_keyboard\<rparr>"
  let ?s1 = "\<lparr>kb = demo_keyboard, at = Read_head 126, answers = [], queued = []\<rparr>"
  let ?s2 = "\<lparr>kb = demo_keyboard_h, at = Read_head 126, answers = [], queued = [104]\<rparr>"
  have pos: "head demo_keyboard = 126" "tail demo_keyboard_h = 126"
    by (simp_all only: demo_keyboard_h_def demo_keyboard_def keyboard.simps)
  have ev: "scancode_event 0x23 demo_keyboard = Some demo_keyboard_h" by code_simp
  have "decode 0x23 (False, False, False) = ((False, False, False), Some 104)" by code_simp
  then have key: "let_in 0x23 demo_keyboard = [104]" by (simp add: let_in_def demo_keyboard_ok released_def)
  have "preempt_step ?s0 ?s1" using preempt_step.read_head [of ?s0] by (simp add: pos demo_keyboard_ok)
  moreover have "preempt_step ?s1 ?s2" using preempt_step.interrupt [of "0x23" ?s1] by (simp add: ev key)
  moreover have "preempt_step ?s2 demo_preempted"
    using preempt_step.return_0 [of ?s2 126] by (simp add: pos demo_preempted_def)
  ultimately show ?thesis
    using preempt_reachable.start [OF demo_keyboard_ok(1)] preempt_reachable.step by meson
qed

theorem keyboard_preemption_witness:
  "filter (\<lambda>c. c \<noteq> 0) [0] @ pending (kb demo_preempted) = [104] \<and> scancode_event 0x17 (kb demo_preempted) \<noteq> None"
  using keyboard_preemption [OF demo_preempted_reachable, of "0x17"] by (simp add: demo_preempted_def)

text \<open>
  Typing works. With no modifier active, pressing and releasing the keys of a text on the US
  layout, with shift where a character needs it, queues exactly that text and leaves no modifier
  active. Every printable ASCII character can be typed.
\<close>

theorem keyboard_types_text:
  assumes "keyboard_ok k" and "flags_of k = released" and "list_all typeable t" and "waiting k + length t \<le> 127"
  shows "\<exists>k'. scancodes (concat (map keystroke t)) k = Some k' \<and> keyboard_ok k' \<and> flags_of k' = released \<and>
    pending k' = pending k @ map sint t \<and> list_all typeable (map of_nat [32..<127])"
proof -
  have "list_all typeable (map of_nat [32..<127])" unfolding list_all_iff using printable_typeable by blast
  with scancodes_correct [OF assms(1), of "concat (map keystroke t)"] assms(4) show ?thesis
    unfolding assms(2) decode_text [OF assms(3)] fst_conv snd_conv length_map by blast
qed

theorem keyboard_types_text_witness:
  "\<exists>k'. scancodes (concat (map keystroke [72, 105, 33])) demo_keyboard = Some k' \<and> pending k' = map sint [72, 105, 33 :: u8]"
proof -
  have "list_all (\<lambda>c. c \<in> set (map of_nat [32..<127])) [72, 105, 33 :: u8]" by code_simp
  then have t: "list_all typeable [72, 105, 33]" unfolding list_all_iff using printable_typeable by blast
  have "waiting demo_keyboard + length [72, 105, 33 :: u8] \<le> 127" by (simp add: demo_keyboard_ok)
  from keyboard_types_text [OF demo_keyboard_ok(1,4) t this] show ?thesis
    unfolding demo_keyboard_ok append_Nil by blast
qed

text \<open>
  Letters follow shift and caps lock. Pressing a letter key queues the capital exactly when one of
  the two is active but not both, and changes neither.
\<close>

theorem keyboard_letters:
  assumes "keyboard_ok k" and "\<not> extended k" and "waiting k < 127" and "(c, sc) \<in> set letter_codes"
  shows "\<exists>k'. scancode_event sc k = Some k' \<and> keyboard_ok k' \<and> flags_of k' = flags_of k \<and>
    pending k' = pending k @ [sint (if shift_held k \<noteq> caps_on k then c - 32 else c)]"
proof -
  have f: "flags_of k = (shift_held k, caps_on k, False)" using assms(2) by (simp add: flags_of_def)
  from scancode_event_correct [OF assms(1), of sc] show ?thesis
    unfolding f letter_decode [OF assms(4)] fst_conv snd_conv enqueue_def using assms(3) by auto
qed

theorem keyboard_letters_witness:
  "\<exists>k'. scancode_event 0x1E demo_keyboard = Some k' \<and> pending k' = [97]"
proof -
  have "(97, 0x1E) \<in> set letter_codes" by code_simp
  moreover have "\<not> extended demo_keyboard" "\<not> shift_held demo_keyboard" "\<not> caps_on demo_keyboard"
    by (simp_all add: demo_keyboard_def)
  ultimately show ?thesis
    using keyboard_letters [OF demo_keyboard_ok(1), of 97 "0x1E"] by (auto simp: demo_keyboard_ok)
qed

text \<open>
  Starting the keyboard. However many bytes the controller still holds, \<open>keyboard_init\<close> reads them
  all and ends; then no key is waiting, no modifier is active, \<open>keyboard_getchar\<close> answers 0, and line 1
  has the driver's handler.
\<close>

theorem keyboard_init_ready:
  assumes "kbc_wired b full" and "length (buffer k) = 128" and "length slots = 16"
  shows "\<exists>slots' k' d'. keyboard_init b slots (k, d) = Some (slots', k', d') \<and> full d' = [] \<and>
    keyboard_ok k' \<and> pending k' = [] \<and> flags_of k' = released \<and> keyboard_getchar k' = Some (0, k') \<and>
    slots' = slots[1 := Some Keyboard_callback]"
  using keyboard_init_starts [OF assms, of d] by blast

theorem keyboard_init_ready_witness:
  "\<exists>slots' k' d'. keyboard_init kbc_bus irq_handlers (demo_keyboard, [0x1E, 0x9E]) = Some (slots', k', d') \<and> d' = [] \<and>
    keyboard_getchar k' = Some (0, k')"
proof -
  have "length (buffer demo_keyboard) = 128" "length irq_handlers = 16"
    by (simp_all add: demo_keyboard_def irq_handlers_def)
  from keyboard_init_ready [OF kbc_bus_wired this] show ?thesis by blast
qed

end
