(* ===== verification/Timer.thy ===== *)
theory Timer
  imports Interrupts
begin

text \<open>
  \<^verbatim>\<open>drivers/timer.c\<close>: the tick counter and the sleep loop. The counter is a 32-bit word that wraps.
  While the loop halts, interrupts run; how many of them are ticks between one test of the loop and
  the next is not up to the code, so it is an argument: a list of numbers, one for each halt.
\<close>

definition PIT_FREQUENCY :: u32 where "PIT_FREQUENCY = 1193182"
definition PIT_CHANNEL0 :: u16 where "PIT_CHANNEL0 = 0x40"
definition PIT_COMMAND :: u16 where "PIT_COMMAND = 0x43"
definition TIMER_HZ :: u32 where "TIMER_HZ = 100"

text \<open>The state of the driver is its counter.\<close>

type_synonym ticks = u32

definition timer_ticks :: "ticks \<Rightarrow> u32" where
  "timer_ticks t = t"

definition timer_seconds :: "ticks \<Rightarrow> u32" where
  "timer_seconds t = t div TIMER_HZ"

definition timer_callback :: "ticks \<Rightarrow> ticks" where
  "timer_callback t = t + 1"

text \<open>\<open>None\<close>: still waiting when the list of halts is used up. Otherwise the counter and the halts left.\<close>

fun sleep_loop :: "u32 \<Rightarrow> nat list \<Rightarrow> ticks \<Rightarrow> (ticks \<times> nat list) option" where
  "sleep_loop target [] t = (if sint (target - t) > 0 then None else Some (t, []))"
| "sleep_loop target (w # ws) t =
     (if sint (target - t) > 0 then sleep_loop target ws ((timer_callback ^^ w) t) else Some (t, w # ws))"

definition timer_sleep :: "u32 \<Rightarrow> nat list \<Rightarrow> ticks \<Rightarrow> (ticks \<times> nat list) option" where
  "timer_sleep ms ws t =
     (let wanted = (ms * TIMER_HZ + 999) div 1000; target = t + wanted in sleep_loop target ws t)"

definition timer_init :: "'d bus \<Rightarrow> irq_callback option list \<Rightarrow> ticks \<times> 'd \<Rightarrow>
    (irq_callback option list \<times> ticks \<times> 'd) option" where
  "timer_init b slots = (\<lambda>(t, d). do {
     let divisor = PIT_FREQUENCY div TIMER_HZ;
     let t = 0;
     let d = outb b PIT_COMMAND 0x36 d;
     let d = outb b PIT_CHANNEL0 (ucast (divisor AND 0xFF)) d;
     let d = outb b PIT_CHANNEL0 (ucast (drop_bit 8 divisor AND 0xFF)) d;
     slots \<leftarrow> irq_install_handler 0 Timer_callback slots;
     Some (slots, t, d) })"

subsection \<open>Sleeping\<close>

lemma callback_times: "(timer_callback ^^ w) t = t + of_nat w"
  by (induction w) (simp_all add: timer_callback_def algebra_simps)

text \<open>The signed difference counts the ticks that are missing, also where the counter wraps.\<close>

lemma missing_ticks:
  assumes "wanted < 2 ^ 31" "past < wanted + 2 ^ 31 + 1"
  shows "sint ((t + of_nat wanted) - (t + of_nat past) :: u32) > 0 \<longleftrightarrow> past < wanted"
proof -
  have "(t + of_nat wanted) - (t + of_nat past) = (word_of_int (int wanted - int past) :: u32)" by simp
  then have s: "sint ((t + of_nat wanted) - (t + of_nat past) :: u32) = signed_take_bit 31 (int wanted - int past)"
    by (simp only: signed_of_int) simp
  show ?thesis
  proof (cases "past = wanted + 2 ^ 31")
    case True
    then have "int wanted - int past = - (2 ^ 31)" by simp
    then show ?thesis unfolding s using True by simp
  next
    case False
    with assms have "- (2 ^ 31) \<le> int wanted - int past" "int wanted - int past < 2 ^ 31" by (simp; linarith)+
    then have "signed_take_bit 31 (int wanted - int past) = int wanted - int past"
      by (intro signed_take_bit_int_eq_self) simp_all
    then show ?thesis unfolding s by simp
  qed
qed

lemma sleep_loop_ends:
  assumes "wanted < 2 ^ 31" "\<forall>w \<in> set ws. w \<le> 2 ^ 31"
  shows "past < wanted + 2 ^ 31 + 1 \<Longrightarrow> wanted \<le> past + sum_list ws \<Longrightarrow>
    \<exists>n \<le> length ws. sleep_loop (t + of_nat wanted) ws (t + of_nat past) =
        Some (t + of_nat (past + sum_list (take n ws)), drop n ws) \<and>
      wanted \<le> past + sum_list (take n ws) \<and> (\<forall>m < n. past + sum_list (take m ws) < wanted)"
  using assms(2)
proof (induction ws arbitrary: past)
  case Nil
  then show ?case using missing_ticks [OF assms(1) Nil.prems(1), of t] by simp
next
  case (Cons w ws)
  note test = missing_ticks [OF assms(1) Cons.prems(1), of t]
  show ?case
  proof (cases "past < wanted")
    case True
    with Cons.prems obtain n where n: "n \<le> length ws"
      "sleep_loop (t + of_nat wanted) ws (t + of_nat (past + w)) =
        Some (t + of_nat (past + w + sum_list (take n ws)), drop n ws)"
      "wanted \<le> past + w + sum_list (take n ws)" "\<forall>m < n. past + w + sum_list (take m ws) < wanted"
      using Cons.IH [of "past + w"] by (auto simp: add.assoc)
    have "past + sum_list (take m (w # ws)) < wanted" if "m < Suc n" for m
      using that n(4) True by (cases m) (auto simp: add.assoc)
    moreover have "t + of_nat past + of_nat w = (t + of_nat (past + w) :: u32)" by simp
    ultimately show ?thesis
      using n True test by (intro exI [of _ "Suc n"]) (simp add: callback_times add.assoc)
  next
    case False
    with test show ?thesis by (intro exI [of _ 0]) simp
  qed
qed

lemma wanted_ticks:
  assumes "unat (ms :: u32) * 100 + 999 < 2 ^ 32"
  shows "unat ((ms * TIMER_HZ + 999) div 1000) = (unat ms * 100 + 999) div 1000"
proof -
  have "unat (ms * 100) = unat ms * 100" using assms by (subst unat_mult_lem [THEN iffD1]) simp_all
  then have "unat (ms * 100 + 999) = unat ms * 100 + 999" using assms by (subst unat_add_lem [THEN iffD1]) simp_all
  then show ?thesis by (simp add: TIMER_HZ_def unat_div)
qed

text \<open>In general, with the product taken in 32 bits.\<close>

definition wanted_of :: "u32 \<Rightarrow> nat" where
  "wanted_of ms = (unat ms * 100 + 999) mod 2 ^ 32 div 1000"

lemma wanted_ticks_wrap: "unat ((ms * TIMER_HZ + 999) div 1000) = wanted_of ms"
  by (simp add: wanted_of_def TIMER_HZ_def unat_div unat_word_ariths mod_add_left_eq)

lemma wanted_reached: "unat ms \<le> 42949662 \<Longrightarrow> wanted_of ms \<le> s \<longleftrightarrow> unat ms \<le> 10 * s"
proof -
  assume "unat ms \<le> 42949662"
  then have "wanted_of ms = (unat ms * 100 + 999) div 1000" by (simp add: wanted_of_def)
  then show ?thesis by arith
qed

subsection \<open>The interval timer\<close>

text \<open>
  Channel 0 as documented: a command selects the mode and that the low and then the high byte of
  the reload value follow.
\<close>

record pit =
  expecting :: nat
  pit_mode :: u8
  reload :: u16

definition pit_out :: "u16 \<Rightarrow> u8 \<Rightarrow> pit \<Rightarrow> pit" where
  "pit_out port v p =
     (if port = 0x43 then
        (if drop_bit 6 v = 0 \<and> drop_bit 4 v AND 3 = 3
         then p\<lparr>expecting := 2, pit_mode := drop_bit 1 v AND 7\<rparr> else p)
      else if port = 0x40 then
        (if expecting p = 2 then p\<lparr>expecting := 1, reload := (reload p AND 0xFF00) OR ucast v\<rparr>
         else if expecting p = 1 then p\<lparr>expecting := 0, reload := (reload p AND 0x00FF) OR push_bit 8 (ucast v)\<rparr>
         else p)
      else p)"

definition pit_wired :: "'d bus \<Rightarrow> ('d \<Rightarrow> pit) \<Rightarrow> bool" where
  "pit_wired b view \<longleftrightarrow> (\<forall>d port v. view (port_out b d port v) = pit_out port v (view d))"

lemma low_then_high:
  "(((r AND 0xFF00) OR ucast (lo :: u8)) AND 0x00FF) OR push_bit 8 (ucast (hi :: u8)) = un_le16 lo (hi :: u8)"
proof -
  have m: "(0xFF00 :: u16) = push_bit 8 (mask 8)" "(0x00FF :: u16) = mask 8" by (simp_all add: mask_eq_exp_minus_1)
  show ?thesis unfolding m un_le16_def
    by (rule bit_word_eqI) (auto simp: bit_simps dest: bit_imp_le_length)
qed

definition pit_bus :: "pit bus" where
  "pit_bus = \<lparr>port_in = (\<lambda>d p. (0, d)), port_out = (\<lambda>d p v. pit_out p v d),
     port_inw = (\<lambda>d p. (0, d)), port_outw = (\<lambda>d p v. d)\<rparr>"

lemma pit_bus_wired: "pit_wired pit_bus (\<lambda>d. d)"
  by (simp add: pit_wired_def pit_bus_def)

subsection \<open>Properties\<close>

text \<open>
  C35: Sleeping lasts. For every duration and at every value of the counter \<open>timer_sleep\<close> ends, when enough ticks come, at the first
  halt after which the ticks it computed have come, never before. For up to 42949662 ms, some 11.9 hours, these are the ticks of
  10 ms that make up the duration; beyond that the product with the frequency is taken modulo 2^32, and the sleep is too
  short. A single halt lasts at most 2^31 ticks.
\<close>

theorem timer_sleep_lasts:
  assumes "\<forall>w \<in> set ws. w \<le> 2 ^ 31" and "wanted_of ms \<le> sum_list ws"
  shows "\<exists>n \<le> length ws. timer_sleep ms ws t = Some (t + of_nat (sum_list (take n ws)), drop n ws) \<and>
    wanted_of ms \<le> sum_list (take n ws) \<and> (\<forall>m < n. sum_list (take m ws) < wanted_of ms) \<and>
    (unat ms \<le> 42949662 \<longrightarrow> unat ms \<le> 10 * sum_list (take n ws) \<and> (\<forall>m < n. 10 * sum_list (take m ws) < unat ms))"
proof -
  have w: "(ms * TIMER_HZ + 999) div 1000 = of_nat (wanted_of ms)"
    unfolding wanted_ticks_wrap [symmetric] by simp
  have "(unat ms * 100 + 999) mod 2 ^ 32 < (2 ^ 32 :: nat)" by (rule mod_less_divisor) simp
  then have "wanted_of ms < 2 ^ 31" unfolding wanted_of_def by simp
  moreover have "wanted_of ms \<le> 0 + sum_list ws" using assms(2) by simp
  ultimately obtain n where n: "n \<le> length ws"
    "sleep_loop (t + of_nat (wanted_of ms)) ws (t + of_nat 0) = Some (t + of_nat (0 + sum_list (take n ws)), drop n ws)"
    "wanted_of ms \<le> 0 + sum_list (take n ws)" "\<forall>m < n. 0 + sum_list (take m ws) < wanted_of ms"
    using sleep_loop_ends [OF _ assms(1), of "wanted_of ms" 0 t] by auto
  have "unat ms \<le> 42949662 \<longrightarrow> unat ms \<le> 10 * sum_list (take n ws) \<and> (\<forall>m < n. 10 * sum_list (take m ws) < unat ms)"
    using n(3,4) wanted_reached [of ms] by (auto simp: not_le [symmetric])
  with n show ?thesis by (intro exI [of _ n]) (simp add: timer_sleep_def w)
qed

text \<open>Across the wrap-around of the counter: 25 ms from four ticks before zero, with two halts woken early.\<close>

theorem timer_sleep_lasts_witness: "timer_sleep 25 [1, 0, 0, 2, 7] 0xFFFFFFFE = Some (1, [7])"
proof -
  let ?ws = "[1, 0, 0, 2, 7] :: nat list"
  have "\<forall>w \<in> set ?ws. w \<le> 2 ^ 31" "wanted_of 25 \<le> sum_list ?ws"
    by (simp_all add: wanted_of_def)
  moreover have "unat (25 :: u32) \<le> 42949662" by simp
  ultimately obtain n where n: "n \<le> length ?ws"
    "timer_sleep 25 ?ws 0xFFFFFFFE = Some (0xFFFFFFFE + of_nat (sum_list (take n ?ws)), drop n ?ws)"
    "unat (25 :: u32) \<le> 10 * sum_list (take n ?ws)" "\<forall>m < n. 10 * sum_list (take m ?ws) < unat (25 :: u32)"
    using timer_sleep_lasts [of ?ws 25 "0xFFFFFFFE"] by blast
  from n(1) have "n \<le> 5" by simp
  then consider "n = 0" | "n = 1" | "n = 2" | "n = 3" | "n = 4" | "n = 5" by linarith
  then have "n = 4" using n(3) n(4) [rule_format, of 4] by cases simp_all
  with n(2) show ?thesis by simp
qed

text \<open>Longer durations wrap: one just above 11.9 hours is over after a single tick.\<close>

lemma timer_sleep_wraps: "timer_sleep 42949673 [1] 0 = Some (1, [])"
  by code_simp

text \<open>
  The tick rate. \<open>timer_init\<close> programs channel 0 as a square wave whose rate is within a ten-thousandth
  of \<open>TIMER_HZ\<close>, starts the counter at 0 and installs the handler on line 0, leaving the other lines alone.
\<close>

theorem timer_init_rate:
  assumes "pit_wired b view" and "length slots = 16"
  shows "\<exists>d'. timer_init b slots (t, d) = Some (slots[0 := Some Timer_callback], 0, d') \<and>
    expecting (view d') = 0 \<and> pit_mode (view d') = 3 \<and>
    10000 * \<bar>1193182 - int (unat TIMER_HZ) * int (unat (reload (view d')))\<bar> < 1193182"
proof -
  have div: "PIT_FREQUENCY div TIMER_HZ = 11931" by code_simp
  have bytes: "ucast (11931 AND 0xFF :: u32) = (0x9B :: u8)" "ucast (drop_bit 8 11931 AND 0xFF :: u32) = (0x2E :: u8)"
    by code_simp+
  have cmd: "drop_bit 6 (0x36 :: u8) = 0" "drop_bit 4 (0x36 :: u8) AND 3 = 3" "drop_bit 1 (0x36 :: u8) AND 7 = 3"
    by code_simp+
  have rel: "un_le16 0x9B 0x2E = 11931" by code_simp
  let ?d = "outb b PIT_CHANNEL0 0x2E (outb b PIT_CHANNEL0 0x9B (outb b PIT_COMMAND 0x36 d))"
  have view: "view (outb b port v d) = pit_out port v (view d)" for port v d
    using assms(1) by (simp add: pit_wired_def outb_def)
  have p: "view ?d = \<lparr>expecting = 0, pit_mode = 3, reload = 11931\<rparr>"
    unfolding view PIT_CHANNEL0_def PIT_COMMAND_def
    using low_then_high [of "reload (view d)" "0x9B" "0x2E"] by (simp add: pit_out_def cmd rel)
  have "timer_init b slots (t, d) = Some (slots[0 := Some Timer_callback], 0, ?d)"
    using assms(2) by (simp add: timer_init_def div bytes irq_install_handler_def aset_def)
  then show ?thesis using p by (simp add: TIMER_HZ_def)
qed

theorem timer_init_rate_witness:
  "\<exists>d'. timer_init pit_bus irq_handlers (5, \<lparr>expecting = 1, pit_mode = 2, reload = 7\<rparr>) =
      Some (irq_handlers[0 := Some Timer_callback], 0, d') \<and> expecting d' = 0 \<and> pit_mode d' = 3"
proof -
  have "length irq_handlers = 16" by (simp add: irq_handlers_def)
  from timer_init_rate [OF pit_bus_wired this] show ?thesis by blast
qed

end
