(* ===== verification/User.thy ===== *)
theory User
  imports Fish_Props
begin

text \<open>
  \<^verbatim>\<open>kernel/user.c\<close>: the names of the user and the machine, and the file that keeps them. The state
  is the two arrays; a \<open>char *\<close> that may be null is an option. The local arrays of the C functions are
  uninitialised; here they hold zeros, since every position is stored before it is read.
\<close>

definition USER_NAME_MAX :: nat where "USER_NAME_MAX = 32"

record user =
  u_name :: bytes
  u_host :: bytes

text \<open>The loop that checks the characters: \<open>value[i] <= ' '\<close> on a signed \<open>char\<close>.\<close>

fun field_chars :: "bytes \<Rightarrow> bool option" where
  "field_chars [] = None"
| "field_chars (c # s) = (if c = 0 then Some True else if blank_or_control c then Some False else field_chars s)"

text \<open>The loop that copies, from position \<open>i\<close> on: the array and the position after the last character.\<close>

fun copy_field :: "nat \<Rightarrow> bytes \<Rightarrow> bytes \<Rightarrow> (bytes \<times> nat) option" where
  "copy_field i s field =
     (if i < USER_NAME_MAX - 1 then
        (case s of [] \<Rightarrow> None
         | c # s \<Rightarrow> if c = 0 then Some (field, i) else do { field \<leftarrow> aset field i c; copy_field (Suc i) s field })
      else Some (field, i))"

declare copy_field.simps [simp del]

definition set_field :: "bytes \<Rightarrow> bytes option \<Rightarrow> (int \<times> bytes) option" where
  "set_field field value = (case value of None \<Rightarrow> Some (0, field) | Some s \<Rightarrow> do {
     c \<leftarrow> aget s 0;
     if c = 0 then Some (0, field)
     else do {
       ok \<leftarrow> field_chars s;
       if \<not> ok then Some (0, field)
       else do {
         (field, i) \<leftarrow> copy_field 0 s field;
         field \<leftarrow> aset field i 0;
         Some (1, field) } } })"

definition user_init :: "user \<Rightarrow> user option" where
  "user_init u = do {
     n \<leftarrow> strcpy (u_name u) (literal ''user'');
     h \<leftarrow> strcpy (u_host u) (literal ''yunix'');
     Some (u\<lparr>u_name := n, u_host := h\<rparr>) }"

definition user_name :: "user \<Rightarrow> bytes" where "user_name u = u_name u"
definition user_host :: "user \<Rightarrow> bytes" where "user_host u = u_host u"

definition user_set_name :: "bytes option \<Rightarrow> user \<Rightarrow> (int \<times> user) option" where
  "user_set_name value u = do { (r, n) \<leftarrow> set_field (u_name u) value; Some (r, u\<lparr>u_name := n\<rparr>) }"

definition user_set_host :: "bytes option \<Rightarrow> user \<Rightarrow> (int \<times> user) option" where
  "user_set_host value u = do { (r, h) \<leftarrow> set_field (u_host u) value; Some (r, u\<lparr>u_host := h\<rparr>) }"

definition CONFIG_FILE :: bytes where "CONFIG_FILE = literal ''ys.conf''"

text \<open>\<open>for (i = 0; s[i] != 0; i++) text[pos++] = s[i];\<close>\<close>

fun append_text :: "bytes \<Rightarrow> bytes \<times> nat \<Rightarrow> (bytes \<times> nat) option" where
  "append_text [] st = None"
| "append_text (c # s) (txt, pos) =
     (if c = 0 then Some (txt, pos) else do { txt \<leftarrow> aset txt pos c; append_text s (txt, Suc pos) })"

definition config_text :: "user \<Rightarrow> bytes option" where
  "config_text u = do {
     (txt, pos) \<leftarrow> append_text (u_name u) (replicate (USER_NAME_MAX * 2 + 4) 0, 0);
     txt \<leftarrow> aset txt pos 10;
     (txt, pos) \<leftarrow> append_text (u_host u) (txt, Suc pos);
     txt \<leftarrow> aset txt pos 10;
     aset txt (Suc pos) 0 }"

definition user_save :: "user \<Rightarrow> fish \<Rightarrow> (int \<times> fish) option" where
  "user_save u fs = do {
     let saved = fish_save_cwd fs;
     (_, fs) \<leftarrow> fish_chdir (Some (literal ''/'')) fs;
     (_, fs) \<leftarrow> fish_create (Some CONFIG_FILE) fs;
     txt \<leftarrow> config_text u;
     (r, fs) \<leftarrow> fish_write CONFIG_FILE txt fs;
     fs \<leftarrow> fish_restore_cwd saved fs;
     Some (if r = FISH_OK then 1 else 0, fs) }"

text \<open>
  The loop of \<open>user_load\<close>, with \<open>k\<close> characters left from position \<open>i\<close> on; \<open>pos\<close> is the position in
  the local array \<open>field\<close>.
\<close>

definition end_line :: "nat \<Rightarrow> bytes \<Rightarrow> nat \<Rightarrow> user \<Rightarrow> (bytes \<times> user) option" where
  "end_line line field pos u = do {
     field \<leftarrow> aset field pos 0;
     if pos > 0 then
       (if line = 0 then do { (_, n) \<leftarrow> set_field (u_name u) (Some field); Some (field, u\<lparr>u_name := n\<rparr>) }
        else if line = 1 then do { (_, h) \<leftarrow> set_field (u_host u) (Some field); Some (field, u\<lparr>u_host := h\<rparr>) }
        else Some (field, u))
     else Some (field, u) }"

fun load_lines :: "nat \<Rightarrow> nat \<Rightarrow> bytes \<Rightarrow> nat \<Rightarrow> bytes \<Rightarrow> nat \<Rightarrow> user \<Rightarrow> user option" where
  "load_lines 0 i data line field pos u = map_option snd (end_line line field pos u)"
| "load_lines (Suc k) i data line field pos u = do {
     c \<leftarrow> aget data i;
     if c \<noteq> 10 then
       (if pos < USER_NAME_MAX - 1 then do {
          field \<leftarrow> aset field pos c;
          load_lines k (Suc i) data line field (Suc pos) u }
        else load_lines k (Suc i) data line field pos u)
     else do {
       (field, u) \<leftarrow> end_line line field pos u;
       if Suc line > 1 then Some u else load_lines k (Suc i) data (Suc line) field 0 u } }"

definition user_load :: "user \<Rightarrow> fish \<Rightarrow> (int \<times> user \<times> fish) option" where
  "user_load u fs = do {
     let saved = fish_save_cwd fs;
     (_, fs) \<leftarrow> fish_chdir (Some (literal ''/'')) fs;
     data \<leftarrow> fish_read CONFIG_FILE fs;
     fs \<leftarrow> fish_restore_cwd saved fs;
     (case data of None \<Rightarrow> Some (0, u, fs)
      | Some (len, data) \<Rightarrow> do {
          u \<leftarrow> load_lines (unat len) 0 data 0 (replicate USER_NAME_MAX 0) 0 u;
          Some (1, u, fs) }) }"

subsection \<open>Fields\<close>

text \<open>What the arrays always hold: a name of 1 to 31 visible characters.\<close>

definition visible_name :: "bytes \<Rightarrow> bool" where
  "visible_name x \<longleftrightarrow> x \<noteq> [] \<and> length x < USER_NAME_MAX \<and> list_all (\<lambda>c. \<not> blank_or_control c) x"

definition field_ok :: "bytes \<Rightarrow> bool" where
  "field_ok f \<longleftrightarrow> length f = USER_NAME_MAX \<and> terminated f \<and> visible_name (text_of f)"

definition user_ok :: "user \<Rightarrow> bool" where
  "user_ok u \<longleftrightarrow> field_ok (u_name u) \<and> field_ok (u_host u)"

lemma field_chars_eq:
  "terminated s \<Longrightarrow> field_chars s = Some (list_all (\<lambda>c. \<not> blank_or_control c) (text_of s))"
  by (induction s) auto

lemma copy_field_eq:
  "terminated s \<Longrightarrow> length field = 32 \<Longrightarrow> i \<le> 31 \<Longrightarrow>
   copy_field i s field = Some (let t = take (31 - i) (text_of s) in
     (take i field @ t @ drop (i + length t) field, i + length t))"
proof (induction s arbitrary: i field)
  case (Cons c s)
  show ?case
  proof (cases "i < 31 \<and> c \<noteq> 0")
    case False
    then show ?thesis using Cons.prems by (subst copy_field.simps) (auto simp: USER_NAME_MAX_def Let_def)
  next
    case True
    have "take (Suc i) (field[i := c]) = take i field @ [c]"
      using True Cons.prems(2) by (simp add: take_Suc_conv_app_nth)
    moreover have "31 - i = Suc (31 - Suc i)" using True by arith
    ultimately show ?thesis using True Cons.prems Cons.IH [of "field[i := c]" "Suc i"]
      by (subst copy_field.simps) (simp add: USER_NAME_MAX_def Let_def aset_def)
  qed
qed simp

lemma set_field_correct:
  assumes s: "terminated s" and f: "length field = 32"
  shows "set_field field (Some s) =
    (if text_of s \<noteq> [] \<and> list_all (\<lambda>c. \<not> blank_or_control c) (text_of s)
     then Some (1, take 31 (text_of s) @ 0 # drop (Suc (length (take 31 (text_of s)))) field)
     else Some (0, field))"
proof -
  let ?t = "take 31 (text_of s)"
  from terminated_aget [OF s] obtain c where c: "aget s 0 = Some c" "c = 0 \<longleftrightarrow> text_of s = []" by auto
  have l: "length ?t < length field" using f by simp
  have "copy_field 0 s field = Some (?t @ drop (length ?t) field, length ?t)"
    using copy_field_eq [OF s f, of 0] by (simp add: Let_def)
  moreover have "aset (?t @ drop (length ?t) field) (length ?t) 0 = Some (?t @ 0 # drop (Suc (length ?t)) field)"
    using l by (simp add: aset_def list_update_append nth_drop_Cons)
  ultimately show ?thesis using c field_chars_eq [OF s] by (auto simp: set_field_def)
qed

lemma set_field_ok:
  assumes "terminated s" "length field = 32" "set_field field (Some s) = Some (r, field')"
  shows "length field' = 32" "r = 1 \<longrightarrow> field_ok field' \<and> text_of field' = take 31 (text_of s)"
    "r \<noteq> 1 \<longrightarrow> r = 0 \<and> field' = field"
proof -
  have nz: "0 \<notin> set (take 31 (text_of s))" using text_of_nonzero [of s] by (meson in_set_takeD)
  have la: "list_all P xs \<Longrightarrow> list_all P (take n xs)" for P and xs :: bytes and n
    by (metis append_take_drop_id list_all_append)
  show "length field' = 32" "r = 1 \<longrightarrow> field_ok field' \<and> text_of field' = take 31 (text_of s)"
    "r \<noteq> 1 \<longrightarrow> r = 0 \<and> field' = field"
    using assms(2,3) unfolding set_field_correct [OF assms(1,2)]
    by (auto simp: field_ok_def visible_name_def text_of_append_zero [OF nz] USER_NAME_MAX_def la split: if_splits)
qed

subsection \<open>The text of the file\<close>

definition config_content :: "bytes \<Rightarrow> bytes \<Rightarrow> bytes" where
  "config_content n h = n @ [10] @ h @ [10]"

lemma append_text_eq:
  "terminated s \<Longrightarrow> length (text_of s) \<le> length junk \<Longrightarrow>
   append_text s (pre @ junk, length pre) =
     Some (pre @ text_of s @ drop (length (text_of s)) junk, length pre + length (text_of s))"
proof (induction s arbitrary: pre junk)
  case (Cons c s)
  show ?case
  proof (cases "c = 0")
    case False
    with Cons.prems obtain x junk' where j: "junk = x # junk'" by (cases junk) auto
    have "aset (pre @ junk) (length pre) c = Some ((pre @ [c]) @ junk')" by (simp add: j aset_def)
    moreover have "append_text s ((pre @ [c]) @ junk', length (pre @ [c])) =
        Some ((pre @ [c]) @ text_of s @ drop (length (text_of s)) junk', length (pre @ [c]) + length (text_of s))"
      using False Cons.prems j by (intro Cons.IH) auto
    ultimately show ?thesis using False j by simp
  qed simp
qed simp

lemma config_text_eq:
  assumes "user_ok u"
  shows "\<exists>t. config_text u = Some t \<and> terminated t \<and> length t = 68 \<and>
    text_of t = config_content (text_of (u_name u)) (text_of (u_host u))"
proof -
  let ?n = "text_of (u_name u)" and ?h = "text_of (u_host u)"
  have ok: "terminated (u_name u)" "terminated (u_host u)" "length ?n < 32" "length ?h < 32"
    using assms by (simp_all add: user_ok_def field_ok_def visible_name_def USER_NAME_MAX_def)
  let ?j1 = "replicate (68 - length ?n) 0 :: bytes" and ?j2 = "replicate (67 - length ?n) 0 :: bytes"
  let ?j3 = "replicate (67 - length ?n - length ?h) 0 :: bytes"
  have 1: "append_text (u_name u) (replicate 68 0, 0) = Some (?n @ ?j1, length ?n)"
    using append_text_eq [OF ok(1), of "replicate 68 0" "[]"] ok(3) by (simp add: drop_replicate)
  have j1: "?j1 = 0 # ?j2" using ok(3) by (cases "68 - length ?n") (auto simp: Suc_diff_le)
  have 2: "aset (?n @ ?j1) (length ?n) 10 = Some ((?n @ [10]) @ ?j2)" unfolding j1 by (simp add: aset_def)
  have 3: "append_text (u_host u) ((?n @ [10]) @ ?j2, Suc (length ?n)) =
      Some (?n @ [10] @ ?h @ ?j3, Suc (length ?n) + length ?h)"
    using append_text_eq [OF ok(2), of ?j2 "?n @ [10]"] ok(3,4) by (simp add: drop_replicate)
  have "2 \<le> 67 - length ?n - length ?h" using ok(3,4) by arith
  then obtain m where m: "67 - length ?n - length ?h = Suc (Suc m)" by (auto dest!: le_Suc_ex)
  let ?t = "(?n @ [10] @ ?h) @ 10 # 0 # replicate m 0"
  have 4: "aset (?n @ [10] @ ?h @ ?j3) (Suc (length ?n) + length ?h) 10 = Some ?t"
    unfolding m by (simp add: aset_def list_update_append)
  have 5: "aset ?t (Suc (Suc (length ?n) + length ?h)) 0 = Some ?t"
    by (simp add: aset_def list_update_append)
  have "config_text u = Some ?t"
    using 1 2 3 4 5 by (simp add: config_text_def USER_NAME_MAX_def)
  moreover have "0 \<notin> set (config_content ?n ?h)"
    using text_of_nonzero by (auto simp: config_content_def)
  then have "text_of (config_content ?n ?h @ 0 # replicate m 0) = config_content ?n ?h" by (rule text_of_append_zero)
  then have "text_of ?t = config_content ?n ?h" by (simp add: config_content_def)
  ultimately show ?thesis using m ok(3,4) by simp
qed

subsection \<open>Reading the file\<close>

text \<open>What a line makes of a field; the raw line is cut at 31 characters and at a zero.\<close>

definition set_line :: "bytes \<Rightarrow> bytes \<Rightarrow> bytes" where
  "set_line f raw = (let t = text_of (raw @ [0]) in
     if t \<noteq> [] \<and> list_all (\<lambda>c. \<not> blank_or_control c) t
     then take 31 t @ 0 # drop (Suc (length (take 31 t))) f else f)"

lemma text_of_cut: "pos < length field \<Longrightarrow> text_of (field[pos := 0]) = text_of (take pos field @ [0])"
  by (induction field arbitrary: pos) (auto split: nat.split)

lemma end_line_eq:
  assumes "length field = 32" "pos \<le> 31" "length (u_name u) = 32" "length (u_host u) = 32" "line \<le> 1"
  shows "end_line line field pos u = Some (field[pos := 0],
    if line = 0 then u\<lparr>u_name := set_line (u_name u) (take pos field)\<rparr>
    else u\<lparr>u_host := set_line (u_host u) (take pos field)\<rparr>)"
proof (cases "pos = 0")
  case True
  with assms(1) show ?thesis by (cases u) (simp add: end_line_def set_line_def aset_def)
next
  case False
  have "terminated (field[pos := 0])" using assms(1,2) by (auto simp: terminated_def intro: set_update_memI)
  then have "set_field f (Some (field[pos := 0])) = Some (r, set_line f (take pos field)) \<longleftrightarrow>
      r = (if set_field f (Some (field[pos := 0])) = Some (1, set_line f (take pos field)) then 1 else 0)"
    if "length f = 32" for f and r :: int
    using set_field_correct [of "field[pos := 0]" f] that assms(1,2)
    by (auto simp: set_line_def text_of_cut Let_def split: if_splits)
  then have "\<exists>r. set_field f (Some (field[pos := 0])) = Some (r, set_line f (take pos field))" if "length f = 32" for f
    using that by blast
  from this [OF assms(3)] this [OF assms(4)] False assms(1,2,5) show ?thesis
    by (auto simp: end_line_def aset_def)
qed

lemma length_set_line [simp]: "length f = 32 \<Longrightarrow> length (set_line f raw) = 32"
  by (auto simp: set_line_def Let_def)

abbreviation line_of :: "bytes \<Rightarrow> bytes" where
  "line_of xs \<equiv> takeWhile (\<lambda>c. c \<noteq> 10) xs"

lemma load_host:
  "i + k \<le> length data \<Longrightarrow> length field = 32 \<Longrightarrow> pos \<le> 31 \<Longrightarrow> length (u_name u) = 32 \<Longrightarrow> length (u_host u) = 32 \<Longrightarrow>
   load_lines k i data 1 field pos u =
     Some (u\<lparr>u_host := set_line (u_host u) (take 31 (take pos field @ line_of (take k (drop i data))))\<rparr>)"
proof (induction k arbitrary: i field pos)
  case 0
  then show ?case by (simp add: end_line_eq)
next
  case (Suc k)
  have d: "take (Suc k) (drop i data) = data ! i # take k (drop (Suc i) data)"
    using Suc.prems(1) by (simp add: nth_drop_Cons)
  have g: "aget data i = Some (data ! i)" using Suc.prems(1) by (simp add: aget_def)
  consider "data ! i = 10" | "data ! i \<noteq> 10" "pos < 31" | "data ! i \<noteq> 10" "pos = 31" using Suc.prems(3) by linarith
  then show ?case
  proof cases
    case 1
    with Suc.prems g d show ?thesis by (simp add: end_line_eq)
  next
    case 2
    have "take (Suc pos) (field[pos := data ! i]) = take pos field @ [data ! i]"
      using 2 Suc.prems(2) by (simp add: take_Suc_conv_app_nth)
    with 2 Suc.IH [of "Suc i" "field[pos := data ! i]" "Suc pos"] Suc.prems g d show ?thesis
      by (simp add: USER_NAME_MAX_def aset_def)
  next
    case 3
    with Suc.IH [of "Suc i" field pos] Suc.prems g d show ?thesis by (simp add: USER_NAME_MAX_def)
  qed
qed

lemma load_lines_eq:
  "i + k \<le> length data \<Longrightarrow> length field = 32 \<Longrightarrow> pos \<le> 31 \<Longrightarrow> length (u_name u) = 32 \<Longrightarrow> length (u_host u) = 32 \<Longrightarrow>
   load_lines k i data 0 field pos u = Some (let xs = take k (drop i data) in
     u\<lparr>u_name := set_line (u_name u) (take 31 (take pos field @ line_of xs)),
       u_host := set_line (u_host u) (take 31 (line_of (drop (Suc (length (line_of xs))) xs)))\<rparr>)"
proof (induction k arbitrary: i field pos)
  case 0
  then show ?case by (cases u) (simp add: end_line_eq set_line_def)
next
  case (Suc k)
  have d: "take (Suc k) (drop i data) = data ! i # take k (drop (Suc i) data)"
    using Suc.prems(1) by (simp add: nth_drop_Cons)
  have g: "aget data i = Some (data ! i)" using Suc.prems(1) by (simp add: aget_def)
  consider "data ! i = 10" | "data ! i \<noteq> 10" "pos < 31" | "data ! i \<noteq> 10" "pos = 31" using Suc.prems(3) by linarith
  then show ?case
  proof cases
    case 1
    with Suc.prems g d load_host [of "Suc i" k data "field[pos := 0]" 0
        "u\<lparr>u_name := set_line (u_name u) (take pos field)\<rparr>"] show ?thesis
      by (simp add: end_line_eq Let_def)
  next
    case 2
    have "take (Suc pos) (field[pos := data ! i]) = take pos field @ [data ! i]"
      using 2 Suc.prems(2) by (simp add: take_Suc_conv_app_nth)
    with 2 Suc.IH [of "Suc i" "field[pos := data ! i]" "Suc pos"] Suc.prems g d show ?thesis
      by (simp add: USER_NAME_MAX_def aset_def Let_def)
  next
    case 3
    with Suc.IH [of "Suc i" field pos] Suc.prems g d show ?thesis by (simp add: USER_NAME_MAX_def Let_def)
  qed
qed

lemma visible_nonzero: "list_all (\<lambda>c. \<not> blank_or_control c) x \<Longrightarrow> 0 \<notin> set x"
  using not_blank_nonzero by (auto simp: list_all_iff)

lemma set_line_text:
  assumes "visible_name x" "length f = 32"
  shows "text_of (set_line f x) = x"
proof -
  have x: "0 \<notin> set x" "x \<noteq> []" "length x \<le> 31" "list_all (\<lambda>c. \<not> blank_or_control c) x"
    using assms(1) visible_nonzero by (auto simp: visible_name_def USER_NAME_MAX_def)
  then have "text_of (x @ [0]) = x" by (intro text_of_append_zero)
  with x show ?thesis by (simp add: set_line_def text_of_append_zero)
qed

lemma set_line_ok:
  assumes "field_ok f"
  shows "field_ok (set_line f raw)"
proof -
  let ?t = "text_of (raw @ [0])"
  show ?thesis
  proof (cases "?t \<noteq> [] \<and> list_all (\<lambda>c. \<not> blank_or_control c) ?t")
    case True
    then have vis: "list_all (\<lambda>c. \<not> blank_or_control c) (take 31 ?t)"
      by (metis append_take_drop_id list_all_append)
    have l: "length f = 32" using assms by (simp add: field_ok_def USER_NAME_MAX_def)
    have "text_of (take 31 ?t @ 0 # drop (Suc (length (take 31 ?t))) f) = take 31 ?t"
      by (rule text_of_append_zero [OF visible_nonzero [OF vis]])
    moreover have "set_line f raw = take 31 ?t @ 0 # drop (Suc (length (take 31 ?t))) f"
      using True unfolding set_line_def Let_def by simp
    ultimately show ?thesis using True vis l by (simp add: field_ok_def visible_name_def USER_NAME_MAX_def)
  next
    case False
    then have "set_line f raw = f" by (auto simp: set_line_def)
    with assms show ?thesis by simp
  qed
qed

lemma field_ok_length: "field_ok f \<Longrightarrow> length f = 32"
  by (simp add: field_ok_def USER_NAME_MAX_def)

text \<open>The two lines, as \<open>user_load\<close> sees them.\<close>

definition names_loaded :: "bytes \<Rightarrow> user \<Rightarrow> user" where
  "names_loaded t u = u\<lparr>u_name := set_line (u_name u) (take 31 (line_of t)),
     u_host := set_line (u_host u) (take 31 (line_of (drop (Suc (length (line_of t))) t)))\<rparr>"

lemma load_lines_loaded:
  assumes "user_ok u" "k \<le> length data"
  shows "load_lines k 0 data 0 (replicate USER_NAME_MAX 0) 0 u = Some (names_loaded (take k data) u) \<and>
    user_ok (names_loaded (take k data) u)"
  using load_lines_eq [of 0 k data "replicate USER_NAME_MAX 0" 0 u] assms
  by (simp add: user_ok_def field_ok_length set_line_ok names_loaded_def Let_def USER_NAME_MAX_def)

lemma loaded_config:
  assumes "visible_name n" "visible_name h" "length (u_name u) = 32" "length (u_host u) = 32"
  shows "text_of (u_name (names_loaded (config_content n h) u)) = n \<and> text_of (u_host (names_loaded (config_content n h) u)) = h"
proof -
  have 10: "\<not> (\<not> blank_or_control 10)" by (simp add: blank_or_control_def)
  have no: "10 \<notin> set n" "10 \<notin> set h"
    using assms(1,2) 10 by (auto simp: visible_name_def list_all_iff)
  have line: "line_of (x @ 10 # y) = x" if "10 \<notin> set x" for x y
    using that by (intro takeWhile_all_append) auto
  have "length n \<le> 31" "length h \<le> 31" using assms(1,2) by (auto simp: visible_name_def USER_NAME_MAX_def)
  then show ?thesis
    using set_line_text [OF assms(1,3)] set_line_text [OF assms(2,4)]
    by (simp add: names_loaded_def config_content_def line [OF no(1)] line [OF no(2)])
qed

subsection \<open>Saving and loading through Fish\<close>

abbreviation config_path :: "bytes list" where
  "config_path \<equiv> [bytes_of ''ys.conf'']"

lemma text_CONFIG_FILE: "text_of CONFIG_FILE = bytes_of ''ys.conf''" "terminated CONFIG_FILE" "length CONFIG_FILE = 8"
  by (simp_all add: CONFIG_FILE_def literal_def)

lemma legal_config: "legal_name (bytes_of ''ys.conf'')"
  by (simp add: legal_name_def FISH_NAME_MAX_def blank_or_control_def)

text \<open>There is a file to write, or room for one.\<close>

definition config_writable :: "volume \<Rightarrow> bool" where
  "config_writable v = (case tree v config_path of
     None \<Rightarrow> card (dom (tree v)) < FISH_MAX_NODES | Some Directory \<Rightarrow> False | Some (File t) \<Rightarrow> True)"

lemma excursion_spec:
  assumes "legal_name (text_of c)" "length (text_of t) \<le> FISH_FILE_MAX"
  shows "\<exists>r1 r2 r v'. spec_run [Chdir (literal ''/''), Create c, Write c t] v = ([r1, r2, r], v') \<and>
    (if (case tree v [text_of c] of None \<Rightarrow> card (dom (tree v)) < FISH_MAX_NODES | Some Directory \<Rightarrow> False | Some (File t) \<Rightarrow> True)
     then r = FISH_OK \<and> tree v' = (tree v)([text_of c] \<mapsto> File (text_of t)) else r \<noteq> FISH_OK \<and> tree v' = tree v)"
proof -
  obtain tr d where v: "v = (tr, d)" by fastforce
  have top: "spec_call (Chdir (literal ''/'')) (tr, d) = (FISH_OK, (tr, []))"
    by (simp add: spec_chdir_def literal_def)
  have step: "spec_run [Chdir (literal ''/''), Create c, Write c t] v =
     (case spec_make (File []) (text_of c) (tr, []) of (r2, v) \<Rightarrow>
      case spec_update (\<lambda>_. text_of t) (text_of c) v of (r, v) \<Rightarrow> ([FISH_OK, r2, r], v))"
    unfolding v spec_run.simps top Let_def by (simp split: prod.split)
  show ?thesis
  proof (cases "tr [text_of c]")
    case None
    then show ?thesis using assms unfolding step
      by (cases "card (dom tr) < FISH_MAX_NODES") (auto simp: v spec_make_def spec_update_def fish_codes)
  next
    case (Some e)
    then show ?thesis using assms unfolding step
      by (cases e) (auto simp: v spec_make_def spec_update_def fish_codes)
  qed
qed

lemma config_calls_spec:
  "length (text_of t) \<le> FISH_FILE_MAX \<Longrightarrow>
   \<exists>r1 r2 r v'. spec_run [Chdir (literal ''/''), Create CONFIG_FILE, Write CONFIG_FILE t] v = ([r1, r2, r], v') \<and>
    (if config_writable v then r = FISH_OK \<and> tree v' = (tree v)(config_path \<mapsto> File (text_of t))
     else r \<noteq> FISH_OK \<and> tree v' = tree v)"
  using excursion_spec [of CONFIG_FILE t v] legal_config
  unfolding text_CONFIG_FILE(1) config_writable_def by simp

lemma user_save_correct:
  assumes u: "user_ok u" and fs: "fish_ok fs"
  shows "\<exists>r fs'. user_save u fs = Some (r, fs') \<and> fish_ok fs' \<and>
    volume_of fs' = (tree (volume_of fs'), cwd (volume_of fs)) \<and>
    (if config_writable (volume_of fs)
     then r = 1 \<and> tree (volume_of fs') =
       (tree (volume_of fs))(config_path \<mapsto> File (config_content (text_of (u_name u)) (text_of (u_host u))))
     else r = 0 \<and> tree (volume_of fs') = tree (volume_of fs))"
proof -
  from config_text_eq [OF u] obtain t where t: "config_text u = Some t" "terminated t" "length t = 68"
    "text_of t = config_content (text_of (u_name u)) (text_of (u_host u))" by blast
  let ?cs = "[Chdir (literal ''/''), Create CONFIG_FILE, Write CONFIG_FILE t]"
  have "list_all call_ok ?cs" "\<not> list_ex removes ?cs"
    using t(2,3) text_CONFIG_FILE(2,3) by (simp_all add: call_ok_def literal_def)
  from fish_handles.excursion [OF fs this] obtain rs fs1 fs2 where run: "run_calls fish_call ?cs fs = Some (rs, fs1)"
    "spec_run ?cs (volume_of fs) = (rs, volume_of fs1)" "fish_restore_cwd (fish_save_cwd fs) fs1 = Some fs2"
    "fish_ok fs2" "volume_of fs2 = (tree (volume_of fs1), cwd (volume_of fs))" by metis
  have "length (text_of t) \<le> FISH_FILE_MAX" using length_text_of [of t] t(3) by (simp add: FISH_FILE_MAX_def)
  from config_calls_spec [OF this, of "volume_of fs"] obtain r1 r2 r v' where
    spec: "spec_run ?cs (volume_of fs) = ([r1, r2, r], v')"
    "if config_writable (volume_of fs) then r = FISH_OK \<and> tree v' = (tree (volume_of fs))(config_path \<mapsto> File (text_of t))
     else r \<noteq> FISH_OK \<and> tree v' = tree (volume_of fs)" by blast
  have "rs = [r1, r2, r] \<and> v' = volume_of fs1" using run(2) unfolding spec(1) by simp
  with spec(2) have rs: "rs = [r1, r2, r]"
    "if config_writable (volume_of fs) then r = FISH_OK \<and> tree (volume_of fs1) = (tree (volume_of fs))(config_path \<mapsto> File (text_of t))
     else r \<noteq> FISH_OK \<and> tree (volume_of fs1) = tree (volume_of fs)" by blast+
  from run(1) t(1) run(3) have "user_save u fs = Some (if r = FISH_OK then 1 else 0, fs2)"
    unfolding rs(1) by (auto simp: user_save_def Let_def split: bind_split_asm)
  with run(4,5) rs(2) t(4) show ?thesis by (auto split: if_splits)
qed

lemma user_load_correct:
  assumes u: "user_ok u" and fs: "fish_ok fs"
  shows "\<exists>r u' fs'. user_load u fs = Some (r, u', fs') \<and> fish_ok fs' \<and> volume_of fs' = volume_of fs \<and> user_ok u' \<and>
    (case tree (volume_of fs) config_path of Some (File t) \<Rightarrow> r = 1 \<and> u' = names_loaded t u | _ \<Rightarrow> r = 0 \<and> u' = u)"
proof -
  let ?cs = "[Chdir (literal ''/'')]"
  have "list_all call_ok ?cs" "\<not> list_ex removes ?cs" by (simp_all add: call_ok_def literal_def)
  from fish_handles.excursion [OF fs this] obtain rs fs1 fs2 where run: "run_calls fish_call ?cs fs = Some (rs, fs1)"
    "fish_ok fs1" "spec_run ?cs (volume_of fs) = (rs, volume_of fs1)"
    "fish_restore_cwd (fish_save_cwd fs) fs1 = Some fs2" "fish_ok fs2"
    "volume_of fs2 = (tree (volume_of fs1), cwd (volume_of fs))" by metis
  have v1: "volume_of fs1 = (tree (volume_of fs), [])"
    using run(3) by (cases "volume_of fs") (simp add: spec_chdir_def literal_def Let_def)
  have v2: "volume_of fs2 = volume_of fs" using run(6) v1 by (simp add: prod_eq_iff)
  from run(1) obtain r1 where ch: "fish_chdir (Some (literal ''/'')) fs = Some (r1, fs1)"
    by (auto split: bind_split_asm)
  show ?thesis
  proof (cases "\<exists>t. tree (volume_of fs) config_path = Some (File t)")
    case True
    then obtain t where t: "tree (volume_of fs) config_path = Some (File t)" by blast
    have "tree (volume_of fs1) (cwd (volume_of fs1) @ [text_of CONFIG_FILE]) = Some (File t)"
      using t unfolding v1 text_CONFIG_FILE(1) by simp
    from fish.read_content [OF run(2) text_CONFIG_FILE(2) this] obtain k d where
      "fish_read CONFIG_FILE fs1 = Some (Some (k, d))" "take (unat k) d = t" "unat k \<le> length d" by blast
    with load_lines_loaded [OF u, of "unat k" d] ch run(4,5) v2 t show ?thesis by (simp add: user_load_def Let_def)
  next
    case False
    then have "\<nexists>t. tree (volume_of fs1) (cwd (volume_of fs1) @ [text_of CONFIG_FILE]) = Some (File t)"
      unfolding v1 text_CONFIG_FILE(1) by simp
    from fish.read_missing [OF run(2) text_CONFIG_FILE(2) this] ch run(4,5) v2 u False
    have "user_load u fs = Some (0, u, fs2)" by (simp add: user_load_def Let_def)
    with run(5) v2 u False show ?thesis by (auto split: option.splits entry.splits)
  qed
qed

subsection \<open>Properties\<close>

text \<open>
  Setting a name. A string is accepted exactly when it is not empty and holds neither blanks nor
  control characters; then its first 31 characters become the name. Otherwise nothing changes. The other
  name never changes, and both arrays always hold a terminated, visible name.
\<close>

theorem user_set_names:
  assumes "user_ok u" and "terminated s"
  shows "\<exists>r u1 u2. user_set_name (Some s) u = Some (r, u1) \<and> user_set_host (Some s) u = Some (r, u2) \<and>
    user_ok u1 \<and> user_ok u2 \<and> user_host u1 = user_host u \<and> user_name u2 = user_name u \<and>
    (if text_of s \<noteq> [] \<and> list_all (\<lambda>c. \<not> blank_or_control c) (text_of s)
     then r = 1 \<and> text_of (user_name u1) = take 31 (text_of s) \<and> text_of (user_host u2) = take 31 (text_of s)
     else r = 0 \<and> u1 = u \<and> u2 = u)"
proof -
  note len = field_ok_length
  have ok: "field_ok (u_name u)" "field_ok (u_host u)" using assms(1) by (simp_all add: user_ok_def)
  obtain r n where n: "set_field (u_name u) (Some s) = Some (r, n)"
    using set_field_correct [OF assms(2) len [OF ok(1)]] by fastforce
  obtain r' h where h: "set_field (u_host u) (Some s) = Some (r', h)"
    using set_field_correct [OF assms(2) len [OF ok(2)]] by fastforce
  have r: "r = (if text_of s \<noteq> [] \<and> list_all (\<lambda>c. \<not> blank_or_control c) (text_of s) then 1 else 0)" "r' = r"
    using n h unfolding set_field_correct [OF assms(2) len [OF ok(1)]] set_field_correct [OF assms(2) len [OF ok(2)]]
    by (auto split: if_splits)
  note N = set_field_ok [OF assms(2) len [OF ok(1)] n] and H = set_field_ok [OF assms(2) len [OF ok(2)] h]
  show ?thesis
  proof (cases "r = 1")
    case True
    with N(2) H(2) n h r assms(1) show ?thesis
      by (auto simp: user_set_name_def user_set_host_def user_name_def user_host_def user_ok_def split: if_splits)
  next
    case False
    with N(3) H(3) n h r assms(1) show ?thesis
      by (auto simp: user_set_name_def user_set_host_def user_name_def user_host_def split: if_splits)
  qed
qed

definition demo_user :: user where
  "demo_user = \<lparr>u_name = literal ''user'' @ replicate 27 0, u_host = literal ''yunix'' @ replicate 26 0\<rparr>"

lemma demo_user_ok: "user_ok demo_user"
  by (simp add: user_ok_def demo_user_def field_ok_def visible_name_def USER_NAME_MAX_def literal_def blank_or_control_def)

theorem user_set_names_witness:
  "\<exists>r u1. user_set_name (Some (literal ''ada'')) demo_user = Some (r, u1) \<and> r = 1 \<and>
     text_of (user_name u1) = bytes_of ''ada''"
  using user_set_names [OF demo_user_ok, of "literal ''ada''"] by (auto simp: literal_def blank_or_control_def)

text \<open>
  C34: Keeping the names. \<open>user_save\<close> reports 1 exactly when \<^verbatim>\<open>/ys.conf\<close> is a file or can be created;
  then that file holds the two names, one on a line, and nothing else changes, not even the current
  directory. \<open>user_load\<close> in any later state whose file is that one brings both names back.
\<close>

theorem user_save_load:
  assumes "user_ok u" and "fish_ok fs"
  shows "\<exists>r fs'. user_save u fs = Some (r, fs') \<and> fish_ok fs' \<and> cwd (volume_of fs') = cwd (volume_of fs) \<and>
    (\<forall>path. path \<noteq> [bytes_of ''ys.conf''] \<longrightarrow> tree (volume_of fs') path = tree (volume_of fs) path) \<and>
    (if config_writable (volume_of fs)
     then r = 1 \<and> (\<forall>u0 fs1. user_ok u0 \<longrightarrow> fish_ok fs1 \<longrightarrow>
         tree (volume_of fs1) [bytes_of ''ys.conf''] = tree (volume_of fs') [bytes_of ''ys.conf''] \<longrightarrow>
         (\<exists>u' fs2. user_load u0 fs1 = Some (1, u', fs2) \<and> user_ok u' \<and> fish_ok fs2 \<and> volume_of fs2 = volume_of fs1 \<and>
            text_of (user_name u') = text_of (user_name u) \<and> text_of (user_host u') = text_of (user_host u)))
     else r = 0 \<and> volume_of fs' = volume_of fs)"
proof -
  let ?n = "text_of (u_name u)" and ?h = "text_of (u_host u)"
  obtain r fs' where s: "user_save u fs = Some (r, fs')" "fish_ok fs'"
    "volume_of fs' = (tree (volume_of fs'), cwd (volume_of fs))"
    "if config_writable (volume_of fs)
     then r = 1 \<and> tree (volume_of fs') = (tree (volume_of fs))([bytes_of ''ys.conf''] \<mapsto> File (config_content ?n ?h))
     else r = 0 \<and> tree (volume_of fs') = tree (volume_of fs)"
    using user_save_correct [OF assms] by blast
  have c: "cwd (volume_of fs') = cwd (volume_of fs)" using s(3) by (metis snd_conv)
  have vis: "visible_name ?n" "visible_name ?h" using assms(1) by (simp_all add: user_ok_def field_ok_def)
  have load: "\<exists>u' fs2. user_load u0 fs1 = Some (1, u', fs2) \<and> user_ok u' \<and> fish_ok fs2 \<and> volume_of fs2 = volume_of fs1 \<and>
      text_of (u_name u') = ?n \<and> text_of (u_host u') = ?h"
    if "user_ok u0" "fish_ok fs1" "tree (volume_of fs1) [bytes_of ''ys.conf''] = Some (File (config_content ?n ?h))" for u0 fs1
    using user_load_correct [OF that(1,2)] loaded_config [OF vis, of u0] that(1) field_ok_length
    unfolding that(3) by (auto simp: user_ok_def)
  show ?thesis
  proof (cases "config_writable (volume_of fs)")
    case True
    with s c load show ?thesis by (auto simp: user_name_def user_host_def)
  next
    case False
    with s c show ?thesis by (auto simp: prod_eq_iff)
  qed
qed

theorem user_save_load_witness:
  "\<exists>fs fs' u' fs2. volume_of fs = demo_volume \<and> user_save demo_user fs = Some (1, fs') \<and>
     cwd (volume_of fs') = [bytes_of ''notes''] \<and>
     user_load demo_user fs' = Some (1, u', fs2) \<and> text_of (user_host u') = bytes_of ''yunix''"
proof -
  from demo_state obtain fs where fs: "fish_ok fs" "volume_of fs = demo_volume" by blast
  have "dom (fst demo_volume) = {[], [bytes_of ''notes''], [bytes_of ''notes'', bytes_of ''a.txt'']}"
    by (auto simp: demo_volume_def split: if_splits)
  then have "card (dom (fst demo_volume)) < FISH_MAX_NODES" by (simp add: FISH_MAX_NODES_def card_insert_if)
  moreover have "fst demo_volume [bytes_of ''ys.conf''] = None" by (simp add: demo_volume_def)
  ultimately have w: "config_writable (volume_of fs)" by (simp add: fs(2) config_writable_def)
  from user_save_load [OF demo_user_ok fs(1)] w obtain fs' where
    1: "user_save demo_user fs = Some (1, fs')" "fish_ok fs'" "cwd (volume_of fs') = cwd (volume_of fs)"
    and 2: "\<And>u0 fs1. user_ok u0 \<Longrightarrow> fish_ok fs1 \<Longrightarrow>
         tree (volume_of fs1) [bytes_of ''ys.conf''] = tree (volume_of fs') [bytes_of ''ys.conf''] \<Longrightarrow>
         \<exists>u' fs2. user_load u0 fs1 = Some (1, u', fs2) \<and> text_of (user_host u') = text_of (user_host demo_user)"
    by metis
  have "text_of (user_host demo_user) = bytes_of ''yunix''"
    by (simp add: demo_user_def user_host_def literal_def)
  with 1 2 [OF demo_user_ok 1(2) refl] fs(2) show ?thesis by (auto simp: demo_volume_def)
qed

end
