(* ===== verification/Kernel_State.thy ===== *)
theory Kernel_State
  imports Keyboard Timer User Fish_Disk
begin

text \<open>
  The state of the whole kernel, as the shell and the interrupts share it: the static variables of
  all the drivers, the devices behind the ports, the line buffer of the shell, and, as the part of the
  environment the code waits for, which interrupts arrive during each \<open>hlt\<close> to come. An interrupt is
  the register snapshot its stub makes.

  \<open>None\<close> is undefined behaviour, as everywhere. A command that returns has the outcome \<open>Returned\<close>; one
  that stops the machine, \<open>Halted\<close>; one that still waits when the interrupts to come are used up, \<open>Waiting\<close>.
\<close>

record 'd world =
  w_vga :: vga
  w_kbd :: keyboard
  w_ticks :: ticks
  w_slots :: "irq_callback option list"
  w_user :: user
  w_fish :: fish
  w_present :: int
  w_line :: bytes
  w_dev :: 'd
  w_halts :: "registers list list"

datatype 'w outcome = Returned 'w | Halted 'w | Waiting 'w

text \<open>Calls of the drivers on their parts of the state.\<close>

definition on_console :: "(vga \<times> 'd \<Rightarrow> (vga \<times> 'd) option) \<Rightarrow> 'd world \<Rightarrow> 'd world option" where
  "on_console f w = do { (v, d) \<leftarrow> f (w_vga w, w_dev w); Some (w\<lparr>w_vga := v, w_dev := d\<rparr>) }"

definition print :: "'d bus \<Rightarrow> bytes \<Rightarrow> 'd world \<Rightarrow> 'd world option" where
  "print b s = on_console (vga_write b s)"

definition putc :: "'d bus \<Rightarrow> u8 \<Rightarrow> 'd world \<Rightarrow> 'd world option" where
  "putc b c = on_console (vga_putchar b c)"

definition color :: "vga_color \<Rightarrow> vga_color \<Rightarrow> 'd world \<Rightarrow> 'd world" where
  "color fg bg w = w\<lparr>w_vga := vga_set_color (color_code fg) (color_code bg) (w_vga w)\<rparr>"

definition on_fish :: "(fish \<Rightarrow> (int \<times> fish) option) \<Rightarrow> 'd world \<Rightarrow> (int \<times> 'd world) option" where
  "on_fish f w = do { (r, fs) \<leftarrow> f (w_fish w); Some (r, w\<lparr>w_fish := fs\<rparr>) }"

definition on_user :: "(user \<Rightarrow> (int \<times> user) option) \<Rightarrow> 'd world \<Rightarrow> (int \<times> 'd world) option" where
  "on_user f w = do { (r, u) \<leftarrow> f (w_user w); Some (r, w\<lparr>w_user := u\<rparr>) }"

definition disk :: "'d world \<Rightarrow> 'd ata" where
  "disk w = \<lparr>present = w_present w, dev = w_dev w\<rparr>"

definition with_disk :: "'d ata \<Rightarrow> 'd world \<Rightarrow> 'd world" where
  "with_disk a w = w\<lparr>w_present := present a, w_dev := dev a\<rparr>"

subsection \<open>Interrupts\<close>

text \<open>The kernel's handlers, on the part of the state they change.\<close>

fun handler_call :: "'d bus \<Rightarrow> irq_callback \<Rightarrow> registers \<Rightarrow> (ticks \<times> keyboard) \<times> 'd \<Rightarrow> ((ticks \<times> keyboard) \<times> 'd) option" where
  "handler_call b Timer_callback regs ((t, k), d) = Some ((timer_callback t, k), d)"
| "handler_call b Keyboard_callback regs ((t, k), d) =
     do { (k, d) \<leftarrow> keyboard_callback b (k, d); Some ((t, k), d) }"

definition interrupt :: "'d bus \<Rightarrow> registers \<Rightarrow> 'd world \<Rightarrow> 'd world option" where
  "interrupt b regs w = do {
     ((t, k), d) \<leftarrow> irq_handler b (handler_call b) (w_slots w) regs ((w_ticks w, w_kbd w), w_dev w);
     Some (w\<lparr>w_ticks := t, w_kbd := k, w_dev := d\<rparr>) }"

fun interrupts :: "'d bus \<Rightarrow> registers list \<Rightarrow> 'd world \<Rightarrow> 'd world option" where
  "interrupts b [] w = Some w"
| "interrupts b (regs # rs) w = do { w \<leftarrow> interrupt b regs w; interrupts b rs w }"

text \<open>One \<open>hlt\<close>: \<open>None\<close> of the inner option if no further interrupts are known.\<close>

definition hlt :: "'d bus \<Rightarrow> 'd world \<Rightarrow> 'd world option option" where
  "hlt b w = (case w_halts w of [] \<Rightarrow> Some None
     | rs # halts \<Rightarrow> map_option Some (interrupts b rs (w\<lparr>w_halts := halts\<rparr>)))"

subsection \<open>The invariant of the kernel\<close>

text \<open>
  The devices: besides the drive's own protocol, traffic on other ports does not disturb the drive. A machine
  without a drive is one on which no state of the devices is that of a working drive.
\<close>

definition ata_port_set :: "u16 set" where
  "ata_port_set = {ATA_DATA, ATA_SECCOUNT, ATA_LBA_LOW, ATA_LBA_MID, ATA_LBA_HIGH, ATA_DRIVE, ATA_STATUS, ATA_CONTROL}"

definition machine :: "'d bus \<Rightarrow> ('d \<Rightarrow> drive) \<Rightarrow> bool" where
  "machine b view \<longleftrightarrow> (drive_bus b view \<or> (\<forall>d. \<not> drive_ok (view d))) \<and>
     (\<forall>d p v. p \<notin> ata_port_set \<longrightarrow> view (port_out b d p v) = view d) \<and>
     (\<forall>d p. p \<notin> ata_port_set \<longrightarrow> view (snd (port_in b d p)) = view d)"

definition hardware_irq :: "registers \<Rightarrow> bool" where
  "hardware_irq regs \<longleftrightarrow> (\<exists>n < 16. int_no regs = 32 + of_nat n)"

definition world_ok :: "('d \<Rightarrow> drive) \<Rightarrow> 'd world \<Rightarrow> bool" where
  "world_ok view w \<longleftrightarrow> vga_ok (w_vga w) \<and> keyboard_ok (w_kbd w) \<and> length (w_slots w) = 16 \<and> user_ok (w_user w) \<and>
     fish_ok (w_fish w) \<and> length (w_line w) = 256 \<and> (w_present w \<noteq> 0 \<longrightarrow> drive_ok (view (w_dev w))) \<and>
     list_all (list_all hardware_irq) (w_halts w)"

text \<open>What a computation guarantees: it is defined, and its result satisfies a predicate.\<close>

definition gives :: "'a option \<Rightarrow> ('a \<Rightarrow> bool) \<Rightarrow> bool" where
  "gives x Q \<longleftrightarrow> (\<exists>y. x = Some y \<and> Q y)"

lemma gives_Some [simp]: "gives (Some y) Q = Q y"
  by (simp add: gives_def)

lemma gives_bind [simp]: "gives (Option.bind x f) Q = gives x (\<lambda>y. gives (f y) Q)"
  by (cases x) (auto simp: gives_def)

lemma gives_if: "gives (if c then x else y) Q = ((c \<longrightarrow> gives x Q) \<and> (\<not> c \<longrightarrow> gives y Q))"
  by simp

lemma gives_mono: "gives x P \<Longrightarrow> (\<And>y. P y \<Longrightarrow> Q y) \<Longrightarrow> gives x Q"
  by (auto simp: gives_def)

lemma quiet_ports: "CRTC_INDEX \<notin> ata_port_set" "CRTC_DATA \<notin> ata_port_set" "KBD_DATA \<notin> ata_port_set"
  "KBD_STATUS \<notin> ata_port_set" "0x20 \<notin> ata_port_set" "0xA0 \<notin> ata_port_set"
  by (simp_all add: ata_port_set_def ata_ports CRTC_INDEX_def CRTC_DATA_def KBD_DATA_def KBD_STATUS_def)

lemma machine_quiet:
  assumes "machine b view" "p \<notin> ata_port_set"
  shows "view (outb b p v d) = view d" "view (snd (inb b p d)) = view d"
  using assms by (simp_all add: machine_def outb_def inb_def)

lemma view_update_cursor: "machine b view \<Longrightarrow> view (update_cursor b v d) = view d"
  by (simp add: update_cursor_def Let_def machine_quiet quiet_ports)

text \<open>Output on the console keeps all but the console, and the drive as it was.\<close>

definition console_only :: "('d \<Rightarrow> drive) \<Rightarrow> 'd world \<Rightarrow> 'd world \<Rightarrow> bool" where
  "console_only view w w' \<longleftrightarrow> w' = w\<lparr>w_vga := w_vga w', w_dev := w_dev w'\<rparr> \<and> view (w_dev w') = view (w_dev w)"

lemma console_only_refl [simp]: "console_only view w w"
  by (cases w) (simp add: console_only_def)

lemma console_only_trans: "console_only view w w1 \<Longrightarrow> console_only view w1 w2 \<Longrightarrow> console_only view w w2"
  by (cases w; cases w1; cases w2) (simp add: console_only_def)

lemma console_onlyD:
  "console_only view w w' \<Longrightarrow> w_kbd w' = w_kbd w \<and> w_ticks w' = w_ticks w \<and> w_slots w' = w_slots w \<and>
     w_user w' = w_user w \<and> w_fish w' = w_fish w \<and> w_present w' = w_present w \<and> w_line w' = w_line w \<and>
     w_halts w' = w_halts w \<and> view (w_dev w') = view (w_dev w)"
  by (cases w; cases w') (simp add: console_only_def)

text \<open>Output needs the console alone: it works already when the rest of the kernel is not set up.\<close>

lemma putc_console:
  assumes "machine b view" "vga_ok (w_vga w)"
  shows "gives (putc b c w) (\<lambda>w'. vga_ok (w_vga w') \<and> console_only view w w')"
proof -
  obtain v where "vga_putchar b c (w_vga w, w_dev w) = Some (v, update_cursor b v (w_dev w))" "vga_ok v"
    by (rule vga_putchar_refines [OF assms(2)])
  with view_update_cursor [OF assms(1), of v "w_dev w"] show ?thesis
    by (auto simp: gives_def putc_def on_console_def console_only_def)
qed

lemma print_putc: "print b (c # s) w = (if c = 0 then Some w else do { w \<leftarrow> putc b c w; print b s w })"
  by (cases "vga_putchar b c (w_vga w, w_dev w)") (auto simp: print_def putc_def on_console_def)

lemma print_console:
  "machine b view \<Longrightarrow> terminated s \<Longrightarrow> vga_ok (w_vga w) \<Longrightarrow>
   gives (print b s w) (\<lambda>w'. vga_ok (w_vga w') \<and> console_only view w w')"
proof (induction s arbitrary: w)
  case (Cons c s)
  show ?case
  proof (cases "c = 0")
    case True
    with Cons.prems show ?thesis by (simp add: print_putc)
  next
    case False
    from putc_console [OF Cons.prems(1,3), of c] obtain w1 where
      w1: "putc b c w = Some w1" "vga_ok (w_vga w1)" "console_only view w w1" by (auto simp: gives_def)
    from Cons.IH [OF Cons.prems(1) _ w1(2)] Cons.prems(2) False w1 show ?thesis
      by (auto simp: print_putc elim!: gives_mono intro: console_only_trans)
  qed
qed simp

lemma world_ok_console:
  "world_ok view w \<Longrightarrow> console_only view w w' \<Longrightarrow> vga_ok (w_vga w') \<Longrightarrow> world_ok view w'"
  by (drule console_onlyD) (simp add: world_ok_def)

lemma putc_gives:
  "machine b view \<Longrightarrow> world_ok view w \<Longrightarrow> gives (putc b c w) (\<lambda>w'. world_ok view w' \<and> console_only view w w')"
  by (rule gives_mono [OF putc_console]) (auto simp: world_ok_console, simp add: world_ok_def)

lemma print_gives:
  "machine b view \<Longrightarrow> terminated s \<Longrightarrow> world_ok view w \<Longrightarrow>
   gives (print b s w) (\<lambda>w'. world_ok view w' \<and> console_only view w w')"
  by (rule gives_mono [OF print_console]) (auto simp: world_ok_console, simp add: world_ok_def)

end
