(* ===== verification/Shell.thy ===== *)
theory Shell
  imports Kernel_State
begin

text \<open>
  \<^verbatim>\<open>kernel/shell.c\<close>: the commands, the table, and the loop that reads and runs a line. An argument
  \<open>arg\<close> is the rest of the line buffer from the pointer on. Local arrays hold zeros before they are
  written; the buffer \<open>fish_load\<close> leaves uninitialised is the parameter \<open>stack\<close>.
\<close>

definition LINE_MAX :: nat where "LINE_MAX = 256"

text \<open>A number in a 12-byte buffer, printed in decimal.\<close>

definition print_number :: "'d bus \<Rightarrow> u32 \<Rightarrow> 'd world \<Rightarrow> 'd world option" where
  "print_number b n w = do { buffer \<leftarrow> utoa n (replicate 12 0) 10; print b buffer w }"

subsection \<open>Commands that only print\<close>

definition cmd_clear :: "'d bus \<Rightarrow> 'd world \<Rightarrow> 'd world option" where
  "cmd_clear b = on_console (vga_clear b)"

definition cmd_echo :: "'d bus \<Rightarrow> bytes \<Rightarrow> 'd world \<Rightarrow> 'd world option" where
  "cmd_echo b arg w = do { w \<leftarrow> print b arg w; putc b 10 w }"

definition logo :: "bytes list" where
  "logo = [
     [0xDB, 0xDB, 0xBB, 32, 32, 32, 0xDB, 0xDB, 0xBB, 0xDB, 0xDB, 0xDB, 0xDB, 0xDB, 0xDB, 0xDB, 0xBB, 10, 0],
     [0xC8, 0xDB, 0xDB, 0xBB, 32, 0xDB, 0xDB, 0xC9, 0xBC, 0xDB, 0xDB, 0xC9, 0xCD, 0xCD, 0xCD, 0xCD, 0xBC, 10, 0],
     [32, 0xC8, 0xDB, 0xDB, 0xDB, 0xDB, 0xC9, 0xBC, 32, 0xDB, 0xDB, 0xDB, 0xDB, 0xDB, 0xDB, 0xDB, 0xBB, 10, 0],
     [32, 32, 0xC8, 0xDB, 0xDB, 0xC9, 0xBC, 32, 32, 0xC8, 0xCD, 0xCD, 0xCD, 0xCD, 0xDB, 0xDB, 0xBA, 10, 0],
     [32, 32, 32, 0xDB, 0xDB, 0xBA, 32, 32, 32, 0xDB, 0xDB, 0xDB, 0xDB, 0xDB, 0xDB, 0xDB, 0xBA, 10, 0],
     [32, 32, 32, 0xC8, 0xCD, 0xBC, 32, 32, 32, 0xC8, 0xCD, 0xCD, 0xCD, 0xCD, 0xCD, 0xCD, 0xBC, 10, 0]]"

fun print_all :: "'d bus \<Rightarrow> bytes list \<Rightarrow> 'd world \<Rightarrow> 'd world option" where
  "print_all b [] w = Some w"
| "print_all b (s # ss) w = do { w \<leftarrow> print b s w; print_all b ss w }"

definition cmd_neofetch :: "'d bus \<Rightarrow> 'd world \<Rightarrow> 'd world option" where
  "cmd_neofetch b = print_all b logo"

definition cmd_about :: "'d bus \<Rightarrow> 'd world \<Rightarrow> 'd world option" where
  "cmd_about b w = do {
     w \<leftarrow> print_all b [literal ''Yunix v0.1.2\<newline>'', literal ''Kernel: Seaweed v0.1\<newline>'']
       (color VGA_LIGHT_CYAN VGA_BLACK w);
     print_all b [literal ''A hobby operating system by Yavuz Selim.\<newline>'',
       literal ''32-bit x86, booted by GRUB via multiboot.\<newline>'',
       literal ''Written in C and assembly, no libc underneath.\<newline>''] (color VGA_LIGHT_GREY VGA_BLACK w) }"

definition print_unit :: "'d bus \<Rightarrow> u32 \<Rightarrow> bytes \<Rightarrow> 'd world \<Rightarrow> 'd world option" where
  "print_unit b value word w = do {
     w \<leftarrow> print_number b value w;
     w \<leftarrow> putc b 32 w;
     w \<leftarrow> print b word w;
     if value \<noteq> 1 then putc b 115 w else Some w }"

definition cmd_uptime :: "'d bus \<Rightarrow> 'd world \<Rightarrow> 'd world option" where
  "cmd_uptime b w =
     (let total = timer_seconds (w_ticks w);
          hours = total div 3600; minutes = (total div 60) mod 60; seconds = total mod 60 in do {
      w \<leftarrow> print b (literal ''up '') w;
      w \<leftarrow> (if hours > 0 then do { w \<leftarrow> print_unit b hours (literal ''hour'') w; print b (literal '', '') w } else Some w);
      w \<leftarrow> (if minutes > 0 then do { w \<leftarrow> print_unit b minutes (literal ''minute'') w; print b (literal '', '') w } else Some w);
      w \<leftarrow> print_unit b seconds (literal ''second'') w;
      putc b 10 w })"

definition cmd_ticks :: "'d bus \<Rightarrow> 'd world \<Rightarrow> 'd world option" where
  "cmd_ticks b w = do {
     w \<leftarrow> print_number b (timer_ticks (w_ticks w)) w;
     w \<leftarrow> print b (literal '' ticks at '') w;
     w \<leftarrow> print_number b TIMER_HZ w;
     print b (literal '' Hz\<newline>'') w }"

definition cmd_whoami :: "'d bus \<Rightarrow> 'd world \<Rightarrow> 'd world option" where
  "cmd_whoami b w = do { w \<leftarrow> print b (user_name (w_user w)) w; putc b 10 w }"

definition cmd_disk :: "'d bus \<Rightarrow> 'd world \<Rightarrow> 'd world option" where
  "cmd_disk b w =
     (if ata_present (disk w) \<noteq> 0 then print b (literal ''Primary master: present\<newline>'') w
      else print b (literal ''Primary master: not found\<newline>'') w)"

subsection \<open>Numbers in arguments\<close>

text \<open>
  The loops of \<open>cmd_sleep\<close> and \<open>cmd_help\<close> in unsigned arithmetic, and that of \<open>cmd_color\<close> in \<open>int\<close>, where
  overflow is undefined. The inner option is \<open>None\<close> at a character that is no digit.
\<close>

fun parse_unsigned :: "u32 \<Rightarrow> bytes \<Rightarrow> u32 option option" where
  "parse_unsigned n [] = None"
| "parse_unsigned n (c # s) =
     (if c = 0 then Some (Some n)
      else if \<not> is_digit c then Some None
      else parse_unsigned (n * 10 + ucast (c - 48)) s)"

fun parse_int :: "int \<Rightarrow> bytes \<Rightarrow> int option option" where
  "parse_int n [] = None"
| "parse_int n (c # s) =
     (if c = 0 then Some (Some n)
      else if \<not> is_digit c then Some None
      else if n * 10 + (sint c - 48) > 2 ^ 31 - 1 then None
      else parse_int (n * 10 + (sint c - 48)) s)"

text \<open>The loop of \<open>timer_sleep\<close> with the interrupts of each halt.\<close>

fun sleep_halts :: "'d bus \<Rightarrow> u32 \<Rightarrow> registers list list \<Rightarrow> 'd world \<Rightarrow> 'd world outcome option" where
  "sleep_halts b target [] w =
     (if sint (target - w_ticks w) > 0 then Some (Waiting w) else Some (Returned w))"
| "sleep_halts b target (rs # halts) w =
     (if sint (target - w_ticks w) > 0
      then do { w \<leftarrow> interrupts b rs (w\<lparr>w_halts := halts\<rparr>); sleep_halts b target halts w }
      else Some (Returned w))"

definition sleep_ms :: "'d bus \<Rightarrow> u32 \<Rightarrow> 'd world \<Rightarrow> 'd world outcome option" where
  "sleep_ms b ms w =
     (let wanted = (ms * TIMER_HZ + 999) div 1000; target = w_ticks w + wanted in sleep_halts b target (w_halts w) w)"

definition cmd_sleep :: "'d bus \<Rightarrow> bytes \<Rightarrow> 'd world \<Rightarrow> 'd world outcome option" where
  "cmd_sleep b arg w = do {
     c \<leftarrow> aget arg 0;
     if c = 0 then map_option Returned (print b (literal ''Usage: sleep <seconds>\<newline>'') w)
     else do {
       n \<leftarrow> parse_unsigned 0 arg;
       (case n of
          None \<Rightarrow> map_option Returned (print b (literal ''sleep: not a number\<newline>'') w)
        | Some seconds \<Rightarrow>
            if seconds > 60 then map_option Returned (print b (literal ''sleep: 60 seconds maximum\<newline>'') w)
            else sleep_ms b (seconds * 1000) w) } }"

text \<open>The value is passed as an \<open>enum\<close>, so as its 32-bit word.\<close>

definition cmd_color :: "'d bus \<Rightarrow> bytes \<Rightarrow> 'd world \<Rightarrow> 'd world option" where
  "cmd_color b arg w = do {
     c \<leftarrow> aget arg 0;
     if c = 0 then print b (literal ''Usage: color <0-15>\<newline>'') w
     else do {
       n \<leftarrow> parse_int 0 arg;
       (case n of
          None \<Rightarrow> print b (literal ''color: not a number\<newline>'') w
        | Some value \<Rightarrow>
            if value > 15 then print b (literal ''color: pick a number from 0 to 15\<newline>'') w
            else print b (literal ''Color changed.\<newline>'')
              (w\<lparr>w_vga := vga_set_color (word_of_int value) (color_code VGA_BLACK) (w_vga w)\<rparr>)) } }"

subsection \<open>Names\<close>

text \<open>\<open>user_save\<close> on the kernel's state; the commands ignore its result.\<close>

definition save_names :: "'d world \<Rightarrow> 'd world option" where
  "save_names w = do { (_, w) \<leftarrow> on_fish (user_save (w_user w)) w; Some w }"

definition cmd_user :: "'d bus \<Rightarrow> bytes \<Rightarrow> 'd world \<Rightarrow> 'd world option" where
  "cmd_user b arg w = do {
     c \<leftarrow> aget arg 0;
     if c = 0 then print b (literal ''Usage: user <name>\<newline>'') w
     else do {
       (r, w) \<leftarrow> on_user (user_set_name (Some arg)) w;
       if r = 0 then print b (literal ''user: names cannot be empty or contain spaces\<newline>'') w
       else save_names w } }"

definition cmd_hostname :: "'d bus \<Rightarrow> bytes \<Rightarrow> 'd world \<Rightarrow> 'd world option" where
  "cmd_hostname b arg w = do {
     c \<leftarrow> aget arg 0;
     if c = 0 then do { w \<leftarrow> print b (user_host (w_user w)) w; putc b 10 w }
     else do {
       (r, w) \<leftarrow> on_user (user_set_host (Some arg)) w;
       if r = 0 then print b (literal ''hostname: names cannot be empty or contain spaces\<newline>'') w
       else save_names w } }"

subsection \<open>Fish commands\<close>

definition fish_fail :: "'d bus \<Rightarrow> bytes \<Rightarrow> int \<Rightarrow> 'd world \<Rightarrow> 'd world option" where
  "fish_fail b cmd code w = do {
     w \<leftarrow> print b cmd w;
     w \<leftarrow> print b (literal '': '') w;
     w \<leftarrow> print b (fish_error code) w;
     putc b 10 w }"

definition cmd_pwd :: "'d bus \<Rightarrow> 'd world \<Rightarrow> 'd world option" where
  "cmd_pwd b w = do {
     path \<leftarrow> fish_path (replicate FISH_PATH_MAX 0) FISH_PATH_MAX (w_fish w);
     w \<leftarrow> print b path w;
     putc b 10 w }"

definition ls_entry :: "'d bus \<Rightarrow> bytes \<times> u32 \<times> u32 \<Rightarrow> 'd world \<Rightarrow> 'd world option" where
  "ls_entry b = (\<lambda>(nm, is_dir, sz) w. do {
     w \<leftarrow> (if is_dir \<noteq> 0 then print b (literal ''[DIR]  '') (color VGA_LIGHT_BLUE VGA_BLACK w)
           else print b (literal ''[FILE] '') (color VGA_LIGHT_GREY VGA_BLACK w));
     w \<leftarrow> print b nm w;
     w \<leftarrow> (if is_dir = 0 then do {
             w \<leftarrow> print b (literal ''  ('') w;
             w \<leftarrow> print_number b sz w;
             print b (literal '' bytes)'') w }
           else Some w);
     putc b 10 w })"

text \<open>The loop over the handles; \<open>count\<close> is the number of entries so far.\<close>

partial_function (option) ls_loop :: "'d bus \<Rightarrow> int \<Rightarrow> int \<Rightarrow> 'd world \<Rightarrow> (int \<times> 'd world) option" where
  "ls_loop b handle count w = do {
     (handle, out) \<leftarrow> fish_next handle (w_fish w);
     if handle = 0 then Some (count, w)
     else do { e \<leftarrow> out; w \<leftarrow> ls_entry b e w; ls_loop b handle (count + 1) w } }"

definition cmd_ls :: "'d bus \<Rightarrow> 'd world \<Rightarrow> 'd world option" where
  "cmd_ls b w = do {
     (count, w) \<leftarrow> ls_loop b fish_first 0 w;
     let w = color VGA_LIGHT_GREY VGA_BLACK w;
     if count = 0 then print b (literal ''Directory is empty.\<newline>'') w else Some w }"

definition cmd_cd :: "'d bus \<Rightarrow> bytes \<Rightarrow> 'd world \<Rightarrow> 'd world option" where
  "cmd_cd b arg w = do {
     c \<leftarrow> aget arg 0;
     if c = 0 then do { (_, w) \<leftarrow> on_fish (fish_chdir (Some (literal ''/''))) w; Some w }
     else do {
       (r, w) \<leftarrow> on_fish (fish_chdir (Some arg)) w;
       if r < 0 then fish_fail b (literal ''cd'') r w else Some w } }"

text \<open>The commands that check for an argument, make one call, and report its failure.\<close>

definition fish_command :: "'d bus \<Rightarrow> bytes \<Rightarrow> bytes \<Rightarrow> (fish \<Rightarrow> (int \<times> fish) option) \<Rightarrow> bytes \<Rightarrow> 'd world \<Rightarrow> 'd world option" where
  "fish_command b usage cmd call arg w = do {
     c \<leftarrow> aget arg 0;
     if c = 0 then print b usage w
     else do {
       (r, w) \<leftarrow> on_fish call w;
       if r < 0 then fish_fail b cmd r w else Some w } }"

definition cmd_mkdir :: "'d bus \<Rightarrow> bytes \<Rightarrow> 'd world \<Rightarrow> 'd world option" where
  "cmd_mkdir b arg = fish_command b (literal ''Usage: mkdir <name>\<newline>'') (literal ''mkdir'') (fish_mkdir (Some arg)) arg"

definition cmd_touch :: "'d bus \<Rightarrow> bytes \<Rightarrow> 'd world \<Rightarrow> 'd world option" where
  "cmd_touch b arg = fish_command b (literal ''Usage: touch <name>\<newline>'') (literal ''touch'') (fish_create (Some arg)) arg"

definition cmd_rm :: "'d bus \<Rightarrow> bytes \<Rightarrow> 'd world \<Rightarrow> 'd world option" where
  "cmd_rm b arg = fish_command b (literal ''Usage: rm <name>\<newline>'') (literal ''rm'') (fish_remove arg) arg"

text \<open>\<open>for (i = 0; i < size; i++) vga_putchar(data[i]);\<close> with \<open>n\<close> characters left.\<close>

fun cat_loop :: "'d bus \<Rightarrow> nat \<Rightarrow> nat \<Rightarrow> bytes \<Rightarrow> 'd world \<Rightarrow> 'd world option" where
  "cat_loop b 0 i data w = Some w"
| "cat_loop b (Suc n) i data w = do { c \<leftarrow> aget data i; w \<leftarrow> putc b c w; cat_loop b n (Suc i) data w }"

definition cmd_cat :: "'d bus \<Rightarrow> bytes \<Rightarrow> 'd world \<Rightarrow> 'd world option" where
  "cmd_cat b arg w = do {
     c \<leftarrow> aget arg 0;
     if c = 0 then print b (literal ''Usage: cat <file>\<newline>'') w
     else do {
       file \<leftarrow> fish_read arg (w_fish w);
       (case file of
          None \<Rightarrow> print b (literal ''cat: no such file\<newline>'') w
        | Some (len, data) \<Rightarrow> do {
            w \<leftarrow> cat_loop b (unat len) 0 data w;
            if len > 0 then do {
              c \<leftarrow> aget data (unat (len - 1));
              if c \<noteq> 10 then putc b 10 w else Some w }
            else Some w }) } }"

text \<open>The loop that copies the file name: the array, its length, and the rest of the argument.\<close>

fun copy_word :: "nat \<Rightarrow> bytes \<Rightarrow> bytes \<Rightarrow> (bytes \<times> nat \<times> bytes) option" where
  "copy_word i [] nm = None"
| "copy_word i (c # s) nm =
     (if c \<noteq> 0 \<and> c \<noteq> 32 \<and> i < FISH_NAME_MAX - 1
      then do { nm \<leftarrow> aset nm i c; copy_word (Suc i) s nm }
      else Some (nm, i, c # s))"

fun skip_spaces :: "bytes \<Rightarrow> bytes option" where
  "skip_spaces [] = None"
| "skip_spaces (c # s) = (if c = 32 then skip_spaces s else Some (c # s))"

definition write_common :: "'d bus \<Rightarrow> bytes \<Rightarrow> bool \<Rightarrow> 'd world \<Rightarrow> 'd world option" where
  "write_common b arg appending w = do {
     c \<leftarrow> aget arg 0;
     if c = 0 then print b (if appending then literal ''Usage: append <file> <text>\<newline>''
                            else literal ''Usage: write <file> <text>\<newline>'') w
     else do {
       (nm, i, rest) \<leftarrow> copy_word 0 arg (replicate FISH_NAME_MAX 0);
       nm \<leftarrow> aset nm i 0;
       txt \<leftarrow> skip_spaces rest;
       (r, w) \<leftarrow> on_fish (if appending then fish_append nm txt else fish_write nm txt) w;
       if r < 0 then fish_fail b (if appending then literal ''append'' else literal ''write'') r w else Some w } }"

definition cmd_write :: "'d bus \<Rightarrow> bytes \<Rightarrow> 'd world \<Rightarrow> 'd world option" where
  "cmd_write b arg = write_common b arg False"

definition cmd_append :: "'d bus \<Rightarrow> bytes \<Rightarrow> 'd world \<Rightarrow> 'd world option" where
  "cmd_append b arg = write_common b arg True"

definition cmd_save :: "'d bus \<Rightarrow> 'd world \<Rightarrow> 'd world option" where
  "cmd_save b w = do {
     w \<leftarrow> save_names w;
     (r, a) \<leftarrow> fish_save b (w_fish w) (disk w);
     let w = with_disk a w;
     if r < 0 then fish_fail b (literal ''save'') r w
     else print b (literal ''Filesystem written to disk.\<newline>'') w }"

definition cmd_load :: "'d bus \<Rightarrow> bytes \<Rightarrow> 'd world \<Rightarrow> 'd world option" where
  "cmd_load b stack w = do {
     (r, fs, a) \<leftarrow> fish_load b stack (w_fish w) (disk w);
     let w = with_disk a (w\<lparr>w_fish := fs\<rparr>);
     if r < 0 then fish_fail b (literal ''load'') r w
     else print b (literal ''Filesystem restored from disk.\<newline>'') w }"

definition cmd_format :: "'d bus \<Rightarrow> 'd world \<Rightarrow> 'd world option" where
  "cmd_format b w = do {
     fs \<leftarrow> fish_init (w_fish w);
     (r, a) \<leftarrow> fish_save b fs (disk w);
     let w = with_disk a (w\<lparr>w_fish := fs\<rparr>);
     if r < 0 then fish_fail b (literal ''format'') r w
     else print b (literal ''Filesystem erased and written to disk.\<newline>'') w }"

subsection \<open>Stopping the machine\<close>

text \<open>The loop that waits for the keyboard controller may not end; then the command does not return.\<close>

partial_function (option) wait_input_empty :: "'d bus \<Rightarrow> 'd \<Rightarrow> 'd option" where
  "wait_input_empty b d = (let (st, d) = inb b 0x64 d in if st AND 0x02 \<noteq> 0 then wait_input_empty b d else Some d)"

definition cmd_reboot :: "'d bus \<Rightarrow> 'd world \<Rightarrow> 'd world outcome option" where
  "cmd_reboot b w = do {
     w \<leftarrow> print b (literal ''Rebooting...\<newline>'') w;
     d \<leftarrow> wait_input_empty b (w_dev w);
     Some (Halted (w\<lparr>w_dev := outb b 0x64 0xFE d\<rparr>)) }"

definition cmd_halt :: "'d bus \<Rightarrow> 'd world \<Rightarrow> 'd world outcome option" where
  "cmd_halt b w = map_option Halted (print b (literal ''System halted. You can close the system.\<newline>'') w)"

subsection \<open>The command table\<close>

datatype command_fn =
    Cmd_help | Cmd_neofetch | Cmd_clear | Cmd_echo | Cmd_about | Cmd_ls | Cmd_cd | Cmd_pwd | Cmd_mkdir |
    Cmd_touch | Cmd_cat | Cmd_write | Cmd_append | Cmd_rm | Cmd_save | Cmd_load | Cmd_format |
    Cmd_disk | Cmd_color | Cmd_whoami | Cmd_user | Cmd_hostname | Cmd_uptime | Cmd_ticks | Cmd_sleep |
    Cmd_reboot | Cmd_halt

record command_row =
  c_name :: bytes
  c_args :: bytes
  c_help :: bytes
  c_run :: command_fn

definition row :: "string \<Rightarrow> string \<Rightarrow> string \<Rightarrow> command_fn \<Rightarrow> command_row" where
  "row nm args help f = \<lparr>c_name = literal nm, c_args = literal args, c_help = literal help, c_run = f\<rparr>"

definition commands :: "command_row list" where
  "commands = [
     row ''help'' ''[page]'' ''show this list'' Cmd_help,
     row ''neofetch'' '''' ''show the logo'' Cmd_neofetch,
     row ''clear'' '''' ''clear the screen'' Cmd_clear,
     row ''echo'' ''<text>'' ''print text back'' Cmd_echo,
     row ''about'' '''' ''information about this system'' Cmd_about,
     row ''ls'' '''' ''list files in the directory'' Cmd_ls,
     row ''cd'' ''<dir>'' ''go in or out of a directory'' Cmd_cd,
     row ''pwd'' '''' ''print the current directory'' Cmd_pwd,
     row ''mkdir'' ''<name>'' ''create a directory'' Cmd_mkdir,
     row ''touch'' ''<name>'' ''create a file'' Cmd_touch,
     row ''cat'' ''<file>'' ''show what is inside a file'' Cmd_cat,
     row ''write'' ''<file> <text>'' ''write text to a file'' Cmd_write,
     row ''append'' ''<file> <text>'' ''add text to a file'' Cmd_append,
     row ''rm'' ''<name>'' ''delete a file or empty directory'' Cmd_rm,
     row ''save'' '''' ''write the filesystem to disk'' Cmd_save,
     row ''load'' '''' ''read the filesystem from disk'' Cmd_load,
     row ''format'' '''' ''erase the filesystem and save it'' Cmd_format,
     row ''disk'' '''' ''is there a disk attached?'' Cmd_disk,
     row ''color'' ''<0-15>'' ''change the text colour'' Cmd_color,
     row ''whoami'' '''' ''print the current user name'' Cmd_whoami,
     row ''user'' ''<name>'' ''change the user name'' Cmd_user,
     row ''hostname'' ''[name]'' ''show or change the computer name'' Cmd_hostname,
     row ''uptime'' '''' ''how long the system has run'' Cmd_uptime,
     row ''ticks'' '''' ''raw timer tick count'' Cmd_ticks,
     row ''sleep'' ''<secs>'' ''wait for a while'' Cmd_sleep,
     row ''reboot'' '''' ''restart the machine'' Cmd_reboot,
     row ''halt'' '''' ''stop the CPU'' Cmd_halt]"

definition COMMAND_COUNT :: nat where "COMMAND_COUNT = length commands"
definition HELP_PER_PAGE :: u32 where "HELP_PER_PAGE = 20"
definition HELP_COLUMN :: nat where "HELP_COLUMN = 23"

definition help_pages :: u32 where
  "help_pages = (of_nat COMMAND_COUNT + HELP_PER_PAGE - 1) div HELP_PER_PAGE"

text \<open>The padding loop, with the spaces left.\<close>

fun pad :: "'d bus \<Rightarrow> nat \<Rightarrow> 'd world \<Rightarrow> 'd world option" where
  "pad b 0 w = Some w"
| "pad b (Suc n) w = do { w \<leftarrow> putc b 32 w; pad b n w }"

definition write_padded :: "'d bus \<Rightarrow> bytes \<Rightarrow> bytes \<Rightarrow> 'd world \<Rightarrow> 'd world option" where
  "write_padded b nm args w = do {
     w \<leftarrow> print b (literal ''  '') w;
     w \<leftarrow> print b nm w;
     n \<leftarrow> strlen nm;
     c \<leftarrow> aget args 0;
     (width, w) \<leftarrow> (if c \<noteq> 0 then do {
         w \<leftarrow> putc b 32 w;
         w \<leftarrow> print b args w;
         m \<leftarrow> strlen args;
         Some (n + 1 + m, w) }
       else Some (n, w));
     pad b (HELP_COLUMN - width) w }"

fun help_rows :: "'d bus \<Rightarrow> command_row list \<Rightarrow> 'd world \<Rightarrow> 'd world option" where
  "help_rows b [] w = Some w"
| "help_rows b (r # rs) w = do {
     w \<leftarrow> write_padded b (c_name r) (c_args r) w;
     w \<leftarrow> print b (c_help r) w;
     w \<leftarrow> putc b 10 w;
     help_rows b rs w }"

definition help_page :: "'d bus \<Rightarrow> u32 \<Rightarrow> 'd world \<Rightarrow> 'd world option" where
  "help_page b page w = do {
     let start = (page - 1) * HELP_PER_PAGE;
     w \<leftarrow> print b (literal ''Available commands (page '') w;
     w \<leftarrow> print_number b page w;
     w \<leftarrow> print b (literal '' of '') w;
     w \<leftarrow> print_number b help_pages w;
     w \<leftarrow> print b (literal ''):\<newline>'') w;
     w \<leftarrow> help_rows b (take (unat HELP_PER_PAGE) (drop (unat start) commands)) w;
     if page < help_pages then print b (literal ''\<newline>Type help 2 for more.\<newline>'') w else Some w }"

definition cmd_help :: "'d bus \<Rightarrow> bytes \<Rightarrow> 'd world \<Rightarrow> 'd world option" where
  "cmd_help b arg w = do {
     c \<leftarrow> aget arg 0;
     if c = 0 then help_page b 1 w
     else do {
       n \<leftarrow> parse_unsigned 0 arg;
       (case n of
          None \<Rightarrow> print b (literal ''help: not a number\<newline>'') w
        | Some page \<Rightarrow>
            if page < 1 \<or> page > help_pages then print b (literal ''help: no such page\<newline>'') w
            else help_page b page w) } }"

text \<open>Calling the function of a row.\<close>

fun run_command :: "'d bus \<Rightarrow> bytes \<Rightarrow> command_fn \<Rightarrow> bytes \<Rightarrow> 'd world \<Rightarrow> 'd world outcome option" where
  "run_command b stack Cmd_help arg w = map_option Returned (cmd_help b arg w)"
| "run_command b stack Cmd_neofetch arg w = map_option Returned (cmd_neofetch b w)"
| "run_command b stack Cmd_clear arg w = map_option Returned (cmd_clear b w)"
| "run_command b stack Cmd_echo arg w = map_option Returned (cmd_echo b arg w)"
| "run_command b stack Cmd_about arg w = map_option Returned (cmd_about b w)"
| "run_command b stack Cmd_ls arg w = map_option Returned (cmd_ls b w)"
| "run_command b stack Cmd_cd arg w = map_option Returned (cmd_cd b arg w)"
| "run_command b stack Cmd_pwd arg w = map_option Returned (cmd_pwd b w)"
| "run_command b stack Cmd_mkdir arg w = map_option Returned (cmd_mkdir b arg w)"
| "run_command b stack Cmd_touch arg w = map_option Returned (cmd_touch b arg w)"
| "run_command b stack Cmd_cat arg w = map_option Returned (cmd_cat b arg w)"
| "run_command b stack Cmd_write arg w = map_option Returned (cmd_write b arg w)"
| "run_command b stack Cmd_append arg w = map_option Returned (cmd_append b arg w)"
| "run_command b stack Cmd_rm arg w = map_option Returned (cmd_rm b arg w)"
| "run_command b stack Cmd_save arg w = map_option Returned (cmd_save b w)"
| "run_command b stack Cmd_load arg w = map_option Returned (cmd_load b stack w)"
| "run_command b stack Cmd_format arg w = map_option Returned (cmd_format b w)"
| "run_command b stack Cmd_disk arg w = map_option Returned (cmd_disk b w)"
| "run_command b stack Cmd_color arg w = map_option Returned (cmd_color b arg w)"
| "run_command b stack Cmd_whoami arg w = map_option Returned (cmd_whoami b w)"
| "run_command b stack Cmd_user arg w = map_option Returned (cmd_user b arg w)"
| "run_command b stack Cmd_hostname arg w = map_option Returned (cmd_hostname b arg w)"
| "run_command b stack Cmd_uptime arg w = map_option Returned (cmd_uptime b w)"
| "run_command b stack Cmd_ticks arg w = map_option Returned (cmd_ticks b w)"
| "run_command b stack Cmd_sleep arg w = cmd_sleep b arg w"
| "run_command b stack Cmd_reboot arg w = cmd_reboot b w"
| "run_command b stack Cmd_halt arg w = cmd_halt b w"

subsection \<open>Reading and running a line\<close>

partial_function (option) read_line :: "'d bus \<Rightarrow> nat \<Rightarrow> 'd world \<Rightarrow> 'd world outcome option" where
  "read_line b len w = do {
     (key, k) \<leftarrow> keyboard_getchar (w_kbd w);
     let w = w\<lparr>w_kbd := k\<rparr>;
     if key = 0 then do {
       x \<leftarrow> hlt b w;
       (case x of None \<Rightarrow> Some (Waiting w) | Some w \<Rightarrow> read_line b len w) }
     else if key = 10 then do {
       w \<leftarrow> putc b 10 w;
       line \<leftarrow> aset (w_line w) len 0;
       Some (Returned (w\<lparr>w_line := line\<rparr>)) }
     else if key = 8 then
       (if len > 0 then do { w \<leftarrow> putc b 8 w; read_line b (len - 1) w } else read_line b len w)
     else if key > 255 \<or> key < 32 then read_line b len w
     else if len \<ge> LINE_MAX - 1 then read_line b len w
     else do {
       line \<leftarrow> aset (w_line w) len (word_of_int key);
       w \<leftarrow> putc b (word_of_int key) (w\<lparr>w_line := line\<rparr>);
       read_line b (len + 1) w } }"

fun word_end :: "nat \<Rightarrow> bytes \<Rightarrow> nat option" where
  "word_end i [] = None"
| "word_end i (c # s) = (if c \<noteq> 0 \<and> c \<noteq> 32 then word_end (Suc i) s else Some i)"

text \<open>The text with the command cut off by a zero, and the rest of it from the argument on.\<close>

definition split_line :: "bytes \<Rightarrow> (bytes \<times> bytes) option" where
  "split_line txt = do {
     i \<leftarrow> word_end 0 txt;
     c \<leftarrow> aget txt i;
     if c = 0 then Some (txt, drop i txt)
     else do {
       txt \<leftarrow> aset txt i 0;
       arg \<leftarrow> skip_spaces (drop (Suc i) txt);
       Some (txt, arg) } }"

fun find_command :: "bytes \<Rightarrow> command_row list \<Rightarrow> command_row option option" where
  "find_command txt [] = Some None"
| "find_command txt (r # rs) = do {
     same \<leftarrow> str_eq txt (c_name r);
     if same then Some (Some r) else find_command txt rs }"

definition execute :: "'d bus \<Rightarrow> bytes \<Rightarrow> 'd world \<Rightarrow> 'd world outcome option" where
  "execute b stack w = do {
     txt \<leftarrow> skip_spaces (w_line w);
     c \<leftarrow> aget txt 0;
     if c = 0 then Some (Returned w)
     else do {
       (txt, arg) \<leftarrow> split_line txt;
       let w = w\<lparr>w_line := take (length (w_line w) - length txt) (w_line w) @ txt\<rparr>;
       r \<leftarrow> find_command txt commands;
       (case r of
          Some r \<Rightarrow> run_command b stack (c_run r) arg w
        | None \<Rightarrow> do {
            w \<leftarrow> print b txt w;
            w \<leftarrow> print b (literal '': command not found. Type help.\<newline>'') w;
            Some (Returned w) }) } }"

definition shell_prompt :: "'d bus \<Rightarrow> 'd world \<Rightarrow> 'd world option" where
  "shell_prompt b w = do {
     w \<leftarrow> print b (user_name (w_user w)) (color VGA_LIGHT_GREEN VGA_BLACK w);
     w \<leftarrow> putc b 64 w;
     w \<leftarrow> print b (user_host (w_user w)) w;
     w \<leftarrow> print b (literal '' >> '') w;
     Some (color VGA_LIGHT_GREY VGA_BLACK w) }"

partial_function (option) shell_run :: "'d bus \<Rightarrow> bytes \<Rightarrow> 'd world \<Rightarrow> 'd world outcome option" where
  "shell_run b stack w = do {
     w \<leftarrow> shell_prompt b w;
     r \<leftarrow> read_line b 0 w;
     (case r of
        Returned w \<Rightarrow> do {
          r \<leftarrow> execute b stack w;
          (case r of Returned w \<Rightarrow> shell_run b stack w | r \<Rightarrow> Some r) }
      | r \<Rightarrow> Some r) }"

end
