(* ===== verification/Shell_Safe.thy ===== *)
theory Shell_Safe
  imports Shell Fish_Disk_Props
begin

text \<open>
  Every command of the shell runs without undefined behaviour and keeps the invariant of the kernel.
  The proofs follow the code with rules for the sequencing of actions (\<open>doing\<close>), in the manner
  of a calculus of weakest preconditions.
\<close>

named_theorems doing \<open>introduction rules for what a sequence of actions does\<close>

subsection \<open>The invariant, with the disk\<close>

text \<open>
  What is on the disk can be trusted: it works, and if it carries a superblock of Fish, then the
  image of some filesystem that Fish could be in (see \<open>fish_load_trusts_parents\<close>).
\<close>

definition disk_sound :: "drive \<Rightarrow> bool" where
  "disk_sound h \<longleftrightarrow> (\<forall>i < 71. \<not> faulty h (2048 + i)) \<and>
     (superblock_ok (sector_bytes h 2048) \<longrightarrow> (\<exists>g. fish_ok g \<and> holds_image (sector_bytes h) g))"

definition sound :: "('d \<Rightarrow> drive) \<Rightarrow> 'd world \<Rightarrow> bool" where
  "sound view w \<longleftrightarrow> world_ok view w \<and> (w_present w \<noteq> 0 \<longrightarrow> disk_sound (view (w_dev w)))"

text \<open>
  An action that is no wait: it keeps the invariant, and the parts only interrupts and input change. Of the console, the files, the names
  and the drive it says no more than the invariant; what becomes of those is said where it matters.
\<close>

definition quiet :: "('d \<Rightarrow> drive) \<Rightarrow> 'd world \<Rightarrow> 'd world \<Rightarrow> bool" where
  "quiet view w w' \<longleftrightarrow> sound view w' \<and> w_kbd w' = w_kbd w \<and> w_halts w' = w_halts w \<and> w_ticks w' = w_ticks w \<and>
     w_slots w' = w_slots w \<and> w_line w' = w_line w"

definition does :: "('d \<Rightarrow> drive) \<Rightarrow> 'd world \<Rightarrow> 'd world option \<Rightarrow> bool" where
  "does view w x \<longleftrightarrow> gives x (quiet view w)"

lemma quiet_refl: "sound view w \<Longrightarrow> quiet view w w"
  by (simp add: quiet_def)

lemma quiet_trans: "quiet view w w1 \<Longrightarrow> quiet view w1 w2 \<Longrightarrow> quiet view w w2"
  by (simp add: quiet_def)

lemma does_Some: "quiet view w w' \<Longrightarrow> does view w (Some w')"
  by (simp add: does_def)

lemma does_step: "quiet view w w1 \<Longrightarrow> does view w1 x \<Longrightarrow> does view w x"
  by (auto simp: does_def elim!: gives_mono intro: quiet_trans)

lemma does_bind:
  assumes "does view w x" "\<And>w'. quiet view w w' \<Longrightarrow> sound view w' \<Longrightarrow> does view w' (f w')"
  shows "does view w (Option.bind x f)"
proof -
  from assms(1) obtain w1 where w1: "x = Some w1" "quiet view w w1" by (auto simp: does_def gives_def)
  with assms(2) have "does view w1 (f w1)" by (simp add: quiet_def)
  with w1 show ?thesis by (simp add: does_step)
qed

lemma does_if: "(c \<Longrightarrow> does view w x) \<Longrightarrow> (\<not> c \<Longrightarrow> does view w y) \<Longrightarrow> does view w (if c then x else y)"
  by simp

lemma soundD:
  assumes "sound view w"
  shows "vga_ok (w_vga w)" "keyboard_ok (w_kbd w)" "length (w_slots w) = 16" "user_ok (w_user w)"
    "fish_ok (w_fish w)" "length (w_line w) = 256" "w_present w \<noteq> 0 \<Longrightarrow> drive_ok (view (w_dev w))"
    "w_present w \<noteq> 0 \<Longrightarrow> disk_sound (view (w_dev w))"
    "list_all (list_all hardware_irq) (w_halts w)"
  using assms by (simp_all add: sound_def world_ok_def)

lemma quiet_console: "sound view w \<Longrightarrow> world_ok view w' \<Longrightarrow> console_only view w w' \<Longrightarrow> quiet view w w'"
  by (drule console_onlyD) (simp add: quiet_def sound_def)

lemma does_print: "machine b view \<Longrightarrow> terminated s \<Longrightarrow> sound view w \<Longrightarrow> does view w (print b s w)"
  using print_gives [of b view s w] unfolding does_def
  by (auto simp: sound_def elim!: gives_mono intro!: quiet_console)

lemma does_putc: "machine b view \<Longrightarrow> sound view w \<Longrightarrow> does view w (putc b c w)"
  using putc_gives [of b view w c] unfolding does_def
  by (auto simp: sound_def elim!: gives_mono intro!: quiet_console)

lemma quiet_set_color: "sound view w \<Longrightarrow> quiet view w (w\<lparr>w_vga := vga_set_color f g (w_vga w)\<rparr>)"
  by (simp add: quiet_def sound_def world_ok_def vga_ok_def vga_set_color_def)

lemma quiet_color: "sound view w \<Longrightarrow> quiet view w (color fg bg w)"
  by (simp add: color_def quiet_set_color)

lemma sound_color: "sound view w \<Longrightarrow> sound view (color fg bg w)"
  using quiet_color [of view w fg bg] by (simp add: quiet_def)

lemma does_color: "sound view w \<Longrightarrow> does view (color fg bg w) x \<Longrightarrow> does view w x"
  by (rule does_step [OF quiet_color])

lemma sound_terminated: "sound view w \<Longrightarrow> terminated (user_name (w_user w)) \<and> terminated (user_host (w_user w))"
  by (simp add: soundD(4) [unfolded user_ok_def field_ok_def] user_name_def user_host_def)

lemma print_number_does:
  assumes "machine b view" "sound view w"
  shows "does view w (print_number b n w)"
proof -
  have "\<exists>s. utoa n (replicate 12 0) 10 = Some s \<and> terminated s" using utoa_10 [of "replicate 12 0" n] by auto
  with does_print [OF assms(1) _ assms(2)] show ?thesis by (auto simp: print_number_def)
qed

lemma does_case_option:
  "(n = None \<Longrightarrow> does view w x) \<Longrightarrow> (\<And>y. n = Some y \<Longrightarrow> does view w (f y)) \<Longrightarrow>
   does view w (case n of None \<Rightarrow> x | Some y \<Rightarrow> f y)"
  by (cases n) simp_all

lemmas [doing] = does_bind does_if does_case_option does_print does_putc print_number_does sound_color
  literal_terminated quiet_set_color quiet_color does_Some

subsection \<open>Commands that only print\<close>

lemma vga_clear_does:
  assumes "machine b view" "sound view w"
  shows "does view w (cmd_clear b w)"
proof -
  note v = vga_okD [OF soundD(1) [OF assms(2)]]
  show ?thesis
    using v assms view_update_cursor [OF assms(1)]
    by (simp add: cmd_clear_def on_console_def vga_clear_eq Let_def does_def quiet_def sound_def world_ok_def vga_ok_def)
qed

lemma print_all_does:
  "machine b view \<Longrightarrow> list_all terminated ss \<Longrightarrow> sound view w \<Longrightarrow> does view w (print_all b ss w)"
  by (induction ss arbitrary: w) (auto intro!: doing quiet_refl)

lemma logo_terminated: "list_all terminated logo"
  by (simp add: logo_def)

lemma print_unit_does:
  "machine b view \<Longrightarrow> terminated word \<Longrightarrow> sound view w \<Longrightarrow> does view w (print_unit b n word w)"
  unfolding print_unit_def by (intro doing quiet_refl)

lemma print_color_does:
  "machine b view \<Longrightarrow> terminated s \<Longrightarrow> sound view w \<Longrightarrow> does view w (print b s (color fg bg w))"
  "machine b view \<Longrightarrow> list_all terminated ss \<Longrightarrow> sound view w \<Longrightarrow> does view w (print_all b ss (color fg bg w))"
  by (auto intro: does_color does_print print_all_does sound_color)

lemmas [doing] = print_color_does vga_clear_does print_all_does print_unit_does

lemma cmd_echo_does: "machine b view \<Longrightarrow> terminated arg \<Longrightarrow> sound view w \<Longrightarrow> does view w (cmd_echo b arg w)"
  unfolding cmd_echo_def by (intro doing)

lemma cmd_neofetch_does: "machine b view \<Longrightarrow> sound view w \<Longrightarrow> does view w (cmd_neofetch b w)"
  unfolding cmd_neofetch_def by (intro doing logo_terminated)

lemma cmd_about_does: "machine b view \<Longrightarrow> sound view w \<Longrightarrow> does view w (cmd_about b w)"
  unfolding cmd_about_def
  by (intro doing) simp_all

lemma cmd_uptime_does: "machine b view \<Longrightarrow> sound view w \<Longrightarrow> does view w (cmd_uptime b w)"
  unfolding cmd_uptime_def Let_def by (intro doing quiet_refl)

lemma cmd_ticks_does: "machine b view \<Longrightarrow> sound view w \<Longrightarrow> does view w (cmd_ticks b w)"
  unfolding cmd_ticks_def by (intro doing)

lemma cmd_whoami_does: "machine b view \<Longrightarrow> sound view w \<Longrightarrow> does view w (cmd_whoami b w)"
  unfolding cmd_whoami_def by (intro doing sound_terminated [THEN conjunct1])

lemma cmd_disk_does: "machine b view \<Longrightarrow> sound view w \<Longrightarrow> does view w (cmd_disk b w)"
  unfolding cmd_disk_def by (intro doing)

subsection \<open>Arguments\<close>

definition arg_ok :: "bytes \<Rightarrow> bool" where
  "arg_ok arg \<longleftrightarrow> terminated arg \<and> length arg \<le> 256"

lemma arg_terminated: "arg_ok arg \<Longrightarrow> terminated arg"
  by (simp add: arg_ok_def)

lemma does_first:
  assumes "terminated arg" "\<And>c. aget arg 0 = Some c \<Longrightarrow> (c = 0 \<longleftrightarrow> text_of arg = []) \<Longrightarrow> does view w (f c)"
  shows "does view w (Option.bind (aget arg 0) f)"
  using terminated_aget [OF assms(1)] assms(2) by auto

lemma does_pure: "x = Some y \<Longrightarrow> does view w (f y) \<Longrightarrow> does view w (Option.bind x f)"
  by simp

lemma parse_unsigned_total: "terminated s \<Longrightarrow> \<exists>r. parse_unsigned n s = Some r"
  by (induction s arbitrary: n) auto

lemma does_parse:
  "terminated s \<Longrightarrow> (\<And>r. does view w (f r)) \<Longrightarrow> does view w (Option.bind (parse_unsigned n s) f)"
  using parse_unsigned_total [of s n] by auto

lemmas [doing] = does_first does_parse

lemma cmd_color_does:
  assumes "machine b view" "arg_ok arg" "sound view w" "parse_int 0 arg = Some n"
  shows "does view w (cmd_color b arg w)"
proof -
  have set: "does view w (print b s (w\<lparr>w_vga := vga_set_color f g (w_vga w)\<rparr>))" if "terminated s" "sound view w" for s f g w
    using quiet_set_color [OF that(2), of f g] does_print [OF assms(1) that(1)]
    by (intro does_step [OF quiet_set_color [OF that(2)]]) (simp add: quiet_def)
  show ?thesis unfolding cmd_color_def assms(4) bind.bind_lunit
    by (intro doing set assms arg_terminated)
qed

subsection \<open>Help\<close>

lemma does_pad: "machine b view \<Longrightarrow> sound view w \<Longrightarrow> does view w (pad b n w)"
  by (induction n arbitrary: w) (auto intro!: doing quiet_refl)

lemma write_padded_does:
  assumes "machine b view" "terminated nm" "terminated args" "sound view w"
  shows "does view w (write_padded b nm args w)"
proof -
  have args: "Option.bind (if c then Option.bind x1 (\<lambda>w. Option.bind (x2 w) (\<lambda>w. Some (m, w))) else Some (n, w)) f =
      (if c then Option.bind x1 (\<lambda>w. Option.bind (x2 w) (\<lambda>w. f (m, w))) else f (n, w))" for c x1 x2 m n w f
    by (simp add: Option.bind_assoc)
  show ?thesis unfolding write_padded_def strlen_eq if_P [OF assms(2)] if_P [OF assms(3)] bind.bind_lunit args prod.case
    by (intro doing assms does_pad)
qed

lemma help_rows_does:
  assumes m: "machine b view"
  shows "list_all (\<lambda>r. terminated (c_name r) \<and> terminated (c_args r) \<and> terminated (c_help r)) rs \<Longrightarrow> sound view w \<Longrightarrow>
    does view w (help_rows b rs w)"
  by (induction rs arbitrary: w) (auto intro!: doing quiet_refl write_padded_does [OF m] m)

lemma commands_terminated:
  "list_all (\<lambda>r. terminated (c_name r) \<and> terminated (c_args r) \<and> terminated (c_help r)) commands"
  by (simp add: commands_def row_def)

lemma list_all_slice: "list_all P xs \<Longrightarrow> list_all P (take m (drop n xs))"
  by (auto simp: list_all_iff dest: in_set_takeD in_set_dropD)

lemma help_page_does: "machine b view \<Longrightarrow> sound view w \<Longrightarrow> does view w (help_page b page w)"
  unfolding help_page_def Let_def by (intro doing help_rows_does list_all_slice commands_terminated quiet_refl)

lemma cmd_help_does: "machine b view \<Longrightarrow> arg_ok arg \<Longrightarrow> sound view w \<Longrightarrow> does view w (cmd_help b arg w)"
  unfolding cmd_help_def by (intro doing arg_terminated help_page_does)

subsection \<open>Names and files\<close>

lemma quiet_fish: "sound view w \<Longrightarrow> fish_ok fs \<Longrightarrow> quiet view w (w\<lparr>w_fish := fs\<rparr>)"
  by (simp add: quiet_def sound_def world_ok_def)

lemma quiet_user: "sound view w \<Longrightarrow> user_ok u \<Longrightarrow> quiet view w (w\<lparr>w_user := u\<rparr>)"
  by (simp add: quiet_def sound_def world_ok_def)

text \<open>The calls on the two components, each keeping its own invariant.\<close>

lemma does_on_fish:
  assumes "sound view w" "\<exists>r fs. f (w_fish w) = Some (r, fs) \<and> fish_ok fs"
    "\<And>r w'. quiet view w w' \<Longrightarrow> sound view w' \<Longrightarrow> does view w' (g r w')"
  shows "does view w (Option.bind (on_fish f w) (\<lambda>(r, w). g r w))"
proof -
  from assms(2) obtain r fs where f: "f (w_fish w) = Some (r, fs)" "fish_ok fs" by blast
  note q = quiet_fish [OF assms(1) f(2)]
  from does_step [OF q assms(3) [OF q]] q f(1) show ?thesis by (simp add: on_fish_def quiet_def)
qed

lemma does_on_user:
  assumes "sound view w" "\<exists>r u. f (w_user w) = Some (r, u) \<and> user_ok u"
    "\<And>r w'. quiet view w w' \<Longrightarrow> sound view w' \<Longrightarrow> does view w' (g r w')"
  shows "does view w (Option.bind (on_user f w) (\<lambda>(r, w). g r w))"
proof -
  from assms(2) obtain r u where f: "f (w_user w) = Some (r, u)" "user_ok u" by blast
  note q = quiet_user [OF assms(1) f(2)]
  from does_step [OF q assms(3) [OF q]] q f(1) show ?thesis by (simp add: on_user_def quiet_def)
qed

lemma set_names_total:
  assumes "user_ok u" "terminated s"
  shows "\<exists>r u'. user_set_name (Some s) u = Some (r, u') \<and> user_ok u'"
    and "\<exists>r u'. user_set_host (Some s) u = Some (r, u') \<and> user_ok u'"
proof -
  have l: "length (u_name u) = 32" "length (u_host u) = 32"
    using assms(1) field_ok_length by (auto simp: user_ok_def)
  obtain r1 n where n: "set_field (u_name u) (Some s) = Some (r1, n)"
    using set_field_correct [OF assms(2) l(1)] by fastforce
  obtain r2 h where h: "set_field (u_host u) (Some s) = Some (r2, h)"
    using set_field_correct [OF assms(2) l(2)] by fastforce
  show "\<exists>r u'. user_set_name (Some s) u = Some (r, u') \<and> user_ok u'"
    using set_field_ok [OF assms(2) l(1) n] n assms(1) by (cases "r1 = 1") (auto simp: user_set_name_def user_ok_def)
  show "\<exists>r u'. user_set_host (Some s) u = Some (r, u') \<and> user_ok u'"
    using set_field_ok [OF assms(2) l(2) h] h assms(1) by (cases "r2 = 1") (auto simp: user_set_host_def user_ok_def)
qed

lemma save_names_does: "sound view w \<Longrightarrow> does view w (save_names w)"
  unfolding save_names_def
  using user_save_correct [OF soundD(4) soundD(5), of view w view w]
  by (intro does_on_fish doing quiet_refl) auto

lemmas [doing] = does_on_fish does_on_user save_names_does

lemma cmd_user_does: "machine b view \<Longrightarrow> arg_ok arg \<Longrightarrow> sound view w \<Longrightarrow> does view w (cmd_user b arg w)"
  unfolding cmd_user_def by (intro doing arg_terminated set_names_total(1) soundD(4))

lemma cmd_hostname_does: "machine b view \<Longrightarrow> arg_ok arg \<Longrightarrow> sound view w \<Longrightarrow> does view w (cmd_hostname b arg w)"
  unfolding cmd_hostname_def by (intro doing set_names_total(2) soundD(4) sound_terminated [THEN conjunct2] arg_terminated)

text \<open>The calls of Fish, from the interface.\<close>

lemma call_total: "sound view w \<Longrightarrow> call_ok c \<Longrightarrow> \<exists>r fs. fish_call c (w_fish w) = Some (r, fs) \<and> fish_ok fs"
  using fish.step_law [OF soundD(5), of view w c] by blast

lemma named_total:
  assumes "sound view w" "arg_ok x"
  shows "\<exists>r fs. fish_mkdir (Some x) (w_fish w) = Some (r, fs) \<and> fish_ok fs"
    "\<exists>r fs. fish_create (Some x) (w_fish w) = Some (r, fs) \<and> fish_ok fs"
    "\<exists>r fs. fish_chdir (Some x) (w_fish w) = Some (r, fs) \<and> fish_ok fs"
    "\<exists>r fs. fish_remove x (w_fish w) = Some (r, fs) \<and> fish_ok fs"
    "arg_ok t \<Longrightarrow> \<exists>r fs. fish_write x t (w_fish w) = Some (r, fs) \<and> fish_ok fs"
    "arg_ok t \<Longrightarrow> \<exists>r fs. fish_append x t (w_fish w) = Some (r, fs) \<and> fish_ok fs"
  using call_total [OF assms(1), of "Mkdir x"] call_total [OF assms(1), of "Create x"] call_total [OF assms(1), of "Chdir x"]
    call_total [OF assms(1), of "Remove x"] call_total [OF assms(1), of "Write x t"] call_total [OF assms(1), of "Append x t"]
    assms(2) by (simp_all add: call_ok_def arg_ok_def)

lemma fish_error_terminated: "terminated (fish_error code)"
  by (simp add: fish_error_def)

lemma fish_fail_does: "machine b view \<Longrightarrow> terminated cmd \<Longrightarrow> sound view w \<Longrightarrow> does view w (fish_fail b cmd code w)"
  unfolding fish_fail_def by (intro doing fish_error_terminated)

lemmas [doing] = fish_fail_does

lemma cmd_pwd_does:
  assumes "machine b view" "sound view w"
  shows "does view w (cmd_pwd b w)"
proof -
  obtain p where "fish_path (replicate FISH_PATH_MAX 0) FISH_PATH_MAX (w_fish w) = Some p" "terminated p"
    using fish_path_refines [OF soundD(5) [OF assms(2)], of FISH_PATH_MAX "replicate FISH_PATH_MAX 0"]
    by (auto simp: fish_sizes)
  with assms show ?thesis by (auto simp: cmd_pwd_def intro!: doing)
qed

lemma literal_arg: "length s < 256 \<Longrightarrow> arg_ok (literal s)"
  by (simp add: arg_ok_def literal_def)

lemma cmd_cd_does:
  assumes "machine b view" "arg_ok arg" "sound view w"
  shows "does view w (cmd_cd b arg w)"
proof -
  have "arg_ok (literal ''/'')" by (simp add: literal_arg)
  then show ?thesis unfolding cmd_cd_def by (intro doing named_total [OF assms(3)] arg_terminated assms quiet_refl)
qed

lemma fish_command_does:
  assumes "machine b view" "terminated usage" "terminated cmd" "arg_ok arg" "sound view w"
    "\<exists>r fs. f (w_fish w) = Some (r, fs) \<and> fish_ok fs"
  shows "does view w (fish_command b usage cmd f arg w)"
  unfolding fish_command_def by (intro doing arg_terminated [OF assms(4)] assms quiet_refl)

lemma make_commands_do:
  assumes "machine b view" "arg_ok arg" "sound view w"
  shows "does view w (cmd_mkdir b arg w)" "does view w (cmd_touch b arg w)" "does view w (cmd_rm b arg w)"
  unfolding cmd_mkdir_def cmd_touch_def cmd_rm_def by (intro fish_command_does named_total [OF assms(3)] assms literal_terminated)+

text \<open>Splitting the argument of \<open>write\<close> and \<open>append\<close>.\<close>

abbreviation word_of :: "bytes \<Rightarrow> bytes" where
  "word_of t \<equiv> takeWhile (\<lambda>c. c \<noteq> 32) t"

abbreviation unspaced :: "bytes \<Rightarrow> bytes" where
  "unspaced t \<equiv> dropWhile (\<lambda>c. c = 32) t"

lemma skip_spaces_eq:
  "terminated s \<Longrightarrow> skip_spaces s = Some (unspaced s) \<and> terminated (unspaced s) \<and> text_of (unspaced s) = unspaced (text_of s)"
  by (induction s) auto

lemma copy_word_eq:
  "terminated s \<Longrightarrow> length nm = 32 \<Longrightarrow> i \<le> 31 \<Longrightarrow>
   copy_word i s nm = Some (let t = take (31 - i) (word_of (text_of s)) in
     (take i nm @ t @ drop (i + length t) nm, i + length t, drop (length t) s))"
proof (induction s arbitrary: i nm)
  case (Cons c s)
  show ?case
  proof (cases "c \<noteq> 0 \<and> c \<noteq> 32 \<and> i < 31")
    case False
    then show ?thesis using Cons.prems by (auto simp: FISH_NAME_MAX_def Let_def)
  next
    case True
    have "take (Suc i) (nm[i := c]) = take i nm @ [c]"
      using True Cons.prems(2) by (simp add: take_Suc_conv_app_nth)
    moreover have "31 - i = Suc (31 - Suc i)" using True by arith
    ultimately show ?thesis using True Cons.prems Cons.IH [of "nm[i := c]" "Suc i"]
      by (simp add: FISH_NAME_MAX_def Let_def aset_def)
  qed
qed simp

lemma terminated_drop: "n \<le> length (text_of s) \<Longrightarrow> terminated s \<Longrightarrow> terminated (drop n s) \<and> text_of (drop n s) = drop n (text_of s)"
proof -
  assume n: "n \<le> length (text_of s)" and s: "terminated s"
  then have "drop n s = drop n (text_of s) @ drop (length (text_of s)) s"
    using terminated_split [OF s] by (metis append_eq_conv_conj drop_append diff_is_0_eq drop0)
  moreover obtain r where "s = text_of s @ 0 # r" using terminated_split [OF s] by blast
  then have "drop (length (text_of s)) s = 0 # r" by (metis append_eq_conv_conj)
  moreover have "0 \<notin> set (drop n (text_of s))" using text_of_nonzero by (metis in_set_dropD)
  ultimately show ?thesis by (simp add: text_of_append_zero)
qed

text \<open>The name and the text that \<open>write_common\<close> finds.\<close>

definition file_word :: "bytes \<Rightarrow> bytes" where
  "file_word t = take 31 (word_of t)"

definition file_text :: "bytes \<Rightarrow> bytes" where
  "file_text t = unspaced (drop (length (file_word t)) t)"

lemma write_words:
  assumes "arg_ok arg"
  obtains nm i rest nm' tx where "copy_word 0 arg (replicate FISH_NAME_MAX 0) = Some (nm, i, rest)" "aset nm i 0 = Some nm'"
    "arg_ok nm'" "text_of nm' = file_word (text_of arg)" "skip_spaces rest = Some tx" "arg_ok tx"
    "text_of tx = file_text (text_of arg)"
proof -
  let ?t = "file_word (text_of arg)" and ?nm = "replicate 32 0 :: bytes"
  have arg: "terminated arg" using assms by (rule arg_terminated)
  have l: "length ?t \<le> 31" "length ?t \<le> length (text_of arg)"
    using length_takeWhile_le [of "\<lambda>c. c \<noteq> 32" "text_of arg"] by (auto simp: file_word_def min_def intro: order_trans)
  have nz: "0 \<notin> set ?t" using text_of_nonzero [of arg] by (auto simp: file_word_def dest: in_set_takeD set_takeWhileD)
  have 1: "copy_word 0 arg (replicate FISH_NAME_MAX 0) = Some (?t @ drop (length ?t) ?nm, length ?t, drop (length ?t) arg)"
    using copy_word_eq [OF arg, of ?nm 0] by (simp add: file_word_def FISH_NAME_MAX_def Let_def)
  have 2: "aset (?t @ drop (length ?t) ?nm) (length ?t) 0 = Some (?t @ 0 # drop (Suc (length ?t)) ?nm)"
  proof -
    have "32 - length ?t = Suc (31 - length ?t)" using l(1) by arith
    then show ?thesis by (simp add: aset_def list_update_append)
  qed
  note d = terminated_drop [OF l(2) arg]
  note 3 = skip_spaces_eq [OF conjunct1 [OF d]]
  have "length (unspaced (drop (length ?t) arg)) \<le> 256"
    using assms length_dropWhile_le [of "\<lambda>c. c = 32" "drop (length ?t) arg"]
    by (simp add: arg_ok_def) arith
  with that [OF 1 2] 3 d nz l(1) show ?thesis
    by (simp add: arg_ok_def text_of_append_zero file_text_def)
qed

lemma write_common_does:
  assumes "machine b view" "arg_ok arg" "sound view w"
  shows "does view w (write_common b arg app w)"
  using assms(2)
proof (rule write_words)
  fix nm i rest nm' tx
  assume *: "copy_word 0 arg (replicate FISH_NAME_MAX 0) = Some (nm, i, rest)" "aset nm i 0 = Some nm'" "arg_ok nm'"
    "skip_spaces rest = Some tx" "arg_ok tx"
  have call: "\<exists>r fs. (if app then fish_append nm' tx else fish_write nm' tx) (w_fish w) = Some (r, fs) \<and> fish_ok fs"
    using named_total(5,6) [OF assms(3) *(3,5)] by simp
  show ?thesis unfolding write_common_def * bind.bind_lunit prod.case
    by (intro doing arg_terminated [OF assms(2)] call assms quiet_refl) (simp_all)
qed

lemma cat_loop_does:
  "machine b view \<Longrightarrow> i + n \<le> length data \<Longrightarrow> sound view w \<Longrightarrow> does view w (cat_loop b n i data w)"
  by (induction n arbitrary: i w) (auto intro!: doing quiet_refl simp: aget_def)

lemma cmd_cat_does:
  assumes "machine b view" "arg_ok arg" "sound view w"
  shows "does view w (cmd_cat b arg w)"
proof -
  obtain r where r: "fish_read arg (w_fish w) = Some r" "\<forall>k d. r = Some (k, d) \<longrightarrow> unat k \<le> length d"
    using fish_read_refines [OF soundD(5) [OF assms(3)] arg_terminated [OF assms(2)]] by blast
  have one: "does view w (do {
      w \<leftarrow> cat_loop b (unat len) 0 data w;
      if len > 0 then do { c \<leftarrow> aget data (unat (len - 1)); if c \<noteq> 10 then putc b 10 w else Some w } else Some w })"
    if "r = Some (len, data)" for len data
  proof -
    have len: "unat len \<le> length data" using r(2) that by blast
    moreover have "unat (len - 1) < length data" if "len > 0" using that len unat_dec [of len] by (simp add: word_less_nat_alt)
    then have "len > 0 \<Longrightarrow> \<exists>c. aget data (unat (len - 1)) = Some c" by (simp add: aget_def)
    ultimately show ?thesis
      by (auto intro!: does_bind does_putc [OF assms(1)] cat_loop_does [OF assms(1)] assms(3) does_Some quiet_refl)
  qed
  show ?thesis unfolding cmd_cat_def r(1) bind.bind_lunit
    by (intro doing arg_terminated assms) (auto simp: one split: prod.split)
qed

subsection \<open>Listing\<close>

text \<open>The listing is that of \<open>list_loop\<close>: printing an entry does not touch the filesystem.\<close>

fun ls_entries :: "'d bus \<Rightarrow> (bytes \<times> u32 \<times> u32) list \<Rightarrow> 'd world \<Rightarrow> 'd world option" where
  "ls_entries b [] w = Some w"
| "ls_entries b (e # es) w = do { w \<leftarrow> ls_entry b e w; ls_entries b es w }"

lemma on_console_fish: "on_console f w = Some w' \<Longrightarrow> w_fish w' = w_fish w"
  by (auto simp: on_console_def split: bind_split_asm)

lemma print_fish: "print b s w = Some w' \<Longrightarrow> w_fish w' = w_fish w"
  "putc b c w = Some w' \<Longrightarrow> w_fish w' = w_fish w"
  "print_number b n w = Some w' \<Longrightarrow> w_fish w' = w_fish w"
  by (auto simp: print_def putc_def print_number_def on_console_fish split: bind_split_asm)

lemma color_fish [simp]: "w_fish (color fg bg w) = w_fish w"
  by (simp add: color_def)

lemma ls_entry_fish: "ls_entry b e w = Some w' \<Longrightarrow> w_fish w' = w_fish w"
  by (cases e) (auto simp: ls_entry_def split: bind_split_asm if_splits dest!: print_fish)

lemma ls_loop_entries:
  "list_loop k h (w_fish w) = Some es \<Longrightarrow>
   ls_loop b h n w = map_option (Pair (n + int (length es))) (ls_entries b es w)"
proof (induction k arbitrary: h n w es)
  case (Suc k)
  from Suc.prems obtain h' out where nxt: "fish_next h (w_fish w) = Some (h', out)"
    by (auto split: bind_split_asm)
  show ?case
  proof (cases "h' = 0")
    case True
    with Suc.prems nxt show ?thesis by (subst ls_loop.simps) auto
  next
    case False
    with Suc.prems nxt obtain e es' where e: "out = Some e" "list_loop k h' (w_fish w) = Some es'" "es = e # es'"
      by (auto split: bind_split_asm)
    show ?thesis
    proof (cases "ls_entry b e w")
      case None
      with nxt False e show ?thesis by (subst ls_loop.simps) simp
    next
      case (Some w')
      with Suc.IH [of h' w' es' "n + 1"] e(2) ls_entry_fish [OF Some] nxt False e show ?thesis
        by (subst ls_loop.simps) (simp add: ac_simps)
    qed
  qed
qed simp

lemma ls_entry_does:
  "machine b view \<Longrightarrow> terminated (fst e) \<Longrightarrow> sound view w \<Longrightarrow> does view w (ls_entry b e w)"
  by (cases e) (auto simp: ls_entry_def intro!: doing quiet_refl)

lemma ls_entries_do:
  "machine b view \<Longrightarrow> list_all (\<lambda>e. terminated (fst e)) es \<Longrightarrow> sound view w \<Longrightarrow> does view w (ls_entries b es w)"
  by (induction es arbitrary: w) (auto intro!: does_bind ls_entry_does doing quiet_refl)

lemma listing_terminated: "lists fs es \<Longrightarrow> list_all (\<lambda>e. terminated (fst e)) es"
  by (auto simp: lists_def list_all_iff)

lemma cmd_ls_eq:
  assumes "list_loop 65 fish_first (w_fish w) = Some es"
  shows "cmd_ls b w = do {
     w \<leftarrow> ls_entries b es w;
     let w = color VGA_LIGHT_GREY VGA_BLACK w;
     if es = [] then print b (literal ''Directory is empty.\<newline>'') w else Some w }"
  unfolding cmd_ls_def ls_loop_entries [OF assms]
  by (cases "ls_entries b es w") simp_all

lemma cmd_ls_does:
  assumes "machine b view" "sound view w"
  shows "does view w (cmd_ls b w)"
proof -
  obtain es where es: "list_loop 65 fish_first (w_fish w) = Some es" "lists (w_fish w) es"
    using fish_listing [OF soundD(5) [OF assms(2)]] by blast
  show ?thesis unfolding cmd_ls_eq [OF es(1)] Let_def
    by (intro doing ls_entries_do listing_terminated [OF es(2)] assms)
qed

subsection \<open>The disk\<close>

lemma disk_good: "machine b view \<Longrightarrow> sound view w \<Longrightarrow> w_present w \<noteq> 0 \<Longrightarrow> ata_good b view (disk w)"
  by (auto simp: ata_good_def disk_def machine_def dest: soundD(7))

lemma with_disk_absent [simp]: "with_disk (disk w) w = w"
  by (simp add: with_disk_def disk_def)

lemma overlay_image: "holds_image (overlay S 2048 (fish_image fs)) fs"
  by (simp add: holds_image_def overlay_at)

text \<open>Saving a filesystem \<open>fs\<close> in a sound state.\<close>

lemma save_does:
  assumes m: "machine b view" and w: "sound view w" and fs: "fish_ok fs"
    and rest: "\<And>r w'. quiet view w w' \<Longrightarrow> sound view w' \<Longrightarrow> does view w' (g r w')"
  shows "does view w (do { (r, a) \<leftarrow> fish_save b fs (disk w); g r (with_disk a (w\<lparr>w_fish := fs\<rparr>)) })"
proof (cases "w_present w = 0")
  case True
  then have "fish_save b fs (disk w) = Some (FISH_ERR_NODISK, disk w)"
    by (simp add: fish_save_def ata_present_def disk_def)
  moreover have "with_disk (disk w) (w\<lparr>w_fish := fs\<rparr>) = w\<lparr>w_fish := fs\<rparr>" by (simp add: with_disk_def disk_def)
  moreover note q = quiet_fish [OF w fs]
  ultimately show ?thesis using does_step [OF q rest [OF q]] by (simp add: quiet_def)
next
  case False
  from fish_save_total [OF disk_good [OF m w False] fish_ok_shape [OF fs]] soundD(8) [OF w False] obtain a where
    a: "fish_save b fs (disk w) = Some (FISH_OK, a)" "ata_good b view a" "faulty (view (dev a)) = faulty (view (w_dev w))"
    "sector_bytes (view (dev a)) = overlay (sector_bytes (view (w_dev w))) 2048 (fish_image fs)"
    by (auto simp: disk_sound_def disk_def)
  have "disk_sound (view (dev a))"
    using soundD(8) [OF w False] a(3,4) overlay_image fs by (auto simp: disk_sound_def)
  then have q: "quiet view w (with_disk a (w\<lparr>w_fish := fs\<rparr>))"
    using w a(2) fs by (simp add: quiet_def sound_def world_ok_def with_disk_def ata_good_def)
  from does_step [OF q rest [OF q]] a(1) q show ?thesis by (simp add: quiet_def)
qed

lemma cmd_save_does:
  assumes "machine b view" "sound view w"
  shows "does view w (cmd_save b w)"
proof -
  have id: "w\<lparr>w_fish := w_fish w\<rparr> = w" for w :: "'a world" by simp
  have "does view w (do { (r, a) \<leftarrow> fish_save b (w_fish w) (disk w); let w = with_disk a w in
      if r < 0 then fish_fail b (literal ''save'') r w
      else print b (literal ''Filesystem written to disk.\<newline>'') w })" if "sound view w" for w
    using save_does [OF assms(1) that soundD(5) [OF that], of "\<lambda>r w.
      if r < 0 then fish_fail b (literal ''save'') r w else print b (literal ''Filesystem written to disk.\<newline>'') w"]
    unfolding id by (simp add: Let_def doing assms(1))
  then show ?thesis unfolding cmd_save_def by (intro doing assms) simp
qed

lemma cmd_format_does:
  assumes "machine b view" "sound view w"
  shows "does view w (cmd_format b w)"
proof -
  obtain fs where fs: "fish_init (w_fish w) = Some fs" "fish_ok fs" using fish_init_empty by blast
  show ?thesis
    using save_does [OF assms fs(2), of "\<lambda>r w.
      if r < 0 then fish_fail b (literal ''format'') r w else print b (literal ''Filesystem erased and written to disk.\<newline>'') w"]
    by (simp add: cmd_format_def fs(1) Let_def doing assms(1))
qed

lemma disk_sound_media: "same_media h h' \<Longrightarrow> disk_sound h' = disk_sound h"
  by (simp add: disk_sound_def same_media_bytes) (simp add: same_media_def)

text \<open>Loading from a sound disk gives the filesystem it holds, or nothing.\<close>

lemma fish_load_disk:
  assumes a: "ata_good b view a" and fs: "fish_shape fs" and stack: "length stack = 512" and h: "disk_sound (view (dev a))"
  defines "S \<equiv> sector_bytes (view (dev a))"
  shows "\<exists>r fs' a'. fish_load b stack fs a = Some (r, fs', a') \<and> ata_good b view a' \<and> same_media (view (dev a)) (view (dev a')) \<and>
    (if superblock_ok (S 2048) then r = FISH_OK \<and> fish_ok fs' \<and> (\<forall>g. fish_ok g \<longrightarrow> holds_image S g \<longrightarrow> fs' = g)
     else r = FISH_ERR_FORMAT \<and> fs' = fs)"
proof -
  have fine: "\<forall>i < 71. \<not> faulty (view (dev a)) (2048 + i)" using h by (simp add: disk_sound_def)
  have image: "\<exists>a'. fish_load b stack fs a = Some (FISH_OK, g, a') \<and> ata_good b view a' \<and>
      same_media (view (dev a)) (view (dev a'))" if g: "fish_ok g" "holds_image S g" for g
  proof -
    from g have "dir_index (nodes g) 0" "dir_index (nodes g) (current g)"
      using nodes_root [OF fish_nodes [OF g(1)]] fish_current_used [OF g(1)]
        fish_current_dir [OF g(1)] fish_current [OF g(1)]
      by (simp_all add: dir_index_def used_at_def)
    with fish_load_image [OF a fs stack, of g] g fish_ok_shape [OF g(1)] fine show ?thesis
      unfolding S_def by (cases g) auto
  qed
  show ?thesis
  proof (cases "superblock_ok (S 2048)")
    case True
    then obtain g where g: "fish_ok g" "holds_image S g" using h by (auto simp: disk_sound_def S_def)
    from image [OF g] obtain a' where a': "fish_load b stack fs a = Some (FISH_OK, g, a')" "ata_good b view a'"
      "same_media (view (dev a)) (view (dev a'))" by blast
    moreover have "\<forall>g'. fish_ok g' \<longrightarrow> holds_image S g' \<longrightarrow> g = g'" using image a'(1) by fastforce
    ultimately show ?thesis using True g(1) by simp
  next
    case False
    with fish_load_cases [OF a fs stack] fine [rule_format, of 0] show ?thesis unfolding S_def by auto
  qed
qed

lemma cmd_load_does:
  assumes m: "machine b view" and w: "sound view w" and stack: "length stack = 512"
  shows "does view w (cmd_load b stack w)"
proof -
  have "\<exists>r fs a. fish_load b stack (w_fish w) (disk w) = Some (r, fs, a) \<and> quiet view w (with_disk a (w\<lparr>w_fish := fs\<rparr>))"
  proof (cases "w_present w = 0")
    case True
    then have "fish_load b stack (w_fish w) (disk w) = Some (FISH_ERR_NODISK, w_fish w, disk w)"
      by (simp add: fish_load_def ata_present_def disk_def)
    then show ?thesis using quiet_refl [OF w] by simp
  next
    case False
    have dev: "dev (disk w) = w_dev w" by (simp add: disk_def)
    from fish_load_disk [OF disk_good [OF m w False] fish_ok_shape [OF soundD(5) [OF w]] stack] soundD(5) [OF w] soundD(8) [OF w False]
    obtain r fs a where l: "fish_load b stack (w_fish w) (disk w) = Some (r, fs, a)" "fish_ok fs" "ata_good b view a"
      "same_media (view (w_dev w)) (view (dev a))" unfolding dev by (auto split: if_splits)
    then have "disk_sound (view (dev a))" using disk_sound_media [OF l(4)] soundD(8) [OF w False] by simp
    then have "quiet view w (with_disk a (w\<lparr>w_fish := fs\<rparr>))"
      using w l(2,3) by (simp add: quiet_def sound_def world_ok_def with_disk_def ata_good_def)
    with l(1) show ?thesis by blast
  qed
  then obtain r fs a where l: "fish_load b stack (w_fish w) (disk w) = Some (r, fs, a)"
    "quiet view w (with_disk a (w\<lparr>w_fish := fs\<rparr>))" by blast
  from does_step [OF l(2)] l m show ?thesis by (simp add: cmd_load_def Let_def doing quiet_def)
qed

subsection \<open>Interrupts\<close>

text \<open>Interrupts change the counter and the keyboard, and leave the drive as it was.\<close>

definition input_only :: "('d \<Rightarrow> drive) \<Rightarrow> 'd world \<Rightarrow> 'd world \<Rightarrow> bool" where
  "input_only view w w' \<longleftrightarrow> w' = w\<lparr>w_ticks := w_ticks w', w_kbd := w_kbd w', w_dev := w_dev w'\<rparr> \<and>
     keyboard_ok (w_kbd w') \<and> view (w_dev w') = view (w_dev w)"

lemma input_onlyD:
  "input_only view w w' \<Longrightarrow> sound view w \<Longrightarrow> sound view w' \<and> w_halts w' = w_halts w \<and> w_line w' = w_line w \<and>
     w_fish w' = w_fish w \<and> w_user w' = w_user w \<and> w_vga w' = w_vga w \<and> w_slots w' = w_slots w"
  by (cases w; cases w') (simp add: input_only_def sound_def world_ok_def)

lemma input_only_trans: "input_only view w w1 \<Longrightarrow> input_only view w1 w2 \<Longrightarrow> input_only view w w2"
  by (cases w; cases w1; cases w2) (simp add: input_only_def)

lemma end_of_irq_quiet: "machine b view \<Longrightarrow> view (end_of_irq b n d) = view d"
  by (simp add: end_of_irq_def machine_quiet quiet_ports)

lemma handler_call_total:
  assumes "machine b view" "keyboard_ok k"
  shows "\<exists>t' k' d'. handler_call b h regs ((t, k), d) = Some ((t', k'), d') \<and> keyboard_ok k' \<and> view d' = view d"
proof (cases h)
  case Keyboard_callback
  obtain sc d1 where r: "inb b KBD_DATA d = (sc, d1)" by fastforce
  then have v: "view d1 = view d" using machine_quiet(2) [OF assms(1) quiet_ports(3), of d] by simp
  obtain k1 where "scancode_event sc k = Some k1" "keyboard_ok k1"
    using scancode_event_correct [OF assms(2)] by blast
  with Keyboard_callback r v show ?thesis by (simp add: keyboard_callback_def)
qed (use assms in simp)

definition input_ready :: "'d world \<Rightarrow> bool" where
  "input_ready w \<longleftrightarrow> keyboard_ok (w_kbd w) \<and> length (w_slots w) = 16"

lemma sound_input_ready: "sound view w \<Longrightarrow> input_ready w"
  by (simp add: input_ready_def soundD)

lemma input_only_ready: "input_only view w w' \<Longrightarrow> input_ready w \<Longrightarrow> input_ready w' \<and> w_slots w' = w_slots w"
  by (cases w; cases w') (simp add: input_only_def input_ready_def)

lemma interrupt_total:
  assumes m: "machine b view" and w: "input_ready w" and i: "hardware_irq regs"
  shows "\<exists>w'. interrupt b regs w = Some w' \<and> input_only view w w'"
proof -
  from i obtain n where n: "n < 16" "int_no regs = 32 + of_nat n" by (auto simp: hardware_irq_def)
  let ?st = "((w_ticks w, w_kbd w), w_dev w)"
  have k: "keyboard_ok (w_kbd w)" "length (w_slots w) = 16" using w by (simp_all add: input_ready_def)
  obtain t k d where "(case w_slots w ! n of None \<Rightarrow> Some ?st | Some h \<Rightarrow> handler_call b h regs ?st) = Some ((t, k), d)"
    "keyboard_ok k" "view d = view (w_dev w)"
    using handler_call_total [OF m k(1)] k(1) by (cases "w_slots w ! n") fastforce+
  moreover from this(1) have "irq_handler b (handler_call b) (w_slots w) regs ?st = Some ((t, k), end_of_irq b n d)"
    unfolding irq_handler_eq [OF k(2) n] by simp
  ultimately show ?thesis using end_of_irq_quiet [OF m, of n d]
    by (simp add: interrupt_def input_only_def)
qed

lemma interrupts_total:
  assumes m: "machine b view"
  shows "input_ready w \<Longrightarrow> list_all hardware_irq rs \<Longrightarrow> \<exists>w'. interrupts b rs w = Some w' \<and> input_only view w w'"
proof (induction rs arbitrary: w)
  case Nil
  then show ?case by (cases w) (simp add: input_only_def input_ready_def)
next
  case (Cons r rs)
  from interrupt_total [OF m Cons.prems(1), of r] Cons.prems(2) obtain w1 where
    w1: "interrupt b r w = Some w1" "input_only view w w1" by auto
  with Cons.IH [of w1] Cons.prems input_only_ready [OF w1(2)] input_only_trans [OF w1(2)] show ?case by auto
qed

subsection \<open>Waiting\<close>

fun final :: "'w outcome \<Rightarrow> 'w" where
  "final (Returned w) = w"
| "final (Halted w) = w"
| "final (Waiting w) = w"

text \<open>Time passes, or nothing was received.\<close>

definition later :: "'d world \<Rightarrow> 'd world \<Rightarrow> bool" where
  "later w w' \<longleftrightarrow> length (w_halts w') < length (w_halts w) \<or> w_halts w' = w_halts w \<and> w_kbd w' = w_kbd w"

definition settles :: "('d \<Rightarrow> drive) \<Rightarrow> 'd world \<Rightarrow> 'd world outcome option \<Rightarrow> bool" where
  "settles view w x \<longleftrightarrow> gives x (\<lambda>r. sound view (final r) \<and> later w (final r))"

lemma later_refl: "later w w"
  by (simp add: later_def)

lemma later_trans: "later w w1 \<Longrightarrow> later w1 w2 \<Longrightarrow> later w w2"
  by (auto simp: later_def)

lemma does_settles: "does view w x \<Longrightarrow> settles view w (map_option Returned x)"
  by (auto simp: does_def settles_def gives_def quiet_def later_def)

lemma settles_later: "later w w1 \<Longrightarrow> settles view w1 x \<Longrightarrow> settles view w x"
  by (auto simp: settles_def elim!: gives_mono intro: later_trans)

lemma sleep_halts_settles:
  assumes m: "machine b view"
  shows "sound view w \<Longrightarrow> w_halts w = halts \<Longrightarrow> settles view w (sleep_halts b target halts w)"
proof (induction halts arbitrary: w)
  case Nil
  then show ?case by (auto simp: settles_def later_def)
next
  case (Cons rs halts)
  let ?w = "w\<lparr>w_halts := halts\<rparr>"
  have w: "sound view ?w" "list_all hardware_irq rs"
    using Cons.prems soundD(9) [OF Cons.prems(1)] by (simp_all add: sound_def world_ok_def)
  from interrupts_total [OF m sound_input_ready [OF w(1)] w(2)] obtain w1 where w1: "interrupts b rs ?w = Some w1" "input_only view ?w w1" by blast
  note after = input_onlyD [OF w1(2) w(1)]
  have "later w w1" using after Cons.prems by (simp add: later_def)
  moreover have "settles view w1 (sleep_halts b target halts w1)" using Cons.IH after by simp
  ultimately show ?case using Cons.prems w1(1) by (auto simp: settles_later) (simp add: settles_def later_refl)
qed

lemma cmd_sleep_settles:
  assumes "machine b view" "arg_ok arg" "sound view w"
  shows "settles view w (cmd_sleep b arg w)"
proof -
  have say: "settles view w (map_option Returned (print b (literal s) w))" for s
    by (intro does_settles doing assms)
  obtain r where "parse_unsigned 0 arg = Some r" using parse_unsigned_total arg_terminated [OF assms(2)] by blast
  moreover obtain c where "aget arg 0 = Some c" using terminated_aget [OF arg_terminated [OF assms(2)]] by blast
  ultimately show ?thesis using say sleep_halts_settles [OF assms(1,3) refl]
    by (simp add: cmd_sleep_def sleep_ms_def Let_def split: option.split)
qed

subsection \<open>Stopping\<close>

text \<open>The keyboard controller takes every command in the end; otherwise \<open>reboot\<close> waits for ever.\<close>

definition accepts_commands :: "'d bus \<Rightarrow> bool" where
  "accepts_commands b \<longleftrightarrow> (\<forall>d. wait_input_empty b d \<noteq> None)"

lemma wait_input_view:
  assumes "wait_input_empty b d = Some d'" "machine b view"
  shows "view d' = view d"
proof -
  have "machine b view \<longrightarrow> view d' = view d"
  proof (rule wait_input_empty.raw_induct [where P = "\<lambda>b d d'. machine b view \<longrightarrow> view d' = view d", OF _ assms(1)], intro impI)
    fix f :: "'a bus \<Rightarrow> 'a \<Rightarrow> 'a option" and b d d'
    assume IH: "\<And>b d d'. f b d = Some d' \<Longrightarrow> machine b view \<longrightarrow> view d' = view d" and m: "machine b view"
      and f: "(let (st, d) = inb b 0x64 d in if st AND 0x02 \<noteq> 0 then f b d else Some d) = Some d'"
    obtain st d1 where r: "inb b 0x64 d = (st, d1)" by fastforce
    have "view d1 = view d" using machine_quiet(2) [OF m quiet_ports(4), of d] r by (simp add: KBD_STATUS_def)
    with IH [of b d1 d'] m f r show "view d' = view d" by (auto split: if_splits)
  qed
  with assms(2) show ?thesis by blast
qed

lemma cmd_stop_settles:
  assumes "machine b view" "sound view w"
  shows "settles view w (cmd_halt b w)" and "accepts_commands b \<Longrightarrow> settles view w (cmd_reboot b w)"
proof -
  have say: "gives (print b (literal s) w) (quiet view w)" for s
    using does_print [OF assms(1) literal_terminated assms(2)] by (simp add: does_def)
  obtain w0 where "print b (literal ''System halted. You can close the system.\<newline>'') w = Some w0" "quiet view w w0"
    using say by (auto simp: gives_def)
  then show "settles view w (cmd_halt b w)" by (simp add: cmd_halt_def settles_def quiet_def later_def)
  assume b: "accepts_commands b"
  obtain w1 where w1: "print b (literal ''Rebooting...\<newline>'') w = Some w1" "quiet view w w1"
    using say by (auto simp: gives_def)
  obtain d where d: "wait_input_empty b (w_dev w1) = Some d" using b by (auto simp: accepts_commands_def)
  have "view (outb b 0x64 0xFE d) = view (w_dev w1)"
    using wait_input_view [OF d assms(1)] machine_quiet(1) [OF assms(1) quiet_ports(4)] by (simp add: KBD_STATUS_def)
  moreover have "sound view w1" using w1(2) by (simp add: quiet_def)
  ultimately have "sound view (w1\<lparr>w_dev := outb b 0x64 0xFE d\<rparr>)"
    by (simp add: sound_def world_ok_def)
  with w1 d show "settles view w (cmd_reboot b w)"
    by (simp add: cmd_reboot_def settles_def quiet_def later_def)
qed

subsection \<open>Every command\<close>

text \<open>The value of a numeral.\<close>

definition decimal :: "nat \<Rightarrow> bytes \<Rightarrow> nat" where
  "decimal n ds = foldl (\<lambda>n c. n * 10 + (unat c - 48)) n ds"

lemma decimal_simps [simp]: "decimal n [] = n" "decimal n (c # s) = decimal (n * 10 + (unat c - 48)) s"
  by (simp_all add: decimal_def)

lemma decimal_mono: "n \<le> decimal n s"
proof (induction s arbitrary: n)
  case (Cons c s)
  have "n \<le> n * 10 + (unat c - 48)" by simp
  also have "\<dots> \<le> decimal (n * 10 + (unat c - 48)) s" by (rule Cons.IH)
  finally show ?case by simp
qed simp

lemma digit_value:
  assumes "is_digit c"
  shows "ucast (c - 48) = (of_nat (unat c - 48) :: u32) \<and> sint c - 48 = int (unat c - 48)"
proof -
  have c: "c = word_of_int (sint c)" by simp
  have "sint c \<in> {48, 49, 50, 51, 52, 53, 54, 55, 56, 57}" using assms unfolding is_digit_def by simp presburger
  then have "c \<in> word_of_int ` {48, 49, 50, 51, 52, 53, 54, 55, 56, 57}" by (subst c) (rule imageI)
  then show ?thesis by auto
qed

lemma digit_nonzero: "is_digit c \<Longrightarrow> c \<noteq> 0"
  by (auto simp: is_digit_def)

text \<open>
  The only undefined behaviour: the number that the argument of \<open>color\<close> starts with does not fit an \<open>int\<close>.
\<close>

definition color_overflow :: "command_fn \<Rightarrow> bytes \<Rightarrow> bool" where
  "color_overflow f arg \<longleftrightarrow> f = Cmd_color \<and> 2 ^ 31 \<le> decimal 0 (takeWhile is_digit (text_of arg))"

lemma parse_int_overflow:
  "terminated s \<Longrightarrow> n < 2 ^ 31 \<Longrightarrow> parse_int (int n) s = None \<longleftrightarrow> 2 ^ 31 \<le> decimal n (takeWhile is_digit (text_of s))"
proof (induction s arbitrary: n)
  case (Cons c s)
  show ?case
  proof (cases "c \<noteq> 0 \<and> is_digit c")
    case True
    let ?n = "n * 10 + (unat c - 48)"
    have v: "int n * 10 + (sint c - 48) = int ?n" using digit_value [of c] True by simp
    show ?thesis
    proof (cases "?n < 2 ^ 31")
      case fits: True
      with Cons.IH [of ?n] Cons.prems True v show ?thesis by simp
    next
      case False
      with decimal_mono [of ?n "takeWhile is_digit (text_of s)"] True v show ?thesis by simp
    qed
  qed (use Cons.prems in auto)
qed simp

lemma color_overflow_parse: "terminated arg \<Longrightarrow> color_overflow f arg \<longleftrightarrow> f = Cmd_color \<and> parse_int 0 arg = None"
  using parse_int_overflow [of arg 0] by (simp add: color_overflow_def)

lemma color_overflow_undefined:
  assumes "terminated arg" "color_overflow f arg"
  shows "run_command b stack f arg w = None"
proof -
  have "text_of arg \<noteq> []" using assms(2) by (auto simp: color_overflow_def)
  moreover obtain c where "aget arg 0 = Some c" "c = 0 \<longleftrightarrow> text_of arg = []" using terminated_aget [OF assms(1)] by blast
  ultimately show ?thesis using color_overflow_parse [OF assms(1), of f] assms(2) by (auto simp: cmd_color_def)
qed

lemma run_command_settles:
  assumes "machine b view" "accepts_commands b" "length stack = 512" "sound view w" "arg_ok arg" "\<not> color_overflow f arg"
  shows "settles view w (run_command b stack f arg w)"
proof (cases "f \<in> {Cmd_sleep, Cmd_reboot, Cmd_halt}")
  case True
  then show ?thesis using cmd_sleep_settles [OF assms(1,5,4)] cmd_stop_settles [OF assms(1,4)] assms(2) by auto
next
  case False
  note rules = cmd_help_does cmd_neofetch_does vga_clear_does cmd_echo_does [OF _ arg_terminated] cmd_about_does cmd_ls_does
    cmd_cd_does cmd_pwd_does make_commands_do cmd_cat_does write_common_does cmd_save_does cmd_load_does cmd_format_does
    cmd_disk_does cmd_whoami_does cmd_user_does cmd_hostname_does cmd_uptime_does cmd_ticks_does
  show ?thesis
  proof (cases "f = Cmd_color")
    case True
    with assms(6) color_overflow_parse [OF arg_terminated [OF assms(5)]] obtain n where "parse_int 0 arg = Some n" by auto
    with True cmd_color_does [OF assms(1,5,4)] show ?thesis by (simp add: does_settles)
  next
    case other: False
    with False show ?thesis
      by (cases f) (simp_all add: does_settles cmd_write_def cmd_append_def rules assms)
  qed
qed

end
