(* ===== verification/Shell_Loop.thy ===== *)
theory Shell_Loop
  imports Shell_Safe
begin

text \<open>
  Reading a line, splitting it and running the command: what the loop of the shell does, and that it
  never ends except by \<open>halt\<close> and \<open>reboot\<close>, or in a sleep or at the keyboard when no more interrupts come.
\<close>

subsection \<open>Splitting a line\<close>

lemma word_end_eq: "terminated s \<Longrightarrow> word_end i s = Some (i + length (word_of (text_of s)))"
  by (induction s arbitrary: i) auto

lemma nth_text_of: "n < length (text_of s) \<Longrightarrow> s ! n = text_of s ! n"
  by (simp add: text_of_def takeWhile_nth)

lemma nth_text_end: "terminated s \<Longrightarrow> s ! length (text_of s) = 0"
  by (metis terminated_split nth_append_length)

lemma word_of_end: "length (word_of t) < length t \<Longrightarrow> t ! length (word_of t) = 32"
  using nth_length_takeWhile [of "\<lambda>c. c \<noteq> 32" t] by simp

text \<open>The command, cut off by a zero, and the argument.\<close>

lemma split_line_eq:
  assumes s: "terminated s"
  obtains s' arg where "split_line s = Some (s', arg)" "length s' = length s" "terminated s'" "text_of s' = word_of (text_of s)"
    "terminated arg" "length arg \<le> length s" "text_of arg = unspaced (drop (length (word_of (text_of s))) (text_of s))"
proof -
  let ?t = "text_of s" and ?n = "length (word_of (text_of s))"
  have n: "?n \<le> length ?t" by (rule length_takeWhile_le)
  have lt: "?n < length s" using n text_of_less [OF s] by simp
  have we: "word_end 0 s = Some ?n" using word_end_eq [OF s, of 0] by simp
  show ?thesis
  proof (cases "?n = length ?t")
    case True
    then have w: "word_of ?t = ?t" by (metis takeWhile_eq_take take_all order_refl)
    have "aget s ?n = Some 0" using lt nth_text_end [OF s] True by (simp add: aget_def)
    then have "split_line s = Some (s, drop ?n s)" using we by (simp add: split_line_def)
    then show ?thesis by (rule that) (use s w terminated_drop [OF n s] True in \<open>simp_all only: length_drop diff_le_self drop_all order_refl dropWhile.simps simp_thms\<close>)
  next
    case False
    then have l: "?n < length ?t" using n by simp
    have c: "s ! ?n = 32" using nth_text_of [OF l] word_of_end [OF l] by simp
    let ?s = "s[?n := 0]"
    have "drop (Suc ?n) ?s = drop (Suc ?n) s" by simp
    moreover have d: "terminated (drop (Suc ?n) s) \<and> text_of (drop (Suc ?n) s) = drop (Suc ?n) ?t"
      using terminated_drop [OF _ s, of "Suc ?n"] l by simp
    ultimately have "split_line s = Some (?s, unspaced (drop (Suc ?n) s))"
      using we lt c skip_spaces_eq [of "drop (Suc ?n) s"] by (simp add: split_line_def aget_def aset_def)
    moreover have "take ?n s = word_of ?t"
    proof -
      obtain r where r: "s = ?t @ 0 # r" using terminated_split [OF s] by blast
      have "take ?n s = take ?n (?t @ 0 # r)" by (rule arg_cong [OF r])
      also have "\<dots> = take ?n ?t" using n by simp
      also have "\<dots> = word_of ?t" by (rule takeWhile_eq_take [symmetric])
      finally show ?thesis .
    qed
    then have "?s = word_of ?t @ 0 # drop (Suc ?n) s" using lt by (simp add: upd_conv_take_nth_drop)
    then have "text_of ?s = word_of ?t \<and> terminated ?s"
      using text_of_nonzero [of s] by (metis text_of_append_zero set_takeWhileD terminated_append terminated_simps(2))
    moreover have "unspaced (drop ?n ?t) = unspaced (drop (Suc ?n) ?t)"
      using nth_drop_Cons [OF l] word_of_end [OF l] by simp
    moreover have "length (unspaced (drop (Suc ?n) s)) \<le> length s"
      using length_dropWhile_le [of "\<lambda>c. c = 32" "drop (Suc ?n) s"] by simp
    ultimately show ?thesis using that [of ?s "unspaced (drop (Suc ?n) s)"] skip_spaces_eq [of "drop (Suc ?n) s"] d
      by simp
  qed
qed

lemma find_command_eq:
  "terminated s \<Longrightarrow> list_all (\<lambda>r. terminated (c_name r)) rs \<Longrightarrow>
   find_command s rs = Some (find (\<lambda>r. text_of (c_name r) = text_of s) rs)"
  by (induction rs) (auto simp: str_eq_terminated)

lemma names_terminated: "list_all (\<lambda>r. terminated (c_name r)) commands"
  using commands_terminated by (auto simp: list_all_iff)

text \<open>What \<open>execute\<close> does with a line.\<close>

definition line_words :: "bytes \<Rightarrow> bytes \<times> bytes" where
  "line_words t = (let t = unspaced t; x = word_of t in (x, unspaced (drop (length x) t)))"

definition command_of :: "bytes \<Rightarrow> command_row option" where
  "command_of x = find (\<lambda>r. text_of (c_name r) = x) commands"

text \<open>The table enumerates the functions of the shell: none is missing and none is there twice.\<close>

instantiation command_fn :: enum
begin

definition enum_command_fn :: "command_fn list" where
  "enum_command_fn = map c_run commands"

definition enum_all_command_fn :: "(command_fn \<Rightarrow> bool) \<Rightarrow> bool" where
  "enum_all_command_fn P \<longleftrightarrow> list_all (\<lambda>r. P (c_run r)) commands"

definition enum_ex_command_fn :: "(command_fn \<Rightarrow> bool) \<Rightarrow> bool" where
  "enum_ex_command_fn P \<longleftrightarrow> list_ex (\<lambda>r. P (c_run r)) commands"

instance
proof
  have runs: "map c_run commands = [Cmd_help, Cmd_neofetch, Cmd_clear, Cmd_echo, Cmd_about, Cmd_ls, Cmd_cd, Cmd_pwd, Cmd_mkdir,
      Cmd_touch, Cmd_cat, Cmd_write, Cmd_append, Cmd_rm, Cmd_save, Cmd_load, Cmd_format, Cmd_disk, Cmd_color, Cmd_whoami, Cmd_user,
      Cmd_hostname, Cmd_uptime, Cmd_ticks, Cmd_sleep, Cmd_reboot, Cmd_halt]"
    by (simp add: commands_def row_def)
  have "f \<in> set (map c_run commands)" for f
    unfolding runs by (cases f) simp_all
  then have all: "UNIV = c_run ` set commands" by auto
  then show "UNIV = set (enum_class.enum :: command_fn list)" by (simp add: enum_command_fn_def)
  show "distinct (enum_class.enum :: command_fn list)" unfolding enum_command_fn_def runs by simp
  show "enum_class.enum_all P = Ball UNIV P" for P :: "command_fn \<Rightarrow> bool"
    unfolding enum_all_command_fn_def list_all_iff unfolding all by auto
  show "enum_class.enum_ex P = Bex UNIV P" for P :: "command_fn \<Rightarrow> bool"
    unfolding enum_ex_command_fn_def list_ex_iff unfolding all by auto
qed

end

lemma execute_eq:
  assumes s: "terminated (w_line w)" and x: "line_words (text_of (w_line w)) = (x, y)"
  shows "x = [] \<Longrightarrow> execute b stack w = Some (Returned w)"
    and "x \<noteq> [] \<Longrightarrow> \<exists>line s arg. length line = length (w_line w) \<and> terminated s \<and> text_of s = x \<and> terminated arg \<and>
       length arg \<le> length (w_line w) \<and> text_of arg = y \<and>
       execute b stack w = (let w = w\<lparr>w_line := line\<rparr> in case command_of x of
           Some r \<Rightarrow> run_command b stack (c_run r) arg w
         | None \<Rightarrow> do { w \<leftarrow> print b s w; w \<leftarrow> print b (literal '': command not found. Type help.\<newline>'') w; Some (Returned w) })"
proof -
  let ?s = "unspaced (w_line w)"
  note u = skip_spaces_eq [OF s]
  obtain c where c: "aget ?s 0 = Some c" "c = 0 \<longleftrightarrow> text_of ?s = []" using terminated_aget [of ?s] u by blast
  have "unspaced t = [] \<longleftrightarrow> word_of (unspaced t) = []" for t :: bytes
  proof (cases "unspaced t")
    case Nil
    then show ?thesis unfolding Nil by simp
  next
    case (Cons c u)
    then show ?thesis using hd_dropWhile [of "\<lambda>c. c = 32" t] unfolding Cons by simp
  qed
  then have nil: "x = [] \<longleftrightarrow> text_of ?s = []" using x u by (auto simp: line_words_def Let_def)
  show "x = [] \<Longrightarrow> execute b stack w = Some (Returned w)" using nil u c by (simp add: execute_def)
  assume "x \<noteq> []"
  then have ne: "c \<noteq> 0" using nil c by simp
  from u have "terminated ?s" by blast
  then obtain s arg where sp: "split_line ?s = Some (s, arg)" "length s = length ?s" "terminated s" "text_of s = word_of (text_of ?s)"
    "terminated arg" "length arg \<le> length ?s" "text_of arg = unspaced (drop (length (word_of (text_of ?s))) (text_of ?s))"
    by (rule split_line_eq)
  let ?line = "take (length (w_line w) - length s) (w_line w) @ s"
  have l: "length ?s \<le> length (w_line w)" by (rule length_dropWhile_le)
  have xy: "x = text_of s" "y = text_of arg" using x sp(4,7) u by (auto simp: line_words_def Let_def)
  have "execute b stack w = (let w = w\<lparr>w_line := ?line\<rparr> in case command_of x of
           Some r \<Rightarrow> run_command b stack (c_run r) arg w
         | None \<Rightarrow> do { w \<leftarrow> print b s w; w \<leftarrow> print b (literal '': command not found. Type help.\<newline>'') w; Some (Returned w) })"
    using u c ne sp(1) find_command_eq [OF sp(3) names_terminated] by (simp add: execute_def command_of_def xy)
  with sp l xy show "\<exists>line s arg. length line = length (w_line w) \<and> terminated s \<and> text_of s = x \<and> terminated arg \<and>
       length arg \<le> length (w_line w) \<and> text_of arg = y \<and>
       execute b stack w = (let w = w\<lparr>w_line := line\<rparr> in case command_of x of
           Some r \<Rightarrow> run_command b stack (c_run r) arg w
         | None \<Rightarrow> do { w \<leftarrow> print b s w; w \<leftarrow> print b (literal '': command not found. Type help.\<newline>'') w; Some (Returned w) })"
    by (intro exI [of _ ?line] exI [of _ s] exI [of _ arg]) simp
qed

subsection \<open>Editing a line\<close>

text \<open>
  The reference: a text, and what each key makes of it. Backspace takes the last character off, keys
  without a character are ignored, and so is anything beyond 255 characters.
\<close>

definition edit :: "bytes \<Rightarrow> int \<Rightarrow> bytes" where
  "edit t key = (if key = 8 then butlast t else if key > 255 \<or> key < 32 then t
     else if length t \<ge> 255 then t else t @ [word_of_int key])"

definition echo :: "bytes \<Rightarrow> int \<Rightarrow> bytes" where
  "echo t key = (if key = 8 then (if t = [] then [] else [8]) else if key > 255 \<or> key < 32 then []
     else if length t \<ge> 255 then [] else [word_of_int key])"

fun echoes :: "bytes \<Rightarrow> int list \<Rightarrow> bytes" where
  "echoes t [] = []"
| "echoes t (key # keys) = echo t key @ echoes (edit t key) keys"

lemma length_edit: "length t \<le> 255 \<Longrightarrow> length (edit t key) \<le> 255"
  by (auto simp: edit_def)

lemma key_char:
  assumes "is_key key" "\<not> (key > 255 \<or> key < 32)"
  shows "(word_of_int key :: u8) \<noteq> 0"
proof -
  have "0 < key" "key < 256" using assms(2) by auto
  then have "uint (word_of_int key :: u8) = key" unfolding uint_word_of_int by simp
  with \<open>0 < key\<close> show ?thesis by auto
qed

lemma echo_nonzero: "is_key key \<Longrightarrow> 0 \<notin> set (echo t key)"
  using key_char by (auto simp: echo_def)

lemma vga_write_append:
  "0 \<notin> set s \<Longrightarrow> vga_write b (s @ t) st = Option.bind (vga_write b (s @ [0]) st) (vga_write b t)"
proof (induction s arbitrary: st)
  case (Cons c s)
  then show ?case by (cases "vga_putchar b c st") simp_all
qed simp

text \<open>One key, with the line read so far in the buffer.\<close>

lemma pending_key:
  assumes "sound view w" "pending (w_kbd w) = key # keys"
  obtains k where "keyboard_getchar (w_kbd w) = Some (key, k)" "keyboard_ok k" "pending k = keys" "is_key key" "key \<noteq> 0"
    "flags_of k = flags_of (w_kbd w)"
proof -
  note k = soundD(2) [OF assms(1)]
  from k assms(2) have "is_key key" by (simp add: keyboard_ok_def)
  moreover from this have "key \<noteq> 0" by (auto simp: is_key_def key_defs)
  moreover obtain k' where "keyboard_getchar (w_kbd w) = Some (key, k')" "keyboard_ok k'" "pending k' = keys"
    "flags_of k' = flags_of (w_kbd w)"
    using keyboard_getchar_correct [OF k] assms(2) by auto
  ultimately show ?thesis using that by blast
qed

lemma putc_world:
  assumes "machine b view" "sound view w"
  obtains w' where "putc b c w = Some w'" "sound view w'" "w' = w\<lparr>w_vga := w_vga w', w_dev := w_dev w'\<rparr>"
    "vga_putchar b c (w_vga w, w_dev w) = Some (w_vga w', w_dev w')"
proof -
  from putc_gives [OF assms(1), of w c] assms(2) obtain w' where w': "putc b c w = Some w'" "world_ok view w'" "console_only view w w'"
    by (auto simp: gives_def sound_def)
  moreover have "sound view w'" using w'(2) console_onlyD [OF w'(3)] assms(2) by (simp add: sound_def)
  moreover have "vga_putchar b c (w_vga w, w_dev w) = Some (w_vga w', w_dev w')"
    using w'(1) by (auto simp: putc_def on_console_def split: bind_split_asm)
  ultimately show ?thesis using that by (simp add: console_only_def)
qed

lemma sound_input: "sound view w \<Longrightarrow> keyboard_ok k \<Longrightarrow> length l = 256 \<Longrightarrow> sound view (w\<lparr>w_kbd := k, w_line := l\<rparr>)"
  by (simp add: sound_def world_ok_def)

lemma console_part:
  "w' = w\<lparr>w_vga := v, w_dev := d\<rparr> \<Longrightarrow> w_line w' = w_line w \<and> w_kbd w' = w_kbd w \<and> w_vga w' = v \<and> w_dev w' = d"
  by simp

lemma read_line_key:
  assumes m: "machine b view" and w: "sound view w" and t: "length t \<le> 255" "take (length t) (w_line w) = t"
    and key: "pending (w_kbd w) = key # keys" "key \<noteq> 10"
  obtains w' where "read_line b (length t) w = read_line b (length (edit t key)) w'" "sound view w'"
    "take (length (edit t key)) (w_line w') = edit t key" "pending (w_kbd w') = keys"
    "w' = w\<lparr>w_kbd := w_kbd w', w_line := w_line w', w_vga := w_vga w', w_dev := w_dev w'\<rparr>"
    "vga_write b (echo t key @ [0]) (w_vga w, w_dev w) = Some (w_vga w', w_dev w')"
    "flags_of (w_kbd w') = flags_of (w_kbd w)"
proof -
  from w key(1) obtain k where k: "keyboard_getchar (w_kbd w) = Some (key, k)" "keyboard_ok k" "pending k = keys"
    "is_key key" "key \<noteq> 0" "flags_of k = flags_of (w_kbd w)" by (rule pending_key)
  note line = soundD(6) [OF w]
  let ?w = "w\<lparr>w_kbd := k\<rparr>"
  have w1: "sound view ?w" using sound_input [OF w k(2) line] by simp
  consider "key = 8" "t \<noteq> []" | "key = 8 \<and> t = [] \<or> key \<noteq> 8 \<and> (key > 255 \<or> key < 32 \<or> length t \<ge> 255)"
    | "key \<noteq> 8" "\<not> (key > 255 \<or> key < 32)" "length t < 255" by fastforce
  then show ?thesis
  proof cases
    case 1
    obtain w' where w': "putc b 8 ?w = Some w'" "sound view w'" "w' = ?w\<lparr>w_vga := w_vga w', w_dev := w_dev w'\<rparr>"
      "vga_putchar b 8 (w_vga ?w, w_dev ?w) = Some (w_vga w', w_dev w')" by (rule putc_world [OF m w1])
    have e: "edit t key = butlast t" "echo t key = [8]" using 1 by (simp_all add: edit_def echo_def)
    note part = console_part [OF w'(3)]
    have "read_line b (length t) w = read_line b (length (edit t key)) w'"
      using k 1 w'(1) by (subst read_line.simps) (simp add: edit_def)
    moreover have "take (length (butlast t)) (w_line w') = butlast t"
      using t(2) part by (simp add: butlast_conv_take) (metis diff_le_self min.absorb1 take_take)
    moreover have "w' = w\<lparr>w_kbd := w_kbd w', w_line := w_line w', w_vga := w_vga w', w_dev := w_dev w'\<rparr>"
      using part w'(3) by (cases w; cases w') simp
    ultimately show ?thesis using w'(2,4) k(3,6) part by (intro that [of w']) (simp_all add: e)
  next
    case 2
    then have "edit t key = t" "echo t key = []" by (auto simp: edit_def echo_def)
    moreover have "read_line b (length t) w = read_line b (length t) ?w"
      using k 2 key(2) by (subst read_line.simps) (auto simp: LINE_MAX_def Let_def)
    ultimately show ?thesis using that [of ?w] w1 t(2) k(3,6) by simp
  next
    case 3
    let ?c = "word_of_int key :: u8"
    let ?l = "(w_line w)[length t := ?c]"
    have w2: "sound view (w\<lparr>w_kbd := k, w_line := ?l\<rparr>)" using sound_input [OF w k(2), of ?l] line by simp
    obtain w' where w': "putc b ?c (w\<lparr>w_kbd := k, w_line := ?l\<rparr>) = Some w'" "sound view w'"
      "w' = w\<lparr>w_kbd := k, w_line := ?l\<rparr>\<lparr>w_vga := w_vga w', w_dev := w_dev w'\<rparr>"
      "vga_putchar b ?c (w_vga (w\<lparr>w_kbd := k, w_line := ?l\<rparr>), w_dev (w\<lparr>w_kbd := k, w_line := ?l\<rparr>)) = Some (w_vga w', w_dev w')"
      by (rule putc_world [OF m w2])
    note part = console_part [OF w'(3)]
    have e: "edit t key = t @ [?c]" "echo t key = [?c]" using 3 by (simp_all add: edit_def echo_def)
    have nz: "?c \<noteq> 0" using key_char [OF k(4)] 3(2) by blast
    have "read_line b (length t) w = read_line b (length t + 1) w'"
      using k 3 key(2) w'(1) line by (subst read_line.simps) (simp add: LINE_MAX_def aset_def)
    moreover have "take (Suc (length t)) ?l = t @ [?c]"
      using t 3(3) line by (simp add: take_Suc_conv_app_nth)
    moreover have "w' = w\<lparr>w_kbd := w_kbd w', w_line := w_line w', w_vga := w_vga w', w_dev := w_dev w'\<rparr>"
      using part w'(3) by (cases w; cases w') simp
    ultimately show ?thesis using w'(2,4) k(3,6) part nz by (intro that [of w']) (simp_all add: e)
  qed
qed

lemma read_line_enter:
  assumes m: "machine b view" and w: "sound view w" and t: "length t \<le> 255" "take (length t) (w_line w) = t"
    and key: "pending (w_kbd w) = 10 # keys"
  obtains w' where "read_line b (length t) w = Some (Returned w')" "sound view w'"
    "take (Suc (length t)) (w_line w') = t @ [0]" "pending (w_kbd w') = keys"
    "w' = w\<lparr>w_kbd := w_kbd w', w_line := w_line w', w_vga := w_vga w', w_dev := w_dev w'\<rparr>"
    "vga_write b [10, 0] (w_vga w, w_dev w) = Some (w_vga w', w_dev w')"
    "flags_of (w_kbd w') = flags_of (w_kbd w)"
proof -
  from w key obtain k where k: "keyboard_getchar (w_kbd w) = Some (10, k)" "keyboard_ok k" "pending k = keys"
    "flags_of k = flags_of (w_kbd w)" by (rule pending_key)
  note line = soundD(6) [OF w]
  let ?w = "w\<lparr>w_kbd := k\<rparr>" and ?l = "(w_line w)[length t := 0]"
  have w1: "sound view ?w" using sound_input [OF w k(2) line] by simp
  obtain w' where w': "putc b 10 ?w = Some w'" "sound view w'" "w' = ?w\<lparr>w_vga := w_vga w', w_dev := w_dev w'\<rparr>"
      "vga_putchar b 10 (w_vga ?w, w_dev ?w) = Some (w_vga w', w_dev w')" by (rule putc_world [OF m w1])
  note part = console_part [OF w'(3)]
  let ?w' = "w'\<lparr>w_line := ?l\<rparr>"
  have "sound view ?w'" using w'(2) line unfolding sound_def world_ok_def by simp
  moreover have "read_line b (length t) w = Some (Returned ?w')"
    using k w'(1) part t(1) line by (subst read_line.simps) (simp add: aset_def)
  moreover have "take (Suc (length t)) ?l = t @ [0]"
    using t line by (simp add: take_Suc_conv_app_nth)
  moreover have "?w' = w\<lparr>w_kbd := w_kbd ?w', w_line := w_line ?w', w_vga := w_vga ?w', w_dev := w_dev ?w'\<rparr>"
    using part w'(3) by (cases w; cases w') simp
  ultimately show ?thesis using w'(4) k(3,4) part by (intro that [of ?w']) simp_all
qed

text \<open>A line whose keys all wait already.\<close>

lemma read_line_keys:
  assumes m: "machine b view"
  shows "sound view w \<Longrightarrow> length t \<le> 255 \<Longrightarrow> take (length t) (w_line w) = t \<Longrightarrow>
    pending (w_kbd w) = keys @ 10 # rest \<Longrightarrow> 10 \<notin> set keys \<Longrightarrow>
    \<exists>w'. read_line b (length t) w = Some (Returned w') \<and> sound view w' \<and> pending (w_kbd w') = rest \<and>
      take (Suc (length (foldl edit t keys))) (w_line w') = foldl edit t keys @ [0] \<and>
      w' = w\<lparr>w_kbd := w_kbd w', w_line := w_line w', w_vga := w_vga w', w_dev := w_dev w'\<rparr> \<and>
      vga_write b (echoes t keys @ [10, 0]) (w_vga w, w_dev w) = Some (w_vga w', w_dev w')"
proof (induction keys arbitrary: t w)
  case Nil
  then have "pending (w_kbd w) = 10 # rest" by simp
  with m Nil.prems(1-3) obtain w' where "read_line b (length t) w = Some (Returned w')" "sound view w'"
    "take (Suc (length t)) (w_line w') = t @ [0]" "pending (w_kbd w') = rest"
    "w' = w\<lparr>w_kbd := w_kbd w', w_line := w_line w', w_vga := w_vga w', w_dev := w_dev w'\<rparr>"
    "vga_write b [10, 0] (w_vga w, w_dev w) = Some (w_vga w', w_dev w')" by (rule read_line_enter)
  then show ?case by (intro exI [of _ w']) simp
next
  case (Cons key keys)
  from Cons.prems have key: "pending (w_kbd w) = key # keys @ 10 # rest" "key \<noteq> 10" by auto
  then have "is_key key" using soundD(2) [OF Cons.prems(1)] by (simp add: keyboard_ok_def)
  note nz = echo_nonzero [OF this, of t]
  obtain w1 where w1: "read_line b (length t) w = read_line b (length (edit t key)) w1" "sound view w1"
    "take (length (edit t key)) (w_line w1) = edit t key" "pending (w_kbd w1) = keys @ 10 # rest"
    "w1 = w\<lparr>w_kbd := w_kbd w1, w_line := w_line w1, w_vga := w_vga w1, w_dev := w_dev w1\<rparr>"
    "vga_write b (echo t key @ [0]) (w_vga w, w_dev w) = Some (w_vga w1, w_dev w1)"
    by (rule read_line_key [OF m Cons.prems(1-3) key])
  from Cons.IH [OF w1(2) length_edit [OF Cons.prems(2)] w1(3,4)] Cons.prems(5) obtain w' where
    w': "read_line b (length (edit t key)) w1 = Some (Returned w')" "sound view w'" "pending (w_kbd w') = rest"
    "take (Suc (length (foldl edit (edit t key) keys))) (w_line w') = foldl edit (edit t key) keys @ [0]"
    "w' = w1\<lparr>w_kbd := w_kbd w', w_line := w_line w', w_vga := w_vga w', w_dev := w_dev w'\<rparr>"
    "vga_write b (echoes (edit t key) keys @ [10, 0]) (w_vga w1, w_dev w1) = Some (w_vga w', w_dev w')" by auto
  have "w' = w\<lparr>w_kbd := w_kbd w', w_line := w_line w', w_vga := w_vga w', w_dev := w_dev w'\<rparr>"
    using w'(5) w1(5) by (cases w; cases w1; cases w') simp
  moreover have "vga_write b (echoes t (key # keys) @ [10, 0]) (w_vga w, w_dev w) = Some (w_vga w', w_dev w')"
    using vga_write_append [OF nz, of b "echoes (edit t key) keys @ [10, 0]" "(w_vga w, w_dev w)"] w1(6) w'(6) by simp
  ultimately show ?case using w1(1) w'(1-4) by (intro exI [of _ w']) simp
qed

subsection \<open>Reading ends, and so does the loop\<close>

text \<open>What is left to happen: halts to come, and keys that wait.\<close>

definition left :: "'d world \<Rightarrow> nat \<times> nat" where
  "left w = (length (w_halts w), length (pending (w_kbd w)))"

abbreviation sooner :: "((nat \<times> nat) \<times> (nat \<times> nat)) set" where
  "sooner \<equiv> less_than <*lex*> less_than"

lemma later_left: "later w w1 \<Longrightarrow> left w1 = left w \<or> (left w1, left w) \<in> sooner"
  by (auto simp: later_def left_def)

text \<open>Waiting for a key: the interrupts of one halt.\<close>

lemma read_line_wait:
  assumes m: "machine b view" and w: "sound view w" and key: "pending (w_kbd w) = []"
  obtains (stuck) k where "w_halts w = []" "read_line b n w = Some (Waiting (w\<lparr>w_kbd := k\<rparr>))" "sound view (w\<lparr>w_kbd := k\<rparr>)"
    | (goes_on) w' where "read_line b n w = read_line b n w'" "sound view w'" "w_line w' = w_line w" "(left w', left w) \<in> sooner"
proof -
  obtain k where k: "keyboard_getchar (w_kbd w) = Some (0, k)" "keyboard_ok k"
    using keyboard_getchar_correct [OF soundD(2) [OF w]] key by auto
  let ?w = "w\<lparr>w_kbd := k\<rparr>"
  have w1: "sound view ?w" using sound_input [OF w k(2) soundD(6) [OF w]] by simp
  show ?thesis
  proof (cases "w_halts w")
    case Nil
    then have "read_line b n w = Some (Waiting ?w)" using k(1) by (subst read_line.simps) (simp add: hlt_def)
    with Nil w1 show ?thesis by (intro stuck [of k]) simp_all
  next
    case (Cons rs halts)
    let ?v = "?w\<lparr>w_halts := halts\<rparr>"
    have v: "sound view ?v" "list_all hardware_irq rs"
      using w1 soundD(9) [OF w] Cons by (simp_all add: sound_def world_ok_def)
    from interrupts_total [OF m sound_input_ready [OF v(1)] v(2)] obtain w' where w': "interrupts b rs ?v = Some w'" "input_only view ?v w'" by blast
    have "read_line b n w = read_line b n w'"
      using k(1) w'(1) Cons by (subst read_line.simps) (simp add: hlt_def)
    with input_onlyD [OF w'(2) v(1)] Cons show ?thesis by (intro goes_on [of w']) (simp_all add: left_def)
  qed
qed

definition read_end :: "('d \<Rightarrow> drive) \<Rightarrow> 'd world \<Rightarrow> 'd world outcome \<Rightarrow> bool" where
  "read_end view w r \<longleftrightarrow> sound view (final r) \<and> (case r of
     Returned w' \<Rightarrow> terminated (w_line w') \<and> (left w', left w) \<in> sooner
   | Halted w' \<Rightarrow> False
   | Waiting w' \<Rightarrow> True)"

lemma read_line_ends:
  assumes m: "machine b view"
  shows "sound view w \<Longrightarrow> length t \<le> 255 \<Longrightarrow> take (length t) (w_line w) = t \<Longrightarrow>
    gives (read_line b (length t) w) (read_end view w)"
proof (induction "left w" arbitrary: w t rule: wf_induct_rule [OF wf_lex_prod [OF wf_less_than wf_less_than]])
  case (1 w t)
  note IH = 1(1) and w = 1(2) and t = 1(3,4)
  have on: "gives (read_line b (length t') w') (read_end view w)"
    if "(left w', left w) \<in> sooner" "sound view w'" "length t' \<le> 255" "take (length t') (w_line w') = t'" for w' t'
  proof -
    have "(left v, left w') \<in> sooner \<Longrightarrow> (left v, left w) \<in> sooner" for v :: "'a world"
      using that(1) by (auto simp: left_def)
    then show ?thesis using IH [OF that]
      by (auto simp: read_end_def split: outcome.splits elim!: gives_mono simp del: in_lex_prod)
  qed
  show ?case
  proof (cases "pending (w_kbd w)")
    case Nil
    show ?thesis
    proof (rule read_line_wait [OF m w Nil, of "length t"])
      fix k assume "read_line b (length t) w = Some (Waiting (w\<lparr>w_kbd := k\<rparr>))" "sound view (w\<lparr>w_kbd := k\<rparr>)"
      then show ?thesis by (simp add: read_end_def)
    next
      fix w' assume "read_line b (length t) w = read_line b (length t) w'" "sound view w'" "w_line w' = w_line w" "(left w', left w) \<in> sooner"
      with on [of w' t] t show ?thesis by simp
    qed
  next
    case (Cons key keys)
    show ?thesis
    proof (cases "key = 10")
      case True
      with Cons have "pending (w_kbd w) = 10 # keys" by simp
      with m w t obtain w' where w': "read_line b (length t) w = Some (Returned w')" "sound view w'"
        "take (Suc (length t)) (w_line w') = t @ [0]" "pending (w_kbd w') = keys"
        "w' = w\<lparr>w_kbd := w_kbd w', w_line := w_line w', w_vga := w_vga w', w_dev := w_dev w'\<rparr>" by (rule read_line_enter)
      have "0 \<in> set (take (Suc (length t)) (w_line w'))" unfolding w'(3) by simp
      then have "terminated (w_line w')" by (auto simp: terminated_def dest: in_set_takeD)
      moreover have "w_halts w' = w_halts w" using w'(5) by (cases w; cases w') simp
      ultimately show ?thesis using w' Cons by (simp add: read_end_def left_def)
    next
      case False
      obtain w' where w': "read_line b (length t) w = read_line b (length (edit t key)) w'" "sound view w'"
        "take (length (edit t key)) (w_line w') = edit t key" "pending (w_kbd w') = keys"
        "w' = w\<lparr>w_kbd := w_kbd w', w_line := w_line w', w_vga := w_vga w', w_dev := w_dev w'\<rparr>"
        by (rule read_line_key [OF m w t Cons False])
      have "w_halts w' = w_halts w" using w'(5) by (cases w; cases w') simp
      then have "(left w', left w) \<in> sooner" using w'(4) Cons by (simp add: left_def)
      from on [OF this w'(2) length_edit [OF t(1)] w'(3)] w'(1) show ?thesis by simp
    qed
  qed
qed

lemma shell_prompt_does: "machine b view \<Longrightarrow> sound view w \<Longrightarrow> does view w (shell_prompt b w)"
  unfolding shell_prompt_def using sound_terminated
  by (intro doing sound_terminated [THEN conjunct1] sound_terminated [THEN conjunct2] quiet_color)

text \<open>The lines that make \<open>color\<close> overflow an \<open>int\<close>.\<close>

definition overflowing :: "bytes \<Rightarrow> bool" where
  "overflowing t \<longleftrightarrow> (case line_words t of (x, y) \<Rightarrow> x = bytes_of ''color'' \<and> 2 ^ 31 \<le> decimal 0 (takeWhile is_digit y))"

lemma command_of_color: "command_of x = Some r \<Longrightarrow> c_run r = Cmd_color \<Longrightarrow> x = bytes_of ''color''"
proof -
  assume r: "command_of x = Some r" and f: "c_run r = Cmd_color"
  have "list_all (\<lambda>r. c_run r = Cmd_color \<longrightarrow> text_of (c_name r) = bytes_of ''color'') commands"
    by (simp add: commands_def row_def literal_def)
  moreover have "r \<in> set commands" "text_of (c_name r) = x"
    using r by (auto simp: command_of_def find_Some_iff in_set_conv_nth)
  ultimately show ?thesis using f by (auto simp: list_all_iff)
qed

lemma execute_settles:
  assumes m: "machine b view" "accepts_commands b" "length stack = 512" and w: "sound view w" and line: "terminated (w_line w)"
    and safe: "\<not> overflowing (text_of (w_line w))"
  shows "settles view w (execute b stack w)"
proof -
  obtain x y where x: "line_words (text_of (w_line w)) = (x, y)" by fastforce
  show ?thesis
  proof (cases "x = []")
    case True
    with execute_eq(1) [OF line x] w show ?thesis by (simp add: settles_def later_refl)
  next
    case False
    from execute_eq(2) [OF line x False, of b stack] obtain l s arg where e: "length l = length (w_line w)"
      "terminated s" "text_of s = x" "terminated arg" "length arg \<le> length (w_line w)" "text_of arg = y"
      "execute b stack w = (let w = w\<lparr>w_line := l\<rparr> in case command_of x of
           Some r \<Rightarrow> run_command b stack (c_run r) arg w
         | None \<Rightarrow> do { w \<leftarrow> print b s w; w \<leftarrow> print b (literal '': command not found. Type help.\<newline>'') w; Some (Returned w) })"
      by blast
    let ?w = "w\<lparr>w_line := l\<rparr>"
    have w1: "sound view ?w" "later w ?w" using w e(1) by (simp_all add: sound_def world_ok_def later_def)
    have arg: "arg_ok arg" using e(4,5) soundD(6) [OF w] by (simp add: arg_ok_def)
    have "settles view ?w (execute b stack w)"
    proof (cases "command_of x")
      case None
      have "does view ?w (do { w \<leftarrow> print b s ?w; print b (literal '': command not found. Type help.\<newline>'') w })"
        by (intro doing m e w1)
      from does_settles [OF this] show ?thesis using None e(7) by (simp add: Let_def map_conv_bind_option comp_def)
    next
      case (Some r)
      have "\<not> color_overflow (c_run r) arg"
        using safe command_of_color [OF Some] e(6) x
        by (auto simp: color_overflow_def overflowing_def)
      from run_command_settles [OF m w1(1) arg this] Some e(7) show ?thesis by (simp add: Let_def)
    qed
    with w1(2) show ?thesis by (rule settles_later)
  qed
qed

text \<open>One turn of the shell, and the states at the prompt that turns lead to.\<close>

definition turn :: "'d bus \<Rightarrow> bytes \<Rightarrow> 'd world \<Rightarrow> 'd world outcome option" where
  "turn b stack w = do {
     w \<leftarrow> shell_prompt b w;
     r \<leftarrow> read_line b 0 w;
     (case r of Returned w \<Rightarrow> execute b stack w | r \<Rightarrow> Some r) }"

lemma shell_run_turn:
  "shell_run b stack w = do { r \<leftarrow> turn b stack w; case r of Returned w \<Rightarrow> shell_run b stack w | r \<Rightarrow> Some r }"
  by (subst shell_run.simps)
     (auto simp: turn_def split: Option.bind_splits outcome.splits)

inductive prompts :: "'d bus \<Rightarrow> bytes \<Rightarrow> 'd world \<Rightarrow> 'd world \<Rightarrow> bool" for b :: "'d bus" and stack w where
  here: "prompts b stack w w"
| next_turn: "prompts b stack w w1 \<Longrightarrow> turn b stack w1 = Some (Returned w2) \<Longrightarrow> prompts b stack w w2"

lemma prompts_first: "prompts b stack w1 w2 \<Longrightarrow> turn b stack w = Some (Returned w1) \<Longrightarrow> prompts b stack w w2"
  by (induction rule: prompts.induct) (auto intro: prompts.intros)

text \<open>At a prompt, the line that is read next.\<close>

definition line_read :: "'d bus \<Rightarrow> 'd world \<Rightarrow> bytes \<Rightarrow> bool" where
  "line_read b w t \<longleftrightarrow> (\<exists>w1 w2. shell_prompt b w = Some w1 \<and> read_line b 0 w1 = Some (Returned w2) \<and> t = text_of (w_line w2))"

definition turn_end :: "('d \<Rightarrow> drive) \<Rightarrow> 'd world \<Rightarrow> 'd world outcome \<Rightarrow> bool" where
  "turn_end view w r \<longleftrightarrow> sound view (final r) \<and> (\<forall>w'. r = Returned w' \<longrightarrow> (left w', left w) \<in> sooner)"

lemma turn_ends:
  assumes m: "machine b view" "accepts_commands b" "length stack = 512" and w: "sound view w"
    and safe: "\<And>t. line_read b w t \<Longrightarrow> \<not> overflowing t"
  shows "gives (turn b stack w) (turn_end view w)"
proof -
  from shell_prompt_does [OF m(1) w] obtain w1 where w1: "shell_prompt b w = Some w1" "quiet view w w1"
    by (auto simp: does_def gives_def)
  then have s1: "sound view w1" and l1: "left w1 = left w" by (simp_all add: quiet_def left_def)
  from read_line_ends [OF m(1) s1, of "[]"] obtain r where r: "read_line b 0 w1 = Some r" "read_end view w1 r"
    by (auto simp: gives_def)
  show ?thesis
  proof (cases r)
    case (Returned w2)
    then have w2: "sound view w2" "terminated (w_line w2)" "(left w2, left w1) \<in> sooner"
      using r(2) by (simp_all add: read_end_def del: in_lex_prod)
    have "\<not> overflowing (text_of (w_line w2))" using safe w1(1) r(1) Returned by (auto simp: line_read_def)
    from execute_settles [OF m w2(1,2) this] obtain q where q: "execute b stack w2 = Some q" "sound view (final q)" "later w2 (final q)"
      by (auto simp: settles_def gives_def)
    have "(left (final q), left w) \<in> sooner" using later_left [OF q(3)] w2(3) l1 by (auto simp: left_def)
    then have "turn_end view w q" using q(2) by (auto simp: turn_end_def simp del: in_lex_prod)
    then show ?thesis using w1(1) r(1) q(1) Returned by (simp add: turn_def)
  next
    case (Halted w2)
    then show ?thesis using r(2) by (simp add: read_end_def)
  next
    case (Waiting w2)
    then show ?thesis using r w1(1) by (simp add: turn_def turn_end_def read_end_def)
  qed
qed

text \<open>The whole loop.\<close>

lemma shell_run_ends:
  assumes m: "machine b view" "accepts_commands b" "length stack = 512"
  shows "sound view w \<Longrightarrow> (\<And>w' t. prompts b stack w w' \<Longrightarrow> line_read b w' t \<Longrightarrow> \<not> overflowing t) \<Longrightarrow>
    gives (shell_run b stack w) (\<lambda>r. sound view (final r) \<and> (\<forall>w'. r \<noteq> Returned w'))"
proof (induction "left w" arbitrary: w rule: wf_induct_rule [OF wf_lex_prod [OF wf_less_than wf_less_than]])
  case (1 w)
  from turn_ends [OF m 1(2) 1(3) [OF here]] obtain r where r: "turn b stack w = Some r" "turn_end view w r"
    by (auto simp: gives_def)
  show ?case
  proof (cases r)
    case (Returned w')
    then have w': "(left w', left w) \<in> sooner" "sound view w'" using r(2) by (auto simp: turn_end_def simp del: in_lex_prod)
    have "gives (shell_run b stack w') (\<lambda>r. sound view (final r) \<and> (\<forall>w'. r \<noteq> Returned w'))"
      using w' prompts_first [of b stack w' _ w] r(1) Returned 1(3) by (intro 1(1)) auto
    then show ?thesis using r(1) Returned by (subst shell_run_turn) simp
  qed (use r in \<open>(subst shell_run_turn, simp add: turn_end_def)+\<close>)
qed

end
