(* ===== verification/Shell_Props.thy ===== *)
theory Shell_Props
  imports Shell_Loop
begin

text \<open>
  The properties of the shell: its loop, its line editor, how it splits a line and dispatches it,
  and what the commands make of their arguments.
\<close>

subsection \<open>Numbers\<close>

lemma parse_unsigned_eq:
  "terminated s \<Longrightarrow> parse_unsigned (of_nat n) s =
     Some (if list_all is_digit (text_of s) then Some (of_nat (decimal n (text_of s))) else None)"
proof (induction s arbitrary: n)
  case (Cons c s)
  then show ?case using Cons.IH [of "n * 10 + (unat c - 48)"] digit_value [of c] by auto
qed simp

lemma parse_int_eq:
  "terminated s \<Longrightarrow> list_all is_digit (text_of s) \<Longrightarrow> n < 2 ^ 31 \<Longrightarrow> parse_int (int n) s =
     (if decimal n (text_of s) < 2 ^ 31 then Some (Some (int (decimal n (text_of s)))) else None)"
proof (induction s arbitrary: n)
  case (Cons c s)
  show ?case
  proof (cases "c = 0")
    case False
    let ?n = "n * 10 + (unat c - 48)"
    have d: "is_digit c" "terminated s" "list_all is_digit (text_of s)" using Cons.prems False by auto
    have v: "int n * 10 + (sint c - 48) = int ?n" using digit_value [OF d(1)] by simp
    show ?thesis
    proof (cases "?n < 2 ^ 31")
      case True
      with Cons.IH [OF d(2,3) True] d(1) False v show ?thesis by simp
    next
      case big: False
      with decimal_mono [of ?n "text_of s"] d(1) False v show ?thesis by simp
    qed
  qed (use Cons.prems in simp)
qed simp

lemma cmd_color_number:
  assumes "terminated s" "list_all is_digit (text_of s)" "text_of s \<noteq> []" "decimal 0 (text_of s) < 2 ^ 31"
  shows "if decimal 0 (text_of s) \<le> 15
    then \<exists>c. color_code c = of_nat (decimal 0 (text_of s)) \<and>
      cmd_color b s w = print b (literal ''Color changed.\<newline>'') (color c VGA_BLACK w)
    else cmd_color b s w = print b (literal ''color: pick a number from 0 to 15\<newline>'') w"
proof -
  obtain c where c: "aget s 0 = Some c" "c \<noteq> 0" using terminated_aget [OF assms(1)] assms(3) by auto
  have p: "parse_int 0 s = Some (Some (int (decimal 0 (text_of s))))" using parse_int_eq [OF assms(1,2), of 0] assms(4) by simp
  obtain x where "decimal 0 (text_of s) \<le> 15 \<longrightarrow> color_code x = of_nat (decimal 0 (text_of s))"
    using color_code_number [of "decimal 0 (text_of s)"] by fastforce
  with c p show ?thesis by (auto simp: cmd_color_def color_def)
qed

subsection \<open>Sleeping\<close>

text \<open>The ticks among the interrupts of a halt, where line 0 alone is the timer's.\<close>

definition ticks_in :: "registers list \<Rightarrow> nat" where
  "ticks_in rs = length (filter (\<lambda>r. int_no r = 32) rs)"

definition timer_slot :: "irq_callback option list \<Rightarrow> bool" where
  "timer_slot slots \<longleftrightarrow> (\<forall>n < 16. slots ! n = Some Timer_callback \<longleftrightarrow> n = 0)"

lemma handler_ticks:
  "handler_call b h regs ((t, k), d) = Some ((t', k'), d') \<Longrightarrow> t' = (if h = Timer_callback then t + 1 else t)"
  by (cases h) (auto simp: timer_callback_def split: bind_split_asm)

lemma interrupt_ticks:
  assumes m: "machine b view" and w: "input_ready w" "timer_slot (w_slots w)" and i: "hardware_irq regs"
  shows "\<exists>w'. interrupt b regs w = Some w' \<and> input_only view w w' \<and>
    w_ticks w' = (if int_no regs = 32 then w_ticks w + 1 else w_ticks w)"
proof -
  from interrupt_total [OF m w(1) i] obtain w' where w': "interrupt b regs w = Some w'" "input_only view w w'" by blast
  from i obtain n where n: "n < 16" "int_no regs = 32 + of_nat n" by (auto simp: hardware_irq_def)
  have u: "unat (of_nat n :: u32) = n" using n(1) by (simp only: unat_of_nat) simp
  have "int_no regs = 32 \<longleftrightarrow> (of_nat n :: u32) = 0" unfolding n(2) by (simp only: add_cancel_left_right)
  also have "\<dots> \<longleftrightarrow> n = 0" unfolding word_unat_eq_iff u unat_0 ..
  finally have "int_no regs = 32 \<longleftrightarrow> w_slots w ! n = Some Timer_callback" using w(2) n(1) by (simp add: timer_slot_def)
  moreover have "w_ticks w' = (if w_slots w ! n = Some Timer_callback then w_ticks w + 1 else w_ticks w)"
    using w(1) w'(1) irq_handler_eq [OF _ n, of "w_slots w" b "handler_call b" "((w_ticks w, w_kbd w), w_dev w)"]
    by (auto simp: input_ready_def interrupt_def split: bind_split_asm option.splits dest!: handler_ticks)
  ultimately show ?thesis using w' by auto
qed

lemma interrupts_ticks:
  assumes m: "machine b view"
  shows "input_ready w \<Longrightarrow> timer_slot (w_slots w) \<Longrightarrow> list_all hardware_irq rs \<Longrightarrow>
    \<exists>w'. interrupts b rs w = Some w' \<and> input_only view w w' \<and> w_ticks w' = w_ticks w + of_nat (ticks_in rs)"
proof (induction rs arbitrary: w)
  case Nil
  then show ?case by (cases w) (simp add: input_only_def input_ready_def ticks_in_def)
next
  case (Cons r rs)
  from interrupt_ticks [OF m Cons.prems(1,2), of r] Cons.prems(3) obtain w1 where w1: "interrupt b r w = Some w1"
    "input_only view w w1" "w_ticks w1 = (if int_no r = 32 then w_ticks w + 1 else w_ticks w)" by auto
  note d = input_only_ready [OF w1(2) Cons.prems(1)]
  from Cons.IH [of w1] d Cons.prems obtain w' where "interrupts b rs w1 = Some w'" "input_only view w1 w'"
    "w_ticks w' = w_ticks w1 + of_nat (ticks_in rs)" by auto
  with w1 input_only_trans [OF w1(2)] show ?case by (auto simp: ticks_in_def)
qed

text \<open>The loop is that of \<open>timer_sleep\<close>, seen through the number of ticks of each halt.\<close>

lemma sleep_halts_loop:
  assumes m: "machine b view"
  shows "sound view w \<Longrightarrow> w_halts w = halts \<Longrightarrow> timer_slot (w_slots w) \<Longrightarrow>
    sleep_loop target (map ticks_in halts) (w_ticks w) = Some (t, ws) \<Longrightarrow>
    \<exists>w'. sleep_halts b target halts w = Some (Returned w') \<and> sound view w' \<and> w_ticks w' = t \<and>
      w_halts w' = drop (length halts - length ws) halts \<and> length ws \<le> length halts"
proof (induction halts arbitrary: w)
  case (Cons rs halts)
  show ?case
  proof (cases "sint (target - w_ticks w) > 0")
    case False
    with Cons.prems show ?thesis by auto
  next
    case True
    let ?w = "w\<lparr>w_halts := halts\<rparr>"
    have w: "sound view ?w" "list_all hardware_irq rs"
      using Cons.prems soundD(9) [OF Cons.prems(1)] by (simp_all add: sound_def world_ok_def)
    from interrupts_ticks [OF m sound_input_ready [OF w(1)] _ w(2)] Cons.prems(3) obtain w1 where w1: "interrupts b rs ?w = Some w1"
      "input_only view ?w w1" "w_ticks w1 = w_ticks w + of_nat (ticks_in rs)" by auto
    note d = input_onlyD [OF w1(2) w(1)]
    from Cons.IH [of w1] d w1(3) Cons.prems True obtain w' where "sleep_halts b target halts w1 = Some (Returned w')"
      "sound view w'" "w_ticks w' = t" "w_halts w' = drop (length halts - length ws) halts" "length ws \<le> length halts"
      by (auto simp: callback_times)
    with True w1(1) show ?thesis by (simp add: Suc_diff_le)
  qed
qed (auto split: if_splits)

lemma cmd_sleep_number:
  assumes "terminated arg" "text_of arg \<noteq> []" "list_all is_digit (text_of arg)" "(of_nat (decimal 0 (text_of arg)) :: u32) \<le> 60"
  shows "cmd_sleep b arg w = sleep_halts b (w_ticks w + of_nat (100 * unat (of_nat (decimal 0 (text_of arg)) :: u32))) (w_halts w) w"
proof -
  let ?n = "of_nat (decimal 0 (text_of arg)) :: u32"
  obtain c where c: "aget arg 0 = Some c" "c \<noteq> 0" using terminated_aget [OF assms(1)] assms(2) by auto
  have n: "unat ?n \<le> 60" using assms(4) by (simp add: word_le_nat_alt)
  then have ms: "unat (?n * 1000) = unat ?n * 1000" by (subst unat_mult_lem [THEN iffD1]) simp_all
  have "unat (?n * 1000) * 100 + 999 < 2 ^ 32" unfolding ms using n by simp
  from wanted_ticks [OF this] have "unat ((?n * 1000 * TIMER_HZ + 999) div 1000) = 100 * unat ?n" unfolding ms by simp
  from arg_cong [OF this, of "of_nat :: nat \<Rightarrow> u32"]
  have "(?n * 1000 * TIMER_HZ + 999) div 1000 = of_nat (100 * unat ?n)" by simp
  then show ?thesis using c parse_unsigned_eq [OF assms(1), of 0] assms(3,4) by (simp add: cmd_sleep_def sleep_ms_def Let_def leD)
qed

subsection \<open>The Fish commands\<close>

text \<open>The call a command makes, from the text of its argument.\<close>

fun shell_call :: "command_fn \<Rightarrow> bytes \<Rightarrow> call option" where
  "shell_call Cmd_mkdir t = Some (Mkdir (t @ [0]))"
| "shell_call Cmd_touch t = Some (Create (t @ [0]))"
| "shell_call Cmd_cd t = Some (Chdir (t @ [0]))"
| "shell_call Cmd_rm t = Some (Remove (t @ [0]))"
| "shell_call Cmd_write t = Some (Write (file_word t @ [0]) (file_text t @ [0]))"
| "shell_call Cmd_append t = Some (Append (file_word t @ [0]) (file_text t @ [0]))"
| "shell_call _ t = None"

fun call_name :: "command_fn \<Rightarrow> string" where
  "call_name Cmd_mkdir = ''mkdir''"
| "call_name Cmd_touch = ''touch''"
| "call_name Cmd_cd = ''cd''"
| "call_name Cmd_rm = ''rm''"
| "call_name Cmd_write = ''write''"
| "call_name Cmd_append = ''append''"
| "call_name _ = []"

lemma text_of_zero: "0 \<notin> set t \<Longrightarrow> text_of (t @ [0]) = t"
  by (rule text_of_append_zero)

lemma fish_fail_fish: "fish_fail b cmd r w = Some w' \<Longrightarrow> w_fish w' = w_fish w"
  by (auto simp: fish_fail_def split: bind_split_asm dest!: print_fish)

text \<open>A call followed by the report of its failure.\<close>

lemma report:
  assumes m: "machine b view" and w: "sound view w" and cmd: "terminated cmd"
    and f: "f (w_fish w) = Some (r, fs)" "fish_ok fs"
  shows "\<exists>w'. do { (r, w) \<leftarrow> on_fish f w; if r < 0 then fish_fail b cmd r w else Some w } = Some w' \<and>
    quiet view w w' \<and> w_fish w' = fs"
proof -
  let ?w = "w\<lparr>w_fish := fs\<rparr>"
  note q = quiet_fish [OF w f(2)]
  have "does view ?w (if r < 0 then fish_fail b cmd r ?w else Some ?w)"
    using q by (intro doing m cmd quiet_refl) (simp_all add: quiet_def)
  then obtain w' where "(if r < 0 then fish_fail b cmd r ?w else Some ?w) = Some w'" "quiet view ?w w'"
    by (auto simp: does_def gives_def)
  moreover from this(1) have "w_fish w' = fs" by (auto split: if_splits dest: fish_fail_fish)
  ultimately show ?thesis using quiet_trans [OF q] f(1) by (intro exI [of _ w']) (simp add: on_fish_def)
qed

lemma command_report:
  assumes m: "machine b view" and w: "sound view w" and arg: "arg_ok arg" "text_of arg \<noteq> []" and call: "shell_call f (text_of arg) = Some c"
  shows "\<exists>cmd call r fs. terminated cmd \<and> text_of cmd = bytes_of (call_name f) \<and> call (w_fish w) = Some (r, fs) \<and> fish_ok fs \<and>
    spec_call c (volume_of (w_fish w)) = (r, volume_of fs) \<and>
    run_command b stack f arg w =
      map_option Returned (do { (r, w) \<leftarrow> on_fish call w; if r < 0 then fish_fail b cmd r w else Some w })"
proof -
  have t: "terminated arg" using arg(1) by (rule arg_terminated)
  obtain k where k: "aget arg 0 = Some k" "k \<noteq> 0" using terminated_aget [OF t] arg(2) by auto
  note fs = soundD(5) [OF w]
  have nz: "0 \<notin> set (text_of arg)" by (rule text_of_nonzero)
  obtain nm i rest nm' tx where wd: "copy_word 0 arg (replicate FISH_NAME_MAX 0) = Some (nm, i, rest)" "aset nm i 0 = Some nm'"
    "arg_ok nm'" "text_of nm' = file_word (text_of arg)" "skip_spaces rest = Some tx" "arg_ok tx"
    "text_of tx = file_text (text_of arg)" using arg(1) by (rule write_words)
  then have nz2: "0 \<notin> set (file_word (text_of arg))" "0 \<notin> set (file_text (text_of arg))" by (metis text_of_nonzero)+
  have ok: "call_ok (Mkdir arg)" "call_ok (Create arg)" "call_ok (Chdir arg)" "call_ok (Remove arg)"
    "call_ok (Write nm' tx)" "call_ok (Append nm' tx)" using arg(1) wd(3,6) by (simp_all add: call_ok_def arg_ok_def)
  let ?run = "\<lambda>cmd call. map_option Returned (do { (r, w) \<leftarrow> on_fish call w; if r < 0 then fish_fail b cmd r w else Some w })"
  note defs = cmd_mkdir_def cmd_touch_def cmd_rm_def fish_command_def cmd_cd_def cmd_write_def cmd_append_def
    write_common_def text_of_zero
  have "\<exists>cmd call c'. terminated cmd \<and> text_of cmd = bytes_of (call_name f) \<and> call (w_fish w) = fish_call c' (w_fish w) \<and> call_ok c' \<and>
    spec_call c' (volume_of (w_fish w)) = spec_call c (volume_of (w_fish w)) \<and> run_command b stack f arg w = ?run cmd call"
  proof (cases f)
    case Cmd_mkdir
    with call k ok nz nz2 wd arg(2) show ?thesis
      by (intro exI [of _ "literal ''mkdir''"] exI [of _ "fish_mkdir (Some arg)"] exI [of _ "Mkdir arg"]) (auto simp: defs text_of_literal)
  next
    case Cmd_touch
    with call k ok nz nz2 wd arg(2) show ?thesis
      by (intro exI [of _ "literal ''touch''"] exI [of _ "fish_create (Some arg)"] exI [of _ "Create arg"]) (auto simp: defs text_of_literal)
  next
    case Cmd_cd
    with call k ok nz nz2 wd arg(2) show ?thesis
      by (intro exI [of _ "literal ''cd''"] exI [of _ "fish_chdir (Some arg)"] exI [of _ "Chdir arg"]) (auto simp: defs text_of_literal)
  next
    case Cmd_rm
    with call k ok nz nz2 wd arg(2) show ?thesis
      by (intro exI [of _ "literal ''rm''"] exI [of _ "fish_remove arg"] exI [of _ "Remove arg"]) (auto simp: defs text_of_literal)
  next
    case Cmd_write
    with call k ok nz nz2 wd arg(2) show ?thesis
      by (intro exI [of _ "literal ''write''"] exI [of _ "fish_write nm' tx"] exI [of _ "Write nm' tx"]) (auto simp: defs text_of_literal)
  next
    case Cmd_append
    with call k ok nz nz2 wd arg(2) show ?thesis
      by (intro exI [of _ "literal ''append''"] exI [of _ "fish_append nm' tx"] exI [of _ "Append nm' tx"]) (auto simp: defs text_of_literal)
  qed (use call in simp_all)
  then obtain cmd call' c' where c': "terminated cmd \<and> text_of cmd = bytes_of (call_name f)" "call' (w_fish w) = fish_call c' (w_fish w)" "call_ok c'"
    "spec_call c' (volume_of (w_fish w)) = spec_call c (volume_of (w_fish w))" "run_command b stack f arg w = ?run cmd call'" by blast
  from fish.step_law [OF fs c'(3)] obtain r fs' where "fish_call c' (w_fish w) = Some (r, fs')" "fish_ok fs'"
    "spec_call c' (volume_of (w_fish w)) = (r, volume_of fs')" by blast
  with c' show ?thesis by (intro exI [of _ cmd] exI [of _ call'] exI [of _ r] exI [of _ fs']) simp
qed

subsection \<open>Listing\<close>

text \<open>Several writes are one.\<close>

lemma print_print: "terminated s \<Longrightarrow> Option.bind (print b s w) (print b t) = print b (text_of s @ t) w"
proof (induction s arbitrary: w)
  case (Cons c s)
  then show ?case by (cases "c = 0"; cases "putc b c w") (simp_all add: print_putc)
qed simp

lemma putc_print: "c \<noteq> 0 \<Longrightarrow> putc b c w = print b [c, 0] w"
  by (cases "putc b c w") (simp_all add: print_putc)

text \<open>The line of an entry.\<close>

definition entry_text :: "bytes \<times> u32 \<times> u32 \<Rightarrow> bytes" where
  "entry_text = (\<lambda>(nm, is_dir, sz).
     if is_dir \<noteq> 0 then bytes_of ''[DIR]  '' @ text_of nm
     else bytes_of ''[FILE] '' @ text_of nm @ bytes_of ''  ('' @ utoa_text sz 10 @ bytes_of '' bytes)'')"

definition entry_color :: "bytes \<times> u32 \<times> u32 \<Rightarrow> vga_color" where
  "entry_color = (\<lambda>(nm, is_dir, sz). if is_dir \<noteq> 0 then VGA_LIGHT_BLUE else VGA_LIGHT_GREY)"

lemma print_number_eq: "\<exists>s. (\<forall>w. print_number b n w = print b s w) \<and> terminated s \<and> text_of s = utoa_text n 10"
  using utoa_10 [of "replicate 12 0" n] by (auto simp: print_number_def)

lemma ls_entry_eq:
  assumes "terminated (fst e)"
  shows "ls_entry b e w = print b (entry_text e @ [10, 0]) (color (entry_color e) VGA_BLACK w)"
proof -
  obtain nm d sz where e: "e = (nm, d, sz)" by (cases e)
  have nm: "terminated nm" using assms e by simp
  obtain s where s: "\<And>w. print_number b sz w = print b s w" "terminated s" "text_of s = utoa_text sz 10"
    using print_number_eq by blast
  have lit: "text_of (literal ''[DIR]  '') = bytes_of ''[DIR]  ''" "text_of (literal ''[FILE] '') = bytes_of ''[FILE] ''"
    "text_of (literal ''  ('') = bytes_of ''  (''" "text_of (literal '' bytes)'') = bytes_of '' bytes)''"
    by (simp_all add: literal_def)
  have c: "putc b 10 w = print b [10, 0] w" for w by (rule putc_print) simp
  show ?thesis
  proof (cases "d = 0")
    case True
    then show ?thesis
      by (simp add: e ls_entry_def entry_text_def entry_color_def s(1) c print_print nm s(2,3) lit Option.bind_assoc
          del: bytes_of_Cons bytes_of_Nil)
  next
    case False
    then show ?thesis
      by (simp add: e ls_entry_def entry_text_def entry_color_def c print_print nm lit del: bytes_of_Cons bytes_of_Nil)
  qed
qed

text \<open>The lines of a listing, each in the colour of its kind.\<close>

fun show_entries :: "'d bus \<Rightarrow> (bytes \<times> u32 \<times> u32) list \<Rightarrow> 'd world \<Rightarrow> 'd world option" where
  "show_entries b [] w = Some w"
| "show_entries b (e # es) w = do {
     w \<leftarrow> print b (entry_text e @ [10, 0]) (color (entry_color e) VGA_BLACK w);
     show_entries b es w }"

lemma ls_entries_eq: "list_all (\<lambda>e. terminated (fst e)) es \<Longrightarrow> ls_entries b es w = show_entries b es w"
proof (induction es arbitrary: w)
  case (Cons e es)
  then have "terminated (fst e)" "ls_entries b es = show_entries b es" by (auto simp: fun_eq_iff)
  then show ?case by (simp add: ls_entry_eq)
qed simp

subsection \<open>A concrete machine\<close>

text \<open>A bus with a drive and a keyboard controller, and the state of a kernel with keys typed ahead.\<close>

definition pc_bus :: "(drive \<times> bytes) bus" where
  "pc_bus = \<lparr>
     port_in = (\<lambda>(h, ks) p. if p = 0x60 then (case ks of [] \<Rightarrow> (0, (h, [])) | c # cs \<Rightarrow> (c, (h, cs)))
       else if p = 0x64 then (if ks = [] then 0 else 1, (h, ks))
       else if p = ATA_STATUS \<or> p = ATA_CONTROL then (case drive_in p h of (v, h) \<Rightarrow> (v, (h, ks)))
       else (0xFF, (h, ks))),
     port_out = (\<lambda>(h, ks) p v. (drive_out p v h, ks)),
     port_inw = (\<lambda>(h, ks) p. case drive_inw h of (w, h) \<Rightarrow> (w, (h, ks))),
     port_outw = (\<lambda>(h, ks) p w. (drive_outw w h, ks))\<rparr>"

lemma pc_bus_machine: "machine pc_bus fst"
proof -
  have "drive_bus pc_bus fst"
    unfolding drive_bus_def pc_bus_def by (auto simp: ata_ports split: prod.splits)
  moreover have "p \<notin> ata_port_set \<Longrightarrow> drive_out p v h = h" for p v h
    by (auto simp: ata_port_set_def drive_out_def ata_ports)
  moreover have "p \<notin> ata_port_set \<Longrightarrow> p \<noteq> ATA_STATUS \<and> p \<noteq> ATA_CONTROL" for p
    by (auto simp: ata_port_set_def)
  ultimately show ?thesis unfolding machine_def by (auto simp: pc_bus_def split: prod.splits list.splits)
qed

lemma pc_bus_accepts: "accepts_commands pc_bus"
proof -
  have "wait_input_empty pc_bus d \<noteq> None" for d
    by (cases d; subst wait_input_empty.simps) (auto simp: pc_bus_def inb_def Let_def)
  then show ?thesis by (simp add: accepts_commands_def)
qed

definition keyboard_with :: "int list \<Rightarrow> keyboard" where
  "keyboard_with ks = \<lparr>shift_held = False, caps_on = False, extended = False,
     buffer = ks @ replicate (128 - length ks) 0, head = of_nat (length ks), tail = 0\<rparr>"

lemma keyboard_with_pending:
  assumes "length ks < 128"
  shows "pending (keyboard_with ks) = ks" "list_all is_key ks \<Longrightarrow> keyboard_ok (keyboard_with ks)"
proof -
  have h: "unat (of_nat (length ks) :: u32) = length ks" using assms by (simp only: unat_of_nat) simp
  have "waiting (keyboard_with ks) = length ks" using assms h by (simp add: waiting_def keyboard_with_def)
  then show p: "pending (keyboard_with ks) = ks"
    using assms by (intro nth_equalityI) (simp_all add: pending_def slot_def keyboard_with_def nth_append)
  show "list_all is_key ks \<Longrightarrow> keyboard_ok (keyboard_with ks)"
    using p assms h unfolding keyboard_ok_def by (simp add: keyboard_with_def)
qed

definition demo_world :: "int list \<Rightarrow> registers list list \<Rightarrow> (drive \<times> bytes) world" where
  "demo_world ks halts = \<lparr>w_vga = demo_vga, w_kbd = keyboard_with ks, w_ticks = 0xFFFFFFF0,
     w_slots = [Some Timer_callback, Some Keyboard_callback] @ replicate 14 None, w_user = demo_user,
     w_fish = the (fish_init \<lparr>nodes = [], current = 0\<rparr>), w_present = 1, w_line = replicate 256 0,
     w_dev = (demo_drive, []), w_halts = halts\<rparr>"

lemma demo_disk: "\<not> superblock_ok (sector_bytes demo_drive 2048)" "disk_sound demo_drive"
proof -
  have "replicate 256 (2048 :: u16) = 2048 # replicate 255 2048" by (simp flip: replicate_Suc)
  then have "sector_bytes demo_drive 2048 ! 0 = 0" by (simp add: sector_bytes_def demo_drive_def le16_def)
  then show n: "\<not> superblock_ok (sector_bytes demo_drive 2048)" using superblock_ok_magic [of "sector_bytes demo_drive 2048"] by auto
  show "disk_sound demo_drive" using n by (simp add: disk_sound_def) (simp add: demo_drive_def)
qed

lemma demo_world_sound:
  assumes "length ks < 128" "list_all is_key ks" "list_all (list_all hardware_irq) halts"
  shows "sound fst (demo_world ks halts)" "pending (w_kbd (demo_world ks halts)) = ks"
proof -
  have "fish_ok (the (fish_init \<lparr>nodes = [], current = 0\<rparr>))" using fish_init_empty by (metis option.sel)
  then show "sound fst (demo_world ks halts)"
    using keyboard_with_pending [OF assms(1)] assms(2,3) demo_vga_ok demo_user_ok demo_drive_ok demo_disk(2)
    by (simp add: sound_def world_ok_def demo_world_def)
  show "pending (w_kbd (demo_world ks halts)) = ks" using keyboard_with_pending(1) [OF assms(1)] by (simp add: demo_world_def)
qed

subsection \<open>Properties\<close>

text \<open>
  The shell never breaks. On a machine with a working drive whose Fish sectors hold no image or one of a
  filesystem, from any state of the kernel that satisfies the invariant, and for every sequence of
  interrupts, so for every text anybody types, the loop of the shell with all its commands runs without
  undefined behaviour, never returns, keeps the invariant of every component to the end, and always comes to
  stand: in \<open>halt\<close> or \<open>reboot\<close>, or waiting for interrupts when there are none left. The one exception is a line
  that makes \<open>color\<close> overflow an \<open>int\<close>.
\<close>

theorem shell_never_breaks:
  assumes "machine b view" and "accepts_commands b" and "length stack = 512" and "sound view w"
    and "\<forall>w' t. prompts b stack w w' \<longrightarrow> line_read b w' t \<longrightarrow> \<not> overflowing t"
  shows "\<exists>w'. (shell_run b stack w = Some (Halted w') \<or> shell_run b stack w = Some (Waiting w')) \<and> sound view w'"
proof -
  from assms(5) have "gives (shell_run b stack w) (\<lambda>r. sound view (final r) \<and> (\<forall>w'. r \<noteq> Returned w'))"
    by (intro shell_run_ends [OF assms(1-4)]) blast
  then obtain r where "shell_run b stack w = Some r" "sound view (final r)" "\<forall>w'. r \<noteq> Returned w'"
    unfolding gives_def by blast
  then show ?thesis by (cases r) auto
qed

text \<open>A kernel without interrupts to come and without keys waits at the next prompt.\<close>

lemma idle_turn:
  assumes "machine b view" "sound view w" "w_halts w = []" "pending (w_kbd w) = []"
  shows "\<not> line_read b w t" "turn b stack w \<noteq> Some (Returned w')"
proof -
  obtain w1 where w1: "shell_prompt b w = Some w1" "quiet view w w1"
    using shell_prompt_does [OF assms(1,2)] by (auto simp: does_def gives_def)
  then have q: "sound view w1" "pending (w_kbd w1) = []" "w_halts w1 = []" using assms(3,4) by (simp_all add: quiet_def)
  have "\<exists>w2. read_line b 0 w1 = Some (Waiting w2)"
    by (rule read_line_wait [OF assms(1) q(1,2), of 0]) (use q(2,3) length_pending [of "w_kbd w1"] in \<open>auto simp: left_def\<close>)
  then obtain w2 where r: "read_line b 0 w1 = Some (Waiting w2)" by blast
  with w1(1) show "\<not> line_read b w t" "turn b stack w \<noteq> Some (Returned w')"
    by (simp_all add: line_read_def turn_def)
qed

text \<open>One line typed ahead: it is the only line ever read.\<close>

lemma one_line:
  assumes m: "machine b view" "accepts_commands b" "length stack = 512" and w: "sound view w" "w_halts w = []"
    and keys: "pending (w_kbd w) = keys @ [10]" "10 \<notin> set keys" "0 \<notin> set (foldl edit [] keys)"
    and safe: "\<not> overflowing (foldl edit [] keys)"
    and reached: "prompts b stack w w'" "line_read b w' t"
  shows "\<not> overflowing t"
proof -
  obtain w1 where w1: "shell_prompt b w = Some w1" "quiet view w w1"
    using shell_prompt_does [OF m(1) w(1)] by (auto simp: does_def gives_def)
  then have q: "sound view w1" "pending (w_kbd w1) = keys @ [10]" "w_halts w1 = []" using w(2) keys(1) by (simp_all add: quiet_def)
  from read_line_keys [OF m(1) q(1), of "[]" keys "[]"] q(2) keys(2) obtain w2 where
    w2: "read_line b 0 w1 = Some (Returned w2)" "sound view w2" "pending (w_kbd w2) = []"
    "take (Suc (length (foldl edit [] keys))) (w_line w2) = foldl edit [] keys @ [0]"
    "w2 = w1\<lparr>w_kbd := w_kbd w2, w_line := w_line w2, w_vga := w_vga w2, w_dev := w_dev w2\<rparr>" by auto
  have line: "text_of (w_line w2) = foldl edit [] keys" "terminated (w_line w2)"
    using text_of_append_zero [OF keys(3)] w2(4) append_take_drop_id [of "Suc (length (foldl edit [] keys))" "w_line w2"]
    by (metis append.assoc append_Cons append_Nil, metis terminated_append terminated_simps(2) append_Cons)
  have h2: "w_halts w2 = []" using w2(5) q(3) by (cases w1; cases w2) simp
  have first: "\<not> overflowing t" if "line_read b w t" for t using that w1(1) w2(1) line(1) safe by (auto simp: line_read_def)
  from execute_settles [OF m w2(2) line(2)] line(1) safe obtain r where r: "execute b stack w2 = Some r" "sound view (final r)"
    "later w2 (final r)" by (auto simp: settles_def gives_def)
  then have idle: "sound view (final r)" "w_halts (final r) = []" "pending (w_kbd (final r)) = []"
    using h2 w2(3) by (auto simp: later_def)
  have "turn b stack w = Some r" using w1(1) w2(1) r(1) by (simp add: turn_def)
  from reached(1) have "w' = w \<or> w' = final r"
  proof (induction rule: prompts.induct)
    case (next_turn v v')
    then show ?case using \<open>turn b stack w = Some r\<close> idle_turn(2) [OF m(1) idle] by auto
  qed simp
  with reached(2) first idle_turn(1) [OF m(1) idle] show ?thesis by auto
qed

theorem shell_never_breaks_witness:
  "\<exists>w'. (shell_run pc_bus (replicate 512 0) (demo_world [108, 115, 10] []) = Some (Halted w') \<or>
     shell_run pc_bus (replicate 512 0) (demo_world [108, 115, 10] []) = Some (Waiting w')) \<and> sound fst w'"
proof -
  have keys: "length [108, 115, 10 :: int] < 128" "list_all is_key [108, 115, 10]" by (simp_all add: is_key_def)
  note w = demo_world_sound [OF keys, of "[]", simplified list.pred_inject(1), OF TrueI]
  have line: "foldl edit [] [108, 115] = bytes_of ''ls''" by (simp add: edit_def)
  have safe: "\<not> overflowing (bytes_of ''ls'')" by (simp add: overflowing_def line_words_def Let_def)
  have halts: "w_halts (demo_world [108, 115, 10] []) = []" by (simp add: demo_world_def)
  have "\<forall>w' t. prompts pc_bus (replicate 512 0) (demo_world [108, 115, 10] []) w' \<longrightarrow> line_read pc_bus w' t \<longrightarrow> \<not> overflowing t"
    using one_line [OF pc_bus_machine pc_bus_accepts length_replicate w(1) halts, of "[108, 115]"] w(2) safe
    unfolding line by simp
  then show ?thesis by (rule shell_never_breaks [OF pc_bus_machine pc_bus_accepts length_replicate w(1)])
qed

text \<open>
  C14: Reading a line is editing it: with a partial line \<open>t\<close> in the buffer and the keys of the rest typed, up to
  the first Enter, the line that \<open>read_line\<close> delivers is what the reference editor \<open>edit\<close> makes of \<open>t\<close>, key by
  key; at most 255 characters, and terminated. The keys after Enter stay for the next line, and the console gets
  exactly the echo: each accepted character, and a backspace for each removed one, so never one that would
  reach into the prompt.
\<close>

theorem shell_reads_line:
  assumes "machine b view" and "sound view w" and "length t \<le> 255" and "take (length t) (w_line w) = t" and "0 \<notin> set t"
    and "pending (w_kbd w) = keys @ 10 # rest" and "10 \<notin> set keys"
  shows "\<exists>w'. read_line b (length t) w = Some (Returned w') \<and> sound view w' \<and>
    text_of (w_line w') = foldl edit t keys \<and> terminated (w_line w') \<and> length (foldl edit t keys) \<le> 255 \<and>
    pending (w_kbd w') = rest \<and> w_halts w' = w_halts w \<and>
    vga_write b (echoes t keys @ [10, 0]) (w_vga w, w_dev w) = Some (w_vga w', w_dev w')"
proof -
  from read_line_keys [OF assms(1,2,3,4,6,7)] obtain w' where w': "read_line b (length t) w = Some (Returned w')" "sound view w'"
    "pending (w_kbd w') = rest" "take (Suc (length (foldl edit t keys))) (w_line w') = foldl edit t keys @ [0]"
    "w' = w\<lparr>w_kbd := w_kbd w', w_line := w_line w', w_vga := w_vga w', w_dev := w_dev w'\<rparr>"
    "vga_write b (echoes t keys @ [10, 0]) (w_vga w, w_dev w) = Some (w_vga w', w_dev w')" by blast
  have is_key: "list_all is_key keys" using soundD(2) [OF assms(2)] assms(6) by (simp add: keyboard_ok_def)
  have "0 \<notin> set (foldl edit t keys)" using assms(5) is_key
  proof (induction keys arbitrary: t)
    case (Cons k ks)
    then have "0 \<notin> set (edit t k)" using key_char [of k] by (auto simp: edit_def dest: in_set_butlastD)
    with Cons show ?case by simp
  qed simp
  moreover have "w_line w' = foldl edit t keys @ 0 # drop (Suc (length (foldl edit t keys))) (w_line w')"
    using append_take_drop_id [of "Suc (length (foldl edit t keys))" "w_line w'"] unfolding w'(4) by simp
  ultimately have line: "text_of (w_line w') = foldl edit t keys" "terminated (w_line w')"
    by (metis text_of_append_zero, metis terminated_append terminated_simps(2))
  have "length (foldl edit t keys) \<le> 255" using assms(3)
    by (induction keys arbitrary: t) (simp_all add: length_edit)
  moreover have "w_halts w' = w_halts w" using w'(5) by (cases w; cases w') simp
  ultimately show ?thesis using w'(1-3,6) line by (intro exI [of _ w']) simp
qed

theorem shell_reads_line_witness:
  "\<exists>w'. read_line pc_bus 0 (demo_world [104, 105, 8, 8, 8, 111, 107, 0x102, 10, 108] []) = Some (Returned w') \<and>
     text_of (w_line w') = bytes_of ''ok'' \<and> pending (w_kbd w') = [108] \<and>
     echoes [] [104, 105, 8, 8, 8, 111, 107, 0x102] = [104, 105, 8, 8, 111, 107]"
proof -
  have keys: "length [104, 105, 8, 8, 8, 111, 107, 0x102, 10, 108 :: int] < 128" "list_all is_key [104, 105, 8, 8, 8, 111, 107, 0x102, 10, 108]"
    by (simp_all add: is_key_def key_defs)
  note w = demo_world_sound [OF keys, of "[]", simplified list.pred_inject(1), OF TrueI]
  have line: "foldl edit [] [104, 105, 8, 8, 8, 111, 107, 0x102] = bytes_of ''ok''"
    "echoes [] [104, 105, 8, 8, 8, 111, 107, 0x102] = [104, 105, 8, 8, 111, 107]" by (simp_all add: edit_def echo_def)
  from shell_reads_line [OF pc_bus_machine w(1), of "[]" "[104, 105, 8, 8, 8, 111, 107, 0x102]" "[108]"] w(2) show ?thesis
    unfolding line by auto
qed

text \<open>
  C15: Dispatch. Of a line, leading spaces are skipped; the first word selects the command, and the command gets the
  rest of the line after the spaces that follow; an empty line does nothing and a word that is no command is named in
  the message. Every command of the table is found by its own name: no name hides another; and every function has its row.
\<close>

theorem shell_dispatch:
  assumes "terminated (w_line w)" and "line_words (text_of (w_line w)) = (x, y)"
  shows "(x = [] \<longrightarrow> execute b stack w = Some (Returned w)) \<and>
    (x \<noteq> [] \<longrightarrow> (\<exists>line s arg. length line = length (w_line w) \<and> terminated s \<and> text_of s = x \<and>
       terminated arg \<and> length arg \<le> length (w_line w) \<and> text_of arg = y \<and>
       execute b stack w = (let w = w\<lparr>w_line := line\<rparr> in case command_of x of
           Some r \<Rightarrow> run_command b stack (c_run r) arg w
         | None \<Rightarrow> do { w \<leftarrow> print b s w; w \<leftarrow> print b (literal '': command not found. Type help.\<newline>'') w; Some (Returned w) }))) \<and>
    list_all (\<lambda>r. command_of (text_of (c_name r)) = Some r) commands \<and> c_run ` set commands = UNIV"
proof (intro conjI impI)
  show "c_run ` set commands = UNIV" using enum_UNIV by (metis UNIV_enum enum_command_fn_def set_map)
  show "x = [] \<Longrightarrow> execute b stack w = Some (Returned w)" using execute_eq(1) [OF assms] by simp
  show "list_all (\<lambda>r. command_of (text_of (c_name r)) = Some r) commands"
    by (simp add: command_of_def commands_def row_def literal_def)
qed (rule execute_eq(2) [OF assms])

theorem shell_dispatch_witness:
  "\<exists>line arg. execute pc_bus [] (demo_world [] []\<lparr>w_line := literal ''  cat   a.txt''\<rparr>) =
       run_command pc_bus [] Cmd_cat arg (demo_world [] []\<lparr>w_line := line\<rparr>) \<and> text_of arg = bytes_of ''a.txt''"
proof -
  let ?w = "demo_world [] []\<lparr>w_line := literal ''  cat   a.txt''\<rparr>"
  have t: "terminated (w_line ?w)" by simp
  have words: "line_words (text_of (w_line ?w)) = (bytes_of ''cat'', bytes_of ''a.txt'')"
    by (simp add: line_words_def literal_def Let_def)
  have ne: "bytes_of ''cat'' \<noteq> []" by simp
  have row: "command_of (bytes_of ''cat'') = Some (row ''cat'' ''<file>'' ''show what is inside a file'' Cmd_cat)"
    by (simp add: command_of_def commands_def row_def literal_def)
  from shell_dispatch [OF t words, of pc_bus "[]"] ne obtain line arg where "text_of arg = bytes_of ''a.txt''"
    "execute pc_bus [] ?w = run_command pc_bus [] Cmd_cat arg (?w\<lparr>w_line := line\<rparr>)"
    unfolding row by (auto simp: row_def Let_def)
  then show ?thesis by (intro exI [of _ line] exI [of _ arg]) simp
qed

text \<open>
  C17: \<open>ls\<close> ends and writes one line for each entry of the current directory and none for anything else, with its kind, its
  name and, for a file, its size in decimal, in the colour of its kind; in an empty directory it says so.
\<close>

theorem shell_ls:
  assumes "machine b view" and "sound view w"
  shows "\<exists>es w'. lists (w_fish w) es \<and> cmd_ls b w = Some w' \<and> quiet view w w' \<and>
    cmd_ls b w = do {
      w \<leftarrow> show_entries b es w;
      let w = color VGA_LIGHT_GREY VGA_BLACK w;
      if es = [] then print b (literal ''Directory is empty.\<newline>'') w else Some w }"
proof -
  obtain es where es: "list_loop 65 fish_first (w_fish w) = Some es" "lists (w_fish w) es"
    using fish_listing [OF soundD(5) [OF assms(2)]] by blast
  obtain w' where "cmd_ls b w = Some w'" "quiet view w w'"
    using cmd_ls_does [OF assms] by (auto simp: does_def gives_def)
  moreover from cmd_ls_eq [OF es(1), of b]
  have "cmd_ls b w = do {
      w \<leftarrow> show_entries b es w;
      let w = color VGA_LIGHT_GREY VGA_BLACK w;
      if es = [] then print b (literal ''Directory is empty.\<newline>'') w else Some w }"
    unfolding ls_entries_eq [OF listing_terminated [OF es(2)]] .
  ultimately show ?thesis using es(2) by blast
qed

theorem shell_ls_witness:
  "\<exists>fs es w'. volume_of fs = demo_volume \<and> cmd_ls pc_bus (demo_world [] []\<lparr>w_fish := fs\<rparr>) = Some w' \<and>
     lists fs es \<and> bytes_of ''a.txt'' \<in> set (map (\<lambda>(nm, _). text_of nm) es)"
proof -
  from demo_state obtain fs where fs: "fish_ok fs" "volume_of fs = demo_volume" by blast
  let ?w = "demo_world [] []\<lparr>w_fish := fs\<rparr>"
  have "sound fst (demo_world [] [])" by (rule demo_world_sound(1)) simp_all
  then have w: "sound fst ?w" using fs(1) by (simp add: sound_def world_ok_def)
  from shell_ls [OF pc_bus_machine w] obtain es w' where l: "lists fs es" "cmd_ls pc_bus ?w = Some w'" by auto
  have "tree (volume_of fs) (cwd (volume_of fs) @ [bytes_of ''a.txt'']) \<noteq> None" by (simp add: fs(2) demo_volume_def)
  with l(1) have "bytes_of ''a.txt'' \<in> set (map (\<lambda>(nm, _). text_of nm) es)" unfolding lists_def by blast
  with l fs(2) show ?thesis by blast
qed

text \<open>
  C19: The numbers in arguments. \<open>sleep\<close> and \<open>help\<close> accept exactly the strings of digits and read them
  modulo \<open>2 ^ 32\<close>, so that \<^verbatim>\<open>sleep 4294967297\<close> is a sleep of one second and not refused; \<open>color\<close>
  reads them in \<open>int\<close>, which from \<open>2 ^ 31\<close> on overflows: undefined behaviour at the hands of the user. The numbers up to
  15 are the colours of the enumeration, in its order; a greater one is refused.
\<close>

theorem shell_numbers:
  assumes "terminated s"
  shows "parse_unsigned 0 s =
      Some (if list_all is_digit (text_of s) then Some (of_nat (decimal 0 (text_of s))) else None) \<and>
    (list_all is_digit (text_of s) \<longrightarrow> parse_int 0 s =
      (if decimal 0 (text_of s) < 2 ^ 31 then Some (Some (int (decimal 0 (text_of s)))) else None)) \<and>
    (list_all is_digit (text_of s) \<longrightarrow> text_of s \<noteq> [] \<longrightarrow> decimal 0 (text_of s) < 2 ^ 31 \<longrightarrow>
      (if decimal 0 (text_of s) \<le> 15
       then \<exists>c. color_code c = of_nat (decimal 0 (text_of s)) \<and>
         cmd_color b s w = print b (literal ''Color changed.\<newline>'') (color c VGA_BLACK w)
       else cmd_color b s w = print b (literal ''color: pick a number from 0 to 15\<newline>'') w))"
  using parse_unsigned_eq [OF assms, of 0] parse_int_eq [OF assms, of 0]
  by (intro conjI impI cmd_color_number assms) simp_all

theorem shell_numbers_witness:
  "parse_unsigned 0 (literal ''4294967297'') = Some (Some 1) \<and> parse_int 0 (literal ''2147483648'') = None \<and>
   parse_int 0 (literal ''15'') = Some (Some 15) \<and> parse_unsigned 0 (literal ''1s'') = Some None"
  using shell_numbers [of "literal ''4294967297''" pc_bus "demo_world [] []"] shell_numbers [of "literal ''2147483648''" pc_bus "demo_world [] []"]
    shell_numbers [of "literal ''15''" pc_bus "demo_world [] []"] shell_numbers [of "literal ''1s''" pc_bus "demo_world [] []"]
  by (simp add: literal_def is_digit_def)

text \<open>
  C20: \<open>sleep\<close> with a number of at most 60 waits in the halts, whatever interrupts come: it returns after
  the first halt with which the ticks of 10 ms make up the seconds, never before, and it does return when
  enough ticks come. The keys typed meanwhile wait for the next line.
\<close>

theorem shell_sleep_lasts:
  assumes "machine b view" and "sound view w" and "timer_slot (w_slots w)"
    and "terminated arg" and "text_of arg \<noteq> []" and "list_all is_digit (text_of arg)" and "decimal 0 (text_of arg) \<le> 60"
    and "\<forall>rs \<in> set (w_halts w). length rs \<le> 2 ^ 31"
    and "100 * decimal 0 (text_of arg) \<le> sum_list (map ticks_in (w_halts w))"
  shows "\<exists>n w'. cmd_sleep b arg w = Some (Returned w') \<and> sound view w' \<and> n \<le> length (w_halts w) \<and>
    w_halts w' = drop n (w_halts w) \<and> w_ticks w' = w_ticks w + of_nat (sum_list (map ticks_in (take n (w_halts w)))) \<and>
    100 * decimal 0 (text_of arg) \<le> sum_list (map ticks_in (take n (w_halts w))) \<and>
    (\<forall>m < n. sum_list (map ticks_in (take m (w_halts w))) < 100 * decimal 0 (text_of arg))"
proof -
  let ?k = "decimal 0 (text_of arg)" and ?ws = "map ticks_in (w_halts w)"
  have u: "unat (of_nat ?k :: u32) = ?k" using assms(7) by (simp only: unat_of_nat) simp
  have "(of_nat ?k :: u32) \<le> 60" unfolding word_le_nat_alt u using assms(7) by simp
  from cmd_sleep_number [OF assms(4-6) this, of b w, unfolded u]
  have c: "cmd_sleep b arg w = sleep_halts b (w_ticks w + of_nat (100 * ?k)) (w_halts w) w" .
  have "ticks_in rs \<le> length rs" for rs by (simp add: ticks_in_def)
  then have ws: "\<forall>t \<in> set ?ws. t \<le> 2 ^ 31" using assms(8) by (auto intro: order_trans)
  have "100 * ?k < 2 ^ 31" using assms(7) by simp
  from sleep_loop_ends [OF this ws, of 0 "w_ticks w"] assms(9) obtain n where n: "n \<le> length ?ws"
    "sleep_loop (w_ticks w + of_nat (100 * ?k)) ?ws (w_ticks w) = Some (w_ticks w + of_nat (sum_list (take n ?ws)), drop n ?ws)"
    "100 * ?k \<le> sum_list (take n ?ws)" "\<forall>m < n. sum_list (take m ?ws) < 100 * ?k" by auto
  from sleep_halts_loop [OF assms(1,2) refl assms(3) n(2)] obtain w' where
    "sleep_halts b (w_ticks w + of_nat (100 * ?k)) (w_halts w) w = Some (Returned w')" "sound view w'"
    "w_ticks w' = w_ticks w + of_nat (sum_list (take n ?ws))" "w_halts w' = drop n (w_halts w)" using n(1) by auto
  with n c show ?thesis by (intro exI [of _ n] exI [of _ w']) (simp add: take_map)
qed

theorem shell_sleep_lasts_witness:
  "\<exists>w'. cmd_sleep pc_bus (literal ''2'') (demo_world [] (replicate 300 [at_vector 32])) = Some (Returned w') \<and>
     w_halts w' = replicate 100 [at_vector 32] \<and> w_ticks w' = 184"
proof -
  let ?hs = "replicate 300 [at_vector 32]" and ?w = "demo_world [] (replicate 300 [at_vector 32])"
  let ?k = "decimal 0 (text_of (literal ''2''))"
  have irq: "hardware_irq (at_vector 32)" by (auto simp: hardware_irq_def at_vector_def intro!: exI [of _ 0])
  have w: "sound fst ?w" by (rule demo_world_sound(1)) (simp_all add: irq list_all_iff)
  have hs: "w_halts ?w = ?hs" "w_ticks ?w = 0xFFFFFFF0" by (simp_all add: demo_world_def)
  have sum: "sum_list (map ticks_in (take n ?hs)) = min n 300" for n
    by (simp add: ticks_in_def at_vector_def sum_list_replicate)
  then have all: "sum_list (map ticks_in ?hs) = 300" by (metis length_replicate min.idem take_all order_refl)
  have slot: "timer_slot (w_slots ?w)" by (auto simp: timer_slot_def demo_world_def nth_Cons' nth_append)
  have arg: "terminated (literal ''2'')" "text_of (literal ''2'') \<noteq> []" "list_all is_digit (text_of (literal ''2''))" "?k = 2"
    by (simp_all add: literal_def is_digit_def)
  have "?k \<le> 60" "\<forall>rs \<in> set (w_halts ?w). length rs \<le> 2 ^ 31" "100 * ?k \<le> sum_list (map ticks_in (w_halts ?w))"
    unfolding hs all arg(4) by simp_all
  from shell_sleep_lasts [OF pc_bus_machine w slot arg(1-3) this] obtain n w' where
    r: "cmd_sleep pc_bus (literal ''2'') ?w = Some (Returned w')" "n \<le> length ?hs" "w_halts w' = drop n ?hs"
    "w_ticks w' = 0xFFFFFFF0 + of_nat (min n 300)" "200 \<le> min n 300" "\<forall>m < n. min m 300 < 200"
    unfolding hs sum arg(4) by auto
  from r(6) [rule_format, of 200] r(5) have "n = 200" by (cases "n = 200") auto
  with r(1,3,4) show ?thesis by auto
qed

end
