(* ===== verification/Shell_Screen.thy ===== *)
theory Shell_Screen
  imports Shell_Props
begin

text \<open>
  What the commands show. The commands whose business is output put a text on the console, and this theory says which, for
  the screen as it is seen: the terminal of 25 lines that the console is, with scrolling, tabs and all.
\<close>

subsection \<open>Text on the screen\<close>

text \<open>A text is shown: the console has the effect of its characters, in the same colour, and nothing but the console changes.\<close>

definition shown :: "('d \<Rightarrow> drive) \<Rightarrow> bytes \<Rightarrow> 'd world \<Rightarrow> 'd world \<Rightarrow> bool" where
  "shown view s w w' \<longleftrightarrow> sound view w' \<and> console_only view w w' \<and> v_color (w_vga w') = v_color (w_vga w) \<and>
     terminal_of (w_vga w') = fold (term_char (v_color (w_vga w))) s (terminal_of (w_vga w))"

text \<open>An action that shows a text and does nothing else.\<close>

definition puts :: "('d \<Rightarrow> drive) \<Rightarrow> bytes \<Rightarrow> 'd world \<Rightarrow> 'd world option \<Rightarrow> bool" where
  "puts view s w x \<longleftrightarrow> gives x (shown view s w)"

lemma puts_nothing: "sound view w \<Longrightarrow> puts view [] w (Some w)"
  by (simp add: puts_def shown_def)

lemma puts_bind:
  assumes "puts view s w x" "\<And>w'. shown view s w w' \<Longrightarrow> sound view w' \<Longrightarrow> puts view t w' (f w')"
  shows "puts view (s @ t) w (Option.bind x f)"
proof -
  from assms(1) obtain w1 where w1: "x = Some w1" "shown view s w w1" by (auto simp: puts_def gives_def)
  then have "sound view w1" by (simp add: shown_def)
  from assms(2) [OF w1(2) this] obtain w2 where "f w1 = Some w2" "shown view t w1 w2" by (auto simp: puts_def gives_def)
  moreover from this(2) w1(2) have "shown view (s @ t) w w2"
    by (auto simp: shown_def intro: console_only_trans)
  ultimately show ?thesis using w1(1) by (simp add: puts_def)
qed

lemma puts_end: "puts view (s @ []) w x \<Longrightarrow> puts view s w x"
  by simp

lemma puts_putc:
  assumes m: "machine b view" and w: "sound view w"
  shows "puts view [c] w (putc b c w)"
proof -
  obtain w' where w': "putc b c w = Some w'" "sound view w'" "w' = w\<lparr>w_vga := w_vga w', w_dev := w_dev w'\<rparr>"
    "vga_putchar b c (w_vga w, w_dev w) = Some (w_vga w', w_dev w')" by (rule putc_world [OF m w])
  obtain v' where "vga_putchar b c (w_vga w, w_dev w) = Some (v', update_cursor b v' (w_dev w))" "v_color v' = v_color (w_vga w)"
    "terminal_of v' = term_char (v_color (w_vga w)) c (terminal_of (w_vga w))" by (rule vga_putchar_refines [OF soundD(1) [OF w]])
  moreover from this(1) w'(4) have "view (w_dev w') = view (w_dev w)" by (simp add: view_update_cursor [OF m])
  ultimately show ?thesis using w' by (simp add: puts_def shown_def console_only_def)
qed

lemma puts_print:
  assumes m: "machine b view"
  shows "terminated s \<Longrightarrow> sound view w \<Longrightarrow> puts view (text_of s) w (print b s w)"
proof (induction s arbitrary: w)
  case (Cons c s)
  show ?case
  proof (cases "c = 0")
    case True
    with Cons.prems puts_nothing show ?thesis by (simp add: print_putc)
  next
    case False
    have "puts view ([c] @ text_of s) w (do { w \<leftarrow> putc b c w; print b s w })"
      using Cons False by (intro puts_bind puts_putc m) auto
    with False show ?thesis by (simp add: print_putc)
  qed
qed simp

lemma puts_literal: "machine b view \<Longrightarrow> sound view w \<Longrightarrow> puts view (bytes_of t) w (print b (literal t) w)" if "0 \<notin> set (bytes_of t)" for t
  using puts_print [of b view "literal t" w] that by (simp add: literal_def text_of_append_zero)

lemma puts_number: "machine b view \<Longrightarrow> sound view w \<Longrightarrow> puts view (utoa_text n 10) w (print_number b n w)"
  using print_number_eq [of b n] puts_print by metis

subsection \<open>The texts\<close>

text \<open>A count with its unit, and a duration in hours, minutes and seconds, as \<open>uptime\<close> words it.\<close>

definition unit_text :: "u32 \<Rightarrow> string \<Rightarrow> bytes" where
  "unit_text n word = utoa_text n 10 @ [32] @ bytes_of word @ (if n \<noteq> 1 then [115] else [])"

definition uptime_text :: "u32 \<Rightarrow> bytes" where
  "uptime_text secs = (let hours = secs div 3600; minutes = (secs div 60) mod 60 in
     bytes_of ''up '' @
     (if hours > 0 then unit_text hours ''hour'' @ bytes_of '', '' else []) @
     (if minutes > 0 then unit_text minutes ''minute'' @ bytes_of '', '' else []) @
     unit_text (secs mod 60) ''second'' @ [10])"

text \<open>A file as \<open>cat\<close> shows it: the content, and a new line unless it ends with one or is empty.\<close>

definition cat_text :: "bytes option \<Rightarrow> bytes" where
  "cat_text file = (case file of None \<Rightarrow> bytes_of ''cat: no such file\<newline>''
     | Some s \<Rightarrow> if s \<noteq> [] \<and> last s \<noteq> 10 then s @ [10] else s)"

fun output_of :: "command_fn \<Rightarrow> bytes \<Rightarrow> 'd world \<Rightarrow> bytes option" where
  "output_of Cmd_echo t w = Some (t @ [10])"
| "output_of Cmd_cat t w = (if t = [] then Some (bytes_of ''Usage: cat <file>\<newline>'') else Some (cat_text (spec_read t (volume_of (w_fish w)))))"
| "output_of Cmd_pwd t w = Some (take 255 (path_text (cwd (volume_of (w_fish w)))) @ [10])"
| "output_of Cmd_whoami t w = Some (text_of (user_name (w_user w)) @ [10])"
| "output_of Cmd_uptime t w = Some (uptime_text (timer_seconds (w_ticks w)))"
| "output_of Cmd_ticks t w = Some (utoa_text (timer_ticks (w_ticks w)) 10 @ bytes_of '' ticks at 100 Hz\<newline>'')"
| "output_of _ t w = None"

lemma puts_unit:
  "machine b view \<Longrightarrow> 0 \<notin> set (bytes_of word) \<Longrightarrow> sound view w \<Longrightarrow> puts view (unit_text n word) w (print_unit b n (literal word) w)"
  unfolding unit_text_def print_unit_def
  by (intro puts_bind puts_number puts_putc puts_literal) (auto intro: puts_putc puts_nothing)

lemma cmd_uptime_puts:
  assumes m: "machine b view" and w: "sound view w"
  shows "puts view (uptime_text (timer_seconds (w_ticks w))) w (cmd_uptime b w)"
proof -
  have part: "puts view (if n > 0 then unit_text n word @ bytes_of '', '' else []) w1
      (if n > 0 then do { w \<leftarrow> print_unit b n (literal word) w1; print b (literal '', '') w } else Some w1)"
    if "0 \<notin> set (bytes_of word)" "sound view w1" for n word w1
  proof (cases "n > 0")
    case True
    show ?thesis unfolding if_P [OF True] by (intro puts_bind puts_unit puts_literal m that) simp_all
  qed (use that in \<open>simp add: puts_nothing\<close>)
  show ?thesis unfolding uptime_text_def cmd_uptime_def Let_def
    by (intro puts_bind part puts_unit puts_literal puts_putc m w) simp_all
qed

lemma puts_cat_loop:
  "machine b view \<Longrightarrow> sound view w \<Longrightarrow> i + n \<le> length data \<Longrightarrow> puts view (take n (drop i data)) w (cat_loop b n i data w)"
proof (induction n arbitrary: i w)
  case (Suc n)
  have "puts view ([data ! i] @ take n (drop (Suc i) data)) w (do { w \<leftarrow> putc b (data ! i) w; cat_loop b n (Suc i) data w })"
    using Suc by (intro puts_bind puts_putc) auto
  with Suc.prems(3) show ?case by (simp add: aget_def nth_drop_Cons)
qed (simp add: puts_nothing)

lemma puts_cat_message:
  "machine b view \<Longrightarrow> sound view w \<Longrightarrow> puts view (bytes_of ''Usage: cat <file>\<newline>'') w (print b (literal ''Usage: cat <file>\<newline>'') w)"
  "machine b view \<Longrightarrow> sound view w \<Longrightarrow> puts view (bytes_of ''cat: no such file\<newline>'') w (print b (literal ''cat: no such file\<newline>'') w)"
  by (rule puts_literal; simp)+

lemma cmd_cat_puts:
  assumes m: "machine b view" and w: "sound view w" and arg: "terminated arg"
  shows "puts view (if text_of arg = [] then bytes_of ''Usage: cat <file>\<newline>'' else cat_text (spec_read (text_of arg) (volume_of (w_fish w)))) w
    (cmd_cat b arg w)"
proof -
  obtain c where c: "aget arg 0 = Some c" "c = 0 \<longleftrightarrow> text_of arg = []" using terminated_aget [OF arg] by blast
  obtain r where r: "fish_read arg (w_fish w) = Some r" "map_option (\<lambda>(k, d). take (unat k) d) r = spec_read (text_of arg) (volume_of (w_fish w))"
    "\<forall>k d. r = Some (k, d) \<longrightarrow> unat k \<le> length d"
    using fish_read_refines [OF soundD(5) [OF w] arg] by blast
  show ?thesis
  proof (cases r)
    case None
    with c r show ?thesis using puts_cat_message [OF m w]
      by (auto simp: cmd_cat_def cat_text_def simp del: bytes_of_Cons bytes_of_Nil)
  next
    case (Some q)
    obtain len data where q: "r = Some (len, data)" using Some by (cases q) auto
    let ?s = "take (unat len) data"
    have len: "unat len \<le> length data" and s: "spec_read (text_of arg) (volume_of (w_fish w)) = Some ?s" using r q by auto
    have e: "cat_text (Some ?s) = ?s @ (if ?s \<noteq> [] \<and> last ?s \<noteq> 10 then [10] else [])" by (simp add: cat_text_def)
    have "puts view (?s @ (if ?s \<noteq> [] \<and> last ?s \<noteq> 10 then [10] else [])) w (do {
        w \<leftarrow> cat_loop b (unat len) 0 data w;
        if len > 0 then do { c \<leftarrow> aget data (unat (len - 1)); if c \<noteq> 10 then putc b 10 w else Some w } else Some w })"
    proof (rule puts_bind)
      show "puts view ?s w (cat_loop b (unat len) 0 data w)" using puts_cat_loop [OF m w, of 0 "unat len" data] len by simp
      fix w' assume "sound view w'"
      show "puts view (if ?s \<noteq> [] \<and> last ?s \<noteq> 10 then [10] else []) w'
          (if len > 0 then do { c \<leftarrow> aget data (unat (len - 1)); if c \<noteq> 10 then putc b 10 w' else Some w' } else Some w')"
      proof (cases "len > 0")
        case True
        then have "unat (len - 1) = unat len - 1" "0 < unat len" using unat_dec [of len] by (simp_all add: word_less_nat_alt)
        moreover from this len have ne: "?s \<noteq> []" by auto
        moreover have "last ?s = data ! (unat len - 1)" using len \<open>0 < unat len\<close> unfolding last_conv_nth [OF ne] by (simp add: min_def)
        ultimately have "aget data (unat (len - 1)) = Some (last ?s)" "?s \<noteq> []" using len by (auto simp: aget_def)
        with True \<open>sound view w'\<close> show ?thesis by (auto intro: puts_putc [OF m] puts_nothing)
      next
        case False
        with \<open>sound view w'\<close> show ?thesis by (simp add: puts_nothing word_gt_0)
      qed
    qed
    then have p: "puts view (cat_text (Some ?s)) w (do {
        w \<leftarrow> cat_loop b (unat len) 0 data w;
        if len > 0 then do { c \<leftarrow> aget data (unat (len - 1)); if c \<noteq> 10 then putc b 10 w else Some w } else Some w })"
      unfolding e .
    show ?thesis
    proof (cases "text_of arg = []")
      case True
      with c puts_cat_message [OF m w] show ?thesis by (auto simp: cmd_cat_def simp del: bytes_of_Cons bytes_of_Nil)
    next
      case False
      with c r(1) q s p show ?thesis by (simp add: cmd_cat_def)
    qed
  qed
qed

lemma cmd_pwd_puts:
  assumes m: "machine b view" and w: "sound view w"
  shows "puts view (take 255 (path_text (cwd (volume_of (w_fish w)))) @ [10]) w (cmd_pwd b w)"
proof -
  obtain p where p: "fish_path (replicate FISH_PATH_MAX 0) FISH_PATH_MAX (w_fish w) = Some p" "terminated p"
    "text_of p = take 255 (path_text (cwd (volume_of (w_fish w))))"
    using fish_path_refines [OF soundD(5) [OF w], of FISH_PATH_MAX "replicate FISH_PATH_MAX 0"] by (auto simp: fish_sizes)
  have "puts view (text_of p @ [10]) w (do { w \<leftarrow> print b p w; putc b 10 w })"
    by (intro puts_bind puts_print puts_putc m w p(2))
  with p(1,3) show ?thesis by (simp add: cmd_pwd_def)
qed

lemma cmd_ticks_puts:
  assumes m: "machine b view" and w: "sound view w"
  shows "puts view (utoa_text (timer_ticks (w_ticks w)) 10 @ bytes_of '' ticks at 100 Hz\<newline>'') w (cmd_ticks b w)"
proof -
  have "puts view (utoa_text (timer_ticks (w_ticks w)) 10 @ bytes_of '' ticks at '' @ utoa_text TIMER_HZ 10 @ bytes_of '' Hz\<newline>'') w (cmd_ticks b w)"
    unfolding cmd_ticks_def by (intro puts_bind puts_number puts_literal m w) simp_all
  moreover have "utoa_text TIMER_HZ 10 = bytes_of ''100''" by code_simp
  ultimately show ?thesis by simp
qed

lemma output_puts:
  assumes m: "machine b view" and w: "sound view w" and arg: "terminated arg" and out: "output_of f (text_of arg) w = Some s"
  shows "\<exists>x. run_command b stack f arg w = map_option Returned x \<and> puts view s w x"
  using out
proof (cases f)
  case Cmd_echo
  have "puts view (text_of arg @ [10]) w (cmd_echo b arg w)"
    unfolding cmd_echo_def by (intro puts_bind puts_print puts_putc m w arg)
  with out Cmd_echo show ?thesis by auto
next
  case Cmd_whoami
  have "puts view (text_of (user_name (w_user w)) @ [10]) w (cmd_whoami b w)"
    unfolding cmd_whoami_def using sound_terminated [OF w] by (intro puts_bind puts_print puts_putc m w) auto
  with out Cmd_whoami show ?thesis by auto
next
  case Cmd_cat
  with out cmd_cat_puts [OF m w arg] show ?thesis by (auto split: if_splits)
qed (use out cmd_pwd_puts [OF m w] cmd_uptime_puts [OF m w] cmd_ticks_puts [OF m w] in auto)

lemma fish_fail_puts:
  assumes m: "machine b view" and w: "sound view w" and cmd: "terminated cmd"
  shows "puts view (text_of cmd @ bytes_of '': '' @ text_of (fish_error r) @ [10]) w (fish_fail b cmd r w)"
  unfolding fish_fail_def by (intro puts_bind puts_print puts_literal puts_putc m w cmd) (simp_all add: fish_error_def)

subsection \<open>Properties\<close>

text \<open>
  C16: What the commands show. \<open>echo\<close>, \<open>cat\<close>, \<open>pwd\<close>, \<open>whoami\<close>, \<open>uptime\<close> and \<open>ticks\<close> return and have on the screen exactly
  the effect of their text, character by character: the argument, the content of the file in the tree with a new line
  if it needs one, the path, the name, the time in hours, minutes and seconds with their plurals, the
  counter. They change nothing else: the colour of the console stays, and the whole state of the kernel but the console is equal
  to what it was, the drive with its contents included.
\<close>

theorem shell_shows:
  assumes "machine b view" and "sound view w" and "terminated arg" and "output_of f (text_of arg) w = Some s"
  shows "\<exists>w'. run_command b stack f arg w = Some (Returned w') \<and> sound view w' \<and>
    w' = w\<lparr>w_vga := w_vga w', w_dev := w_dev w'\<rparr> \<and> view (w_dev w') = view (w_dev w) \<and> v_color (w_vga w') = v_color (w_vga w) \<and>
    terminal_of (w_vga w') = fold (term_char (v_color (w_vga w))) s (terminal_of (w_vga w))"
proof -
  from output_puts [OF assms, of stack] obtain w' where w': "run_command b stack f arg w = Some (Returned w')" "shown view s w w'"
    by (auto simp: puts_def gives_def)
  then show ?thesis unfolding shown_def console_only_def by (intro exI [of _ w'] conjI) (elim conjE, assumption)+
qed

text \<open>In \<^verbatim>\<open>/notes\<close>, where \<^verbatim>\<open>a.txt\<close> holds hello world.\<close>

theorem shell_shows_witness:
  "\<exists>fs w'. volume_of fs = demo_volume \<and>
     run_command pc_bus [] Cmd_cat (literal ''a.txt'') (demo_world [] []\<lparr>w_fish := fs\<rparr>) = Some (Returned w') \<and>
     terminal_of (w_vga w') = fold (term_char (v_color demo_vga)) (bytes_of ''hello world\<newline>'') (terminal_of demo_vga) \<and>
     uptime_text 3662 = bytes_of ''up 1 hour, 1 minute, 2 seconds\<newline>''"
proof -
  from demo_state obtain fs where fs: "fish_ok fs" "volume_of fs = demo_volume" by blast
  let ?w = "demo_world [] []\<lparr>w_fish := fs\<rparr>"
  have "sound fst (demo_world [] [])" by (rule demo_world_sound(1)) simp_all
  then have w: "sound fst ?w" using fs(1) by (simp add: sound_def world_ok_def)
  have t: "terminated (literal ''a.txt'')" "text_of (literal ''a.txt'') = bytes_of ''a.txt''" by (simp_all add: text_of_literal)
  have "output_of Cmd_cat (text_of (literal ''a.txt'')) ?w = Some (bytes_of ''hello world\<newline>'')"
    unfolding t(2) by (simp add: fs(2) demo_volume_def spec_read_def cat_text_def)
  from shell_shows [OF pc_bus_machine w t(1) this, of "[]"] obtain w' where
    "run_command pc_bus [] Cmd_cat (literal ''a.txt'') ?w = Some (Returned w')"
    "terminal_of (w_vga w') = fold (term_char (v_color (w_vga ?w))) (bytes_of ''hello world\<newline>'') (terminal_of (w_vga ?w))" by blast
  moreover have "w_vga ?w = demo_vga" by (simp add: demo_world_def)
  moreover have "uptime_text 3662 = bytes_of ''up 1 hour, 1 minute, 2 seconds\<newline>''" by code_simp
  ultimately show ?thesis using fs(2) by auto
qed

text \<open>
  C12: The Fish commands. \<open>mkdir\<close>, \<open>touch\<close>, \<open>cd\<close>, \<open>rm\<close>, \<open>write\<close> and \<open>append\<close> with an argument return, and do to the tree of
  paths exactly what the specification says of the call they stand for, success or failure. On success the screen stays as it
  is; on failure it has the effect of one line more, in the colour that was set: the name of the command, a colon and the message for the
  code of the failure. Nothing but the filesystem and the console changes, and no interrupt is waited for.
  \<open>write\<close> and \<open>append\<close> split their argument again: the first word, cut at 31 characters, is the
  file and the rest the text. So of a name of more than 31 characters the tail is written into the file named by its head.
\<close>

theorem shell_fish_commands:
  assumes "machine b view" and "sound view w" and "arg_ok arg" and "text_of arg \<noteq> []"
    and "shell_call f (text_of arg) = Some c"
  shows "\<exists>r w'. run_command b stack f arg w = Some (Returned w') \<and> sound view w' \<and>
    spec_call c (volume_of (w_fish w)) = (r, volume_of (w_fish w')) \<and>
    w' = w\<lparr>w_fish := w_fish w', w_vga := w_vga w', w_dev := w_dev w'\<rparr> \<and> view (w_dev w') = view (w_dev w) \<and>
    v_color (w_vga w') = v_color (w_vga w) \<and>
    terminal_of (w_vga w') = fold (term_char (v_color (w_vga w)))
      (if r < 0 then bytes_of (call_name f) @ bytes_of '': '' @ text_of (fish_error r) @ [10] else []) (terminal_of (w_vga w))"
proof -
  from command_report [OF assms, of stack] obtain cmd call' r fs where c: "terminated cmd" "text_of cmd = bytes_of (call_name f)"
    "call' (w_fish w) = Some (r, fs)" "fish_ok fs" "spec_call c (volume_of (w_fish w)) = (r, volume_of fs)"
    "run_command b stack f arg w =
      map_option Returned (do { (r, w) \<leftarrow> on_fish call' w; if r < 0 then fish_fail b cmd r w else Some w })" by blast
  let ?w = "w\<lparr>w_fish := fs\<rparr>"
  have w: "sound view ?w" using quiet_fish [OF assms(2) c(4)] by (simp add: quiet_def)
  have "puts view (if r < 0 then text_of cmd @ bytes_of '': '' @ text_of (fish_error r) @ [10] else []) ?w
      (if r < 0 then fish_fail b cmd r ?w else Some ?w)"
    using fish_fail_puts [OF assms(1) w c(1)] puts_nothing [OF w] by simp
  then obtain w' where w': "(if r < 0 then fish_fail b cmd r ?w else Some ?w) = Some w'"
    "shown view (if r < 0 then text_of cmd @ bytes_of '': '' @ text_of (fish_error r) @ [10] else []) ?w w'"
    by (auto simp: puts_def gives_def)
  have run: "run_command b stack f arg w = Some (Returned w')" using w'(1) c(3,6) by (simp add: on_fish_def)
  have con: "console_only view ?w w'" using w'(2) by (simp add: shown_def)
  then have same: "w' = w\<lparr>w_fish := w_fish w', w_vga := w_vga w', w_dev := w_dev w'\<rparr>" "w_fish w' = fs" "view (w_dev w') = view (w_dev w)"
    by (cases w; cases w'; simp add: console_only_def)+
  have "spec_call c (volume_of (w_fish w)) = (r, volume_of (w_fish w'))" using c(5) same(2) by simp
  moreover have "sound view w'" "v_color (w_vga w') = v_color (w_vga w)"
    "terminal_of (w_vga w') = fold (term_char (v_color (w_vga w)))
      (if r < 0 then bytes_of (call_name f) @ bytes_of '': '' @ text_of (fish_error r) @ [10] else []) (terminal_of (w_vga w))"
    using w'(2) unfolding c(2) by (simp_all add: shown_def)
  ultimately show ?thesis using run same(1,3) by (intro exI [of _ r] exI [of _ w'] conjI)
qed

text \<open>In \<^verbatim>\<open>/notes\<close> with the file \<^verbatim>\<open>a.txt\<close>: a text is appended, and the name is taken.\<close>

theorem shell_fish_commands_witness:
  "\<exists>fs w'. volume_of fs = demo_volume \<and>
     run_command pc_bus [] Cmd_append (literal ''a.txt  !!'') (demo_world [] []\<lparr>w_fish := fs\<rparr>) = Some (Returned w') \<and>
     tree (volume_of (w_fish w')) [bytes_of ''notes'', bytes_of ''a.txt''] = Some (File (bytes_of ''hello world!!'')) \<and>
     (\<exists>w'. run_command pc_bus [] Cmd_mkdir (literal ''a.txt'') (demo_world [] []\<lparr>w_fish := fs\<rparr>) = Some (Returned w') \<and>
       terminal_of (w_vga w') = fold (term_char (v_color demo_vga)) (bytes_of ''mkdir: already exists\<newline>'') (terminal_of demo_vga))"
proof -
  from demo_state obtain fs where fs: "fish_ok fs" "volume_of fs = demo_volume" by blast
  let ?w = "demo_world [] []\<lparr>w_fish := fs\<rparr>" and ?a = "literal ''a.txt  !!''"
  have "sound fst (demo_world [] [])" by (rule demo_world_sound(1)) simp_all
  then have w: "sound fst ?w" using fs(1) by (simp add: sound_def world_ok_def)
  have t: "text_of ?a = bytes_of ''a.txt  !!''" by (simp add: literal_def)
  have arg: "arg_ok ?a" "text_of ?a \<noteq> []" by (simp_all add: literal_arg) (simp add: literal_def)
  have call: "shell_call Cmd_append (text_of ?a) = Some (Append (bytes_of ''a.txt'' @ [0]) (bytes_of ''!!'' @ [0]))"
    unfolding t by (simp add: file_word_def file_text_def)
  from shell_fish_commands [OF pc_bus_machine w arg call, of "[]"] obtain r w' where
    w': "run_command pc_bus [] Cmd_append ?a ?w = Some (Returned w')"
    "spec_call (Append (bytes_of ''a.txt'' @ [0]) (bytes_of ''!!'' @ [0])) demo_volume = (r, volume_of (w_fish w'))" using fs(2) by auto
  have "tree (snd (spec_call (Append (bytes_of ''a.txt'' @ [0]) (bytes_of ''!!'' @ [0])) demo_volume)) [bytes_of ''notes'', bytes_of ''a.txt''] =
      Some (File (bytes_of ''hello world!!''))"
    by (simp add: demo_volume_def spec_update_def fish_sizes)
  moreover have "\<exists>w'. run_command pc_bus [] Cmd_mkdir (literal ''a.txt'') ?w = Some (Returned w') \<and>
       terminal_of (w_vga w') = fold (term_char (v_color demo_vga)) (bytes_of ''mkdir: already exists\<newline>'') (terminal_of demo_vga)"
  proof -
    let ?b = "literal ''a.txt''"
    have b: "arg_ok ?b" "text_of ?b \<noteq> []" "shell_call Cmd_mkdir (text_of ?b) = Some (Mkdir ?b)"
      by (simp_all add: literal_arg text_of_literal) (simp add: literal_def)
    have spec: "fst (spec_call (Mkdir ?b) demo_volume) = FISH_ERR_EXISTS"
      by (simp add: demo_volume_def spec_make_def legal_name_def text_of_literal fish_sizes blank_or_control_def)
    have msg: "bytes_of (call_name Cmd_mkdir) @ bytes_of '': '' @ text_of (fish_error FISH_ERR_EXISTS) @ [10] =
        bytes_of ''mkdir: already exists\<newline>''" "FISH_ERR_EXISTS < 0" by code_simp+
    have v: "w_vga ?w = demo_vga" by (simp add: demo_world_def)
    from shell_fish_commands [OF pc_bus_machine w b, of "[]"] obtain r w2 where
      w2: "run_command pc_bus [] Cmd_mkdir ?b ?w = Some (Returned w2)" "spec_call (Mkdir ?b) (volume_of (w_fish ?w)) = (r, volume_of (w_fish w2))"
      "terminal_of (w_vga w2) = fold (term_char (v_color (w_vga ?w)))
        (if r < 0 then bytes_of (call_name Cmd_mkdir) @ bytes_of '': '' @ text_of (fish_error r) @ [10] else []) (terminal_of (w_vga ?w))"
      by blast
    have "r = FISH_ERR_EXISTS" using w2(2) spec fs(2) by simp
    with w2(1,3) msg show ?thesis unfolding v by (intro exI [of _ w2]) (simp only: if_True)
  qed
  ultimately show ?thesis using w' fs(2) by auto
qed

end
