(* ===== verification/Typing.thy ===== *)
theory Typing
  imports Shell_Props Keyboard_Props
begin

text \<open>
  From the keyboard to the files. What is typed is given in advance, as the bytes the keyboard controller will deliver; each raises an interrupt while
  the shell waits, the driver decodes and queues, \<open>read_line\<close> edits, \<open>execute\<close> splits and dispatches and the command
  makes its call: the whole way, over all these components, for a session of any length.
\<close>

subsection \<open>The keyboard controller while the shell runs\<close>

text \<open>What is written to other ports takes no byte from the keyboard controller.\<close>

definition keyboard_line :: "'d bus \<Rightarrow> ('d \<Rightarrow> u8 list) \<Rightarrow> bool" where
  "keyboard_line b full \<longleftrightarrow> kbc_wired b full \<and> (\<forall>d p v. p \<notin> {KBD_DATA, KBD_STATUS} \<longrightarrow> full (port_out b d p v) = full d)"

lemma keyboard_line_out: "keyboard_line b full \<Longrightarrow> p \<notin> {KBD_DATA, KBD_STATUS} \<Longrightarrow> full (outb b p v d) = full d"
  by (simp add: keyboard_line_def outb_def)

lemma keyboard_line_in:
  assumes "keyboard_line b full"
  shows "full (snd (inb b KBD_DATA d)) = tl (full d)" "full d = c # cs \<Longrightarrow> fst (inb b KBD_DATA d) = c"
  using assms by (simp_all add: keyboard_line_def kbc_wired_def inb_def KBD_DATA_def)

lemma full_end_of_irq: "keyboard_line b full \<Longrightarrow> full (end_of_irq b n d) = full d"
  by (simp add: end_of_irq_def keyboard_line_out KBD_DATA_def KBD_STATUS_def)

lemma full_update_cursor: "keyboard_line b full \<Longrightarrow> full (update_cursor b v d) = full d"
  by (simp add: update_cursor_def Let_def keyboard_line_out KBD_DATA_def KBD_STATUS_def CRTC_INDEX_def CRTC_DATA_def)

lemma full_putchar: "keyboard_line b full \<Longrightarrow> vga_putchar b c (v, d) = Some (v', d') \<Longrightarrow> full d' = full d"
  by (auto simp: vga_putchar_def full_update_cursor split: bind_split_asm)

lemma full_write: "keyboard_line b full \<Longrightarrow> vga_write b s (v, d) = Some (v', d') \<Longrightarrow> full d' = full d"
proof (induction s arbitrary: v d)
  case (Cons c s)
  show ?case
  proof (cases "c = 0")
    case True
    with Cons.prems(2) show ?thesis by simp
  next
    case False
    with Cons.prems(2) obtain v1 d1 where "vga_putchar b c (v, d) = Some (v1, d1)" "vga_write b s (v1, d1) = Some (v', d')"
      by (auto split: bind_split_asm)
    with Cons.IH [OF Cons.prems(1)] full_putchar [OF Cons.prems(1)] show ?thesis by simp
  qed
qed simp

subsection \<open>Interrupts of the keyboard\<close>

text \<open>The interrupts of the keyboard among those of a halt, where line 1 alone has its handler.\<close>

definition keys_in :: "registers list \<Rightarrow> nat" where
  "keys_in rs = length (filter (\<lambda>r. int_no r = 33) rs)"

definition keyboard_slot :: "irq_callback option list \<Rightarrow> bool" where
  "keyboard_slot slots \<longleftrightarrow> (\<forall>n < 16. slots ! n = Some Keyboard_callback \<longleftrightarrow> n = 1)"

lemma hardware_line:
  assumes "hardware_irq regs"
  obtains n where "n < 16" "int_no regs = 32 + of_nat n" "int_no regs = 33 \<longleftrightarrow> n = 1"
proof -
  from assms obtain n where n: "n < 16" "int_no regs = 32 + of_nat n" by (auto simp: hardware_irq_def)
  have u: "unat (of_nat n :: u32) = n" using n(1) by (simp only: unat_of_nat) simp
  have "int_no regs = 33 \<longleftrightarrow> (of_nat n :: u32) = 1" unfolding n(2) by (simp add: algebra_simps)
  also have "\<dots> \<longleftrightarrow> n = 1" unfolding word_unat_eq_iff u by simp
  finally show ?thesis using that n by blast
qed

text \<open>The keys of some bytes, with the flags before and after.\<close>

lemma decode_all_Cons: "decode_all (sc # scs) f =
    (fst (decode_all scs (fst (decode sc f))),
     (case snd (decode sc f) of None \<Rightarrow> [] | Some c \<Rightarrow> [c]) @ snd (decode_all scs (fst (decode sc f))))"
  by (simp add: apsnd_def map_prod_def split: prod.split)

lemma decode_all_split:
  "fst (decode_all (xs @ ys) f) = fst (decode_all ys (fst (decode_all xs f)))"
  "snd (decode_all (xs @ ys) f) = snd (decode_all xs f) @ snd (decode_all ys (fst (decode_all xs f)))"
  by (simp_all add: decode_all_append apsnd_def map_prod_def split: prod.split)

lemma interrupt_types:
  assumes m: "machine b view" and kb: "keyboard_line b full" and w: "input_ready w" "keyboard_slot (w_slots w)" and i: "hardware_irq regs"
    and room: "waiting (w_kbd w) + (if int_no regs = 33 then 1 else 0) \<le> 127" and bytes: "int_no regs = 33 \<longrightarrow> full (w_dev w) \<noteq> []"
  shows "\<exists>w' n. interrupt b regs w = Some w' \<and> input_only view w w' \<and> n = (if int_no regs = 33 then 1 else 0) \<and>
    full (w_dev w') = drop n (full (w_dev w)) \<and>
    flags_of (w_kbd w') = fst (decode_all (take n (full (w_dev w))) (flags_of (w_kbd w))) \<and>
    pending (w_kbd w') = pending (w_kbd w) @ snd (decode_all (take n (full (w_dev w))) (flags_of (w_kbd w)))"
proof -
  from interrupt_total [OF m w(1) i] obtain w' where w': "interrupt b regs w = Some w'" "input_only view w w'" by blast
  obtain n where n: "n < 16" "int_no regs = 32 + of_nat n" "int_no regs = 33 \<longleftrightarrow> n = 1" using i by (rule hardware_line)
  have k: "keyboard_ok (w_kbd w)" "length (w_slots w) = 16" using w(1) by (simp_all add: input_ready_def)
  note eq = irq_handler_eq [OF k(2) n(1,2), of b "handler_call b" "((w_ticks w, w_kbd w), w_dev w)"]
  show ?thesis
  proof (cases "n = 1")
    case True
    then have slot: "w_slots w ! 1 = Some Keyboard_callback" using w(2) by (simp add: keyboard_slot_def)
    from bytes n(3) True obtain sc scs where full: "full (w_dev w) = sc # scs" by (auto simp: neq_Nil_conv)
    obtain d1 where d1: "inb b KBD_DATA (w_dev w) = (sc, d1)" "full d1 = scs"
      using keyboard_line_in [OF kb, of "w_dev w"] full by (cases "inb b KBD_DATA (w_dev w)") auto
    from scancode_event_correct [OF k(1), of sc] obtain k1 where k1: "scancode_event sc (w_kbd w) = Some k1"
      "flags_of k1 = fst (decode sc (flags_of (w_kbd w)))" "pending k1 = enqueue (snd (decode sc (flags_of (w_kbd w)))) (pending (w_kbd w))"
      by blast
    have "interrupt b regs w = Some (w\<lparr>w_kbd := k1, w_dev := end_of_irq b 1 d1\<rparr>)"
      using eq slot True d1(1) k1(1) by (simp add: interrupt_def keyboard_callback_def)
    with w'(1) have "w' = w\<lparr>w_kbd := k1, w_dev := end_of_irq b 1 d1\<rparr>" by simp
    moreover have "waiting (w_kbd w) < 127" using room n(3) True by simp
    ultimately show ?thesis using w' n(3) True full d1(2) k1 full_end_of_irq [OF kb]
      by (intro exI [of _ w'] exI [of _ 1]) (auto simp: enqueue_def decode_all_Cons simp del: decode_all.simps(2) split: option.split)
  next
    case False
    have "w_slots w ! n \<noteq> Some Keyboard_callback" using w(2) n(1) False by (simp add: keyboard_slot_def)
    then have "w_kbd w' = w_kbd w \<and> full (w_dev w') = full (w_dev w)"
      using w'(1) eq full_end_of_irq [OF kb]
      by (cases "w_slots w ! n"; cases "the (w_slots w ! n)") (auto simp: interrupt_def)
    with w' n(3) False show ?thesis by (intro exI [of _ w'] exI [of _ 0]) simp
  qed
qed

lemma interrupts_type:
  assumes m: "machine b view" and kb: "keyboard_line b full"
  shows "input_ready w \<Longrightarrow> keyboard_slot (w_slots w) \<Longrightarrow> list_all hardware_irq rs \<Longrightarrow>
    waiting (w_kbd w) + keys_in rs \<le> 127 \<Longrightarrow> keys_in rs \<le> length (full (w_dev w)) \<Longrightarrow>
    \<exists>w'. interrupts b rs w = Some w' \<and> input_only view w w' \<and> full (w_dev w') = drop (keys_in rs) (full (w_dev w)) \<and>
      flags_of (w_kbd w') = fst (decode_all (take (keys_in rs) (full (w_dev w))) (flags_of (w_kbd w))) \<and>
      pending (w_kbd w') = pending (w_kbd w) @ snd (decode_all (take (keys_in rs) (full (w_dev w))) (flags_of (w_kbd w)))"
proof (induction rs arbitrary: w)
  case Nil
  then show ?case by (cases w) (simp add: input_only_def input_ready_def keys_in_def)
next
  case (Cons r rs)
  let ?n = "if int_no r = 33 then 1 else 0 :: nat"
  have n: "keys_in (r # rs) = ?n + keys_in rs" by (simp add: keys_in_def)
  have r: "hardware_irq r" "waiting (w_kbd w) + ?n \<le> 127" "int_no r = 33 \<longrightarrow> full (w_dev w) \<noteq> []"
    using Cons.prems(3-5) n by auto
  from interrupt_types [OF m kb Cons.prems(1,2) r] obtain w1 where w1: "interrupt b r w = Some w1" "input_only view w w1"
    "full (w_dev w1) = drop ?n (full (w_dev w))"
    "flags_of (w_kbd w1) = fst (decode_all (take ?n (full (w_dev w))) (flags_of (w_kbd w)))"
    "pending (w_kbd w1) = pending (w_kbd w) @ snd (decode_all (take ?n (full (w_dev w))) (flags_of (w_kbd w)))" by blast
  note d = input_only_ready [OF w1(2) Cons.prems(1)]
  have "length (snd (decode_all (take ?n (full (w_dev w))) (flags_of (w_kbd w)))) \<le> ?n"
    by (cases "full (w_dev w)") (auto simp: decode_all_Cons simp del: decode_all.simps(2) split: option.split)
  then have "waiting (w_kbd w1) + keys_in rs \<le> 127" using waiting_pending [OF w1(5)] Cons.prems(4) n by simp
  moreover have "keys_in rs \<le> length (full (w_dev w1))" using w1(3) Cons.prems(5) n by simp
  ultimately obtain w' where w': "interrupts b rs w1 = Some w'" "input_only view w1 w'"
    "full (w_dev w') = drop (keys_in rs) (full (w_dev w1))"
    "flags_of (w_kbd w') = fst (decode_all (take (keys_in rs) (full (w_dev w1))) (flags_of (w_kbd w1)))"
    "pending (w_kbd w') = pending (w_kbd w1) @ snd (decode_all (take (keys_in rs) (full (w_dev w1))) (flags_of (w_kbd w1)))"
    using Cons.IH [of w1] d Cons.prems(2,3) by auto
  have "take (keys_in (r # rs)) (full (w_dev w)) = take ?n (full (w_dev w)) @ take (keys_in rs) (full (w_dev w1))"
    unfolding w1(3) n by (rule take_add)
  then show ?case using w1 w' n input_only_trans [OF w1(2) w'(2)]
    by (intro exI [of _ w']) (simp add: decode_all_split add.commute)
qed

subsection \<open>Reading what is typed\<close>

text \<open>
  Each byte the controller holds has its interrupt to come, at most 127 in a halt, as many as the key buffer holds; and the keys
  that are still to be read, from the buffer and from the controller.
\<close>

definition attended :: "('d \<Rightarrow> u8 list) \<Rightarrow> 'd world \<Rightarrow> bool" where
  "attended full w \<longleftrightarrow> list_all (\<lambda>rs. keys_in rs \<le> 127) (w_halts w) \<and> sum_list (map keys_in (w_halts w)) = length (full (w_dev w))"

definition keys_to_come :: "('d \<Rightarrow> u8 list) \<Rightarrow> 'd world \<Rightarrow> int list" where
  "keys_to_come full w = pending (w_kbd w) @ snd (decode_all (full (w_dev w)) (flags_of (w_kbd w)))"

text \<open>A halt at an empty buffer: the keys to come stay the same.\<close>

lemma halt_types:
  assumes m: "machine b view" and kb: "keyboard_line b full" and w: "sound view w" "keyboard_slot (w_slots w)" "attended full w"
    and key: "pending (w_kbd w) = []" and some: "keys_to_come full w \<noteq> []"
  obtains w' where "read_line b n w = read_line b n w'" "sound view w'" "attended full w'" "keys_to_come full w' = keys_to_come full w"
    "w' = w\<lparr>w_ticks := w_ticks w', w_kbd := w_kbd w', w_dev := w_dev w', w_halts := tl (w_halts w)\<rparr>"
    "length (w_halts w') < length (w_halts w)"
proof -
  have "full (w_dev w) \<noteq> []" using key some by (auto simp: keys_to_come_def)
  then obtain rs halts where h: "w_halts w = rs # halts" using w(3) by (cases "w_halts w") (auto simp: attended_def)
  obtain k where "keyboard_getchar (w_kbd w) = Some (0, k)" using keyboard_getchar_correct [OF soundD(2) [OF w(1)]] key by auto
  moreover have "waiting (w_kbd w) = 0" using key by (metis length_pending list.size(3))
  ultimately have k: "keyboard_getchar (w_kbd w) = Some (0, w_kbd w)"
    using empty_test [OF soundD(2) [OF w(1)]] by (simp add: keyboard_getchar_def)
  let ?v = "w\<lparr>w_halts := halts\<rparr>"
  have v: "sound view ?v" "list_all hardware_irq rs" using w(1) soundD(9) [OF w(1)] h by (simp_all add: sound_def world_ok_def)
  have at: "keys_in rs \<le> 127" "keys_in rs \<le> length (full (w_dev w))" using w(3) h by (auto simp: attended_def)
  from interrupts_type [OF m kb sound_input_ready [OF v(1)] _ v(2)] w(2) at \<open>waiting (w_kbd w) = 0\<close> obtain w' where
    w': "interrupts b rs ?v = Some w'" "input_only view ?v w'" "full (w_dev w') = drop (keys_in rs) (full (w_dev w))"
    "flags_of (w_kbd w') = fst (decode_all (take (keys_in rs) (full (w_dev w))) (flags_of (w_kbd w)))"
    "pending (w_kbd w') = pending (w_kbd w) @ snd (decode_all (take (keys_in rs) (full (w_dev w))) (flags_of (w_kbd w)))" by auto
  note d = input_onlyD [OF w'(2) v(1)]
  have part: "w' = w\<lparr>w_ticks := w_ticks w', w_kbd := w_kbd w', w_dev := w_dev w', w_halts := tl (w_halts w)\<rparr>"
    using w'(2) h by (cases w; cases w') (simp add: input_only_def)
  have "w\<lparr>w_kbd := w_kbd w, w_halts := halts\<rparr> = ?v" by (cases w) simp
  then have "read_line b n w = read_line b n w'" using k h w'(1) by (subst read_line.simps) (simp add: hlt_def)
  moreover have "attended full w'" using w(3) w'(3) h d by (auto simp: attended_def)
  moreover have "keys_to_come full w' = keys_to_come full w"
    using decode_all_split(2) [of "take (keys_in rs) (full (w_dev w))" "drop (keys_in rs) (full (w_dev w))" "flags_of (w_kbd w)"] w'(3-5)
    by (simp add: keys_to_come_def)
  ultimately show ?thesis using d h by (intro that [of w'] part) simp_all
qed

text \<open>What is written does not depend on the state of the devices.\<close>

lemma vga_write_devices: "map_option fst (vga_write b s (v, d)) = map_option fst (vga_write b s (v, d'))"
proof (induction s arbitrary: v d d')
  case (Cons c s)
  have "vga_putchar b c (v, d) = None \<and> vga_putchar b c (v, d') = None \<or>
    (\<exists>v1. vga_putchar b c (v, d) = Some (v1, update_cursor b v1 d) \<and> vga_putchar b c (v, d') = Some (v1, update_cursor b v1 d'))"
    by (auto simp: vga_putchar_def split: Option.bind_splits)
  then show ?case using Cons.IH by auto
qed simp

definition shows_text :: "'d bus \<Rightarrow> bytes \<Rightarrow> vga \<Rightarrow> vga \<Rightarrow> bool" where
  "shows_text b s v v' \<longleftrightarrow> (\<forall>d. \<exists>d'. vga_write b (s @ [0]) (v, d) = Some (v', d'))"

lemma shows_textI: "vga_write b (s @ [0]) (v, d) = Some (v', d') \<Longrightarrow> shows_text b s v v'"
  unfolding shows_text_def
proof
  fix e
  assume w: "vga_write b (s @ [0]) (v, d) = Some (v', d')"
  have "map_option fst (vga_write b (s @ [0]) (v, e)) = Some v'" unfolding vga_write_devices [of b _ v e d] w by simp
  then show "\<exists>d'. vga_write b (s @ [0]) (v, e) = Some (v', d')" by auto
qed

lemma shows_text_append: "0 \<notin> set s \<Longrightarrow> shows_text b s v v1 \<Longrightarrow> shows_text b t v1 v2 \<Longrightarrow> shows_text b (s @ t) v v2"
  unfolding shows_text_def append_assoc
proof
  fix d
  assume s: "0 \<notin> set s" and 1: "\<forall>d. \<exists>d'. vga_write b (s @ [0]) (v, d) = Some (v1, d')"
    and 2: "\<forall>d. \<exists>d'. vga_write b (t @ [0]) (v1, d) = Some (v2, d')"
  from 1 obtain d1 where d1: "vga_write b (s @ [0]) (v, d) = Some (v1, d1)" by blast
  from 2 obtain d2 where d2: "vga_write b (t @ [0]) (v1, d1) = Some (v2, d2)" by blast
  show "\<exists>d'. vga_write b (s @ t @ [0]) (v, d) = Some (v2, d')"
    using vga_write_append [OF s, of b "t @ [0]" "(v, d)"] unfolding d1 bind.bind_lunit d2 by blast
qed

text \<open>One typed line: only input, console and devices change.\<close>

definition input_and_console :: "'d world \<Rightarrow> 'd world \<Rightarrow> bool" where
  "input_and_console w w' \<longleftrightarrow> w_fish w' = w_fish w \<and> w_user w' = w_user w \<and> w_slots w' = w_slots w \<and> w_present w' = w_present w"

lemma read_line_typed:
  assumes m: "machine b view" and kb: "keyboard_line b full" and last: "10 \<notin> set keys"
  shows "sound view w \<Longrightarrow> keyboard_slot (w_slots w) \<Longrightarrow> attended full w \<Longrightarrow> length t \<le> 255 \<Longrightarrow> take (length t) (w_line w) = t \<Longrightarrow>
    keys_to_come full w = keys @ 10 # rest \<Longrightarrow>
    \<exists>w'. read_line b (length t) w = Some (Returned w') \<and> sound view w' \<and> attended full w' \<and> keys_to_come full w' = rest \<and>
      take (Suc (length (foldl edit t keys))) (w_line w') = foldl edit t keys @ [0] \<and> input_and_console w w' \<and>
      shows_text b (echoes t keys @ [10]) (w_vga w) (w_vga w')"
  using last
proof (induction "left w" arbitrary: w t keys rule: wf_induct_rule [OF wf_lex_prod [OF wf_less_than wf_less_than]])
  case (1 w t keys)
  note IH = 1(1) and w = 1(2-4) and t = 1(5,6) and come = 1(7) and last = 1(8)
  show ?case
  proof (cases "pending (w_kbd w)")
    case Nil
    from come have "keys_to_come full w \<noteq> []" by simp
    with m kb w Nil obtain w1 where w1: "read_line b (length t) w = read_line b (length t) w1" "sound view w1" "attended full w1"
      "keys_to_come full w1 = keys_to_come full w"
      "w1 = w\<lparr>w_ticks := w_ticks w1, w_kbd := w_kbd w1, w_dev := w_dev w1, w_halts := tl (w_halts w)\<rparr>"
      "length (w_halts w1) < length (w_halts w)" by (rule halt_types)
    have same: "w_slots w1 = w_slots w \<and> w_line w1 = w_line w \<and> w_vga w1 = w_vga w \<and> input_and_console w w1"
      using w1(5) by (cases w; cases w1) (simp add: input_and_console_def)
    have "(left w1, left w) \<in> less_than <*lex*> less_than" using w1(6) by (simp add: left_def)
    from IH [OF this w1(2) _ w1(3) t(1), of keys] same w(2) t(2) come last w1(1,4) show ?thesis
      by (auto simp: input_and_console_def)
  next
    case (Cons key more)
    show ?thesis
    proof (cases "key = 10")
      case True
      with last come Cons have keys: "keys = []" "snd (decode_all (full (w_dev w)) (flags_of (w_kbd w))) = drop (length more) rest"
        "rest = more @ snd (decode_all (full (w_dev w)) (flags_of (w_kbd w)))" by (auto simp: keys_to_come_def Cons_eq_append_conv)
      from Cons True have "pending (w_kbd w) = 10 # more" by simp
      with m w(1) t obtain w1 where w1: "read_line b (length t) w = Some (Returned w1)" "sound view w1"
        "take (Suc (length t)) (w_line w1) = t @ [0]" "pending (w_kbd w1) = more"
        "w1 = w\<lparr>w_kbd := w_kbd w1, w_line := w_line w1, w_vga := w_vga w1, w_dev := w_dev w1\<rparr>"
        "vga_write b [10, 0] (w_vga w, w_dev w) = Some (w_vga w1, w_dev w1)" "flags_of (w_kbd w1) = flags_of (w_kbd w)"
        by (rule read_line_enter)
      have same: "w_halts w1 = w_halts w \<and> input_and_console w w1"
        using w1(5) by (cases w; cases w1) (simp add: input_and_console_def)
      have full: "full (w_dev w1) = full (w_dev w)" by (rule full_write [OF kb w1(6)])
      show ?thesis using w1(1-4,7) same full keys(1,3) w(3) shows_textI [of b "[10]"] w1(6)
        by (intro exI [of _ w1]) (auto simp: attended_def keys_to_come_def)
    next
      case False
      with come Cons obtain keys' where keys: "keys = key # keys'" by (cases keys) (auto simp: keys_to_come_def)
      obtain w1 where w1: "read_line b (length t) w = read_line b (length (edit t key)) w1" "sound view w1"
        "take (length (edit t key)) (w_line w1) = edit t key" "pending (w_kbd w1) = more"
        "w1 = w\<lparr>w_kbd := w_kbd w1, w_line := w_line w1, w_vga := w_vga w1, w_dev := w_dev w1\<rparr>"
        "vga_write b (echo t key @ [0]) (w_vga w, w_dev w) = Some (w_vga w1, w_dev w1)" "flags_of (w_kbd w1) = flags_of (w_kbd w)"
        by (rule read_line_key [OF m w(1) t Cons False])
      have same: "w_halts w1 = w_halts w \<and> w_slots w1 = w_slots w \<and> input_and_console w w1"
        using w1(5) by (cases w; cases w1) (simp add: input_and_console_def)
      have full: "full (w_dev w1) = full (w_dev w)" by (rule full_write [OF kb w1(6)])
      have "is_key key" using soundD(2) [OF w(1)] Cons by (simp add: keyboard_ok_def)
      note nz = echo_nonzero [OF this, of t]
      have "(left w1, left w) \<in> less_than <*lex*> less_than" using w1(4) Cons same by (simp add: left_def)
      moreover have "attended full w1" using w(3) same full by (simp add: attended_def)
      moreover have "keys_to_come full w1 = keys' @ 10 # rest"
        using come Cons keys full w1(4,7) by (simp add: keys_to_come_def)
      ultimately obtain w' where w': "read_line b (length (edit t key)) w1 = Some (Returned w')" "sound view w'" "attended full w'"
        "keys_to_come full w' = rest" "take (Suc (length (foldl edit (edit t key) keys'))) (w_line w') = foldl edit (edit t key) keys' @ [0]"
        "input_and_console w1 w'" "shows_text b (echoes (edit t key) keys' @ [10]) (w_vga w1) (w_vga w')"
        using IH [of w1 "edit t key" keys'] w1(2,3) w(2) same length_edit [OF t(1), of key] last keys by auto
      have "shows_text b (echoes t keys @ [10]) (w_vga w) (w_vga w')"
        using shows_text_append [OF nz shows_textI [OF w1(6)] w'(7)] keys by simp
      with w1(1) w' same keys show ?thesis by (intro exI [of _ w']) (auto simp: input_and_console_def)
    qed
  qed
qed

subsection \<open>Printable text\<close>

definition printable :: "bytes \<Rightarrow> bool" where
  "printable t \<longleftrightarrow> list_all (\<lambda>c. 32 \<le> unat c \<and> unat c < 127) t"

text \<open>The bytes of the keys of a line, with Enter.\<close>

definition line_bytes :: "bytes \<Rightarrow> u8 list" where
  "line_bytes t = concat (map keystroke (t @ [10]))"

lemma printable_key:
  assumes "32 \<le> unat c" "unat c < 127"
  shows "typeable c" "edit u (sint c) = (if length u \<ge> 255 then u else u @ [c])"
    "echo u (sint c) = (if length u \<ge> 255 then [] else [c])" "sint c \<noteq> 10"
proof -
  have "c = of_nat (unat c)" by simp
  then have "c \<in> of_nat ` set [32..<127]" using assms by (metis atLeastLessThan_iff imageI set_upt)
  then show "typeable c" using printable_typeable by simp
  have "uint c = int (unat c)" by simp
  with assms(2) have "uint c < 127" by linarith
  then have "signed_take_bit 7 (uint c) = uint c" by (intro signed_take_bit_int_eq_self order_trans [OF _ uint_ge_0]) simp_all
  then have "sint c = uint c" by (simp add: sint_uint)
  with assms \<open>uint c = int (unat c)\<close> have "32 \<le> sint c" "sint c < 127" by linarith+
  then show "edit u (sint c) = (if length u \<ge> 255 then u else u @ [c])"
    "echo u (sint c) = (if length u \<ge> 255 then [] else [c])" "sint c \<noteq> 10"
    by (auto simp: edit_def echo_def)
qed

lemma printable_simps [simp]: "printable []" "printable (c # t) \<longleftrightarrow> 32 \<le> unat c \<and> unat c < 127 \<and> printable t"
  by (simp_all add: printable_def)

lemma printable_keys: "printable t \<Longrightarrow> 10 \<notin> set (map sint t)"
  by (induction t) (auto dest: printable_key(4))

lemma printable_line: "printable t \<Longrightarrow> length u + length t \<le> 255 \<Longrightarrow> foldl edit u (map sint t) = u @ t \<and> echoes u (map sint t) = t"
  by (induction t arbitrary: u) (simp_all add: printable_key)

lemma printable_nonzero: "printable t \<Longrightarrow> 0 \<notin> set t"
  by (induction t) auto

lemma line_decode: "printable t \<Longrightarrow> decode_all (line_bytes t) released = (released, map sint t @ [10])"
proof -
  assume "printable t"
  then have "list_all typeable t" by (induction t) (auto simp: printable_key)
  moreover have "typeable 10" by code_simp
  ultimately show ?thesis using decode_text [of "t @ [10]"] by (simp add: line_bytes_def)
qed

lemma session_decode: "list_all printable ts \<Longrightarrow>
    decode_all (concat (map line_bytes ts)) released = (released, concat (map (\<lambda>t. map sint t @ [10]) ts))"
  by (induction ts) (simp_all add: decode_all_append line_decode)

subsection \<open>A turn of the shell\<close>

lemma print_full: "keyboard_line b full \<Longrightarrow> print b s w = Some w' \<Longrightarrow> full (w_dev w') = full (w_dev w) \<and> input_and_console w w'"
  by (auto simp: print_def on_console_def input_and_console_def full_write split: bind_split_asm)

lemma putc_full: "keyboard_line b full \<Longrightarrow> putc b c w = Some w' \<Longrightarrow> full (w_dev w') = full (w_dev w) \<and> input_and_console w w'"
  by (auto simp: putc_def on_console_def input_and_console_def full_putchar split: bind_split_asm)

lemma color_full: "w_dev (color f h w) = w_dev w" "input_and_console w (color f h w)" "w_user (color f h w) = w_user w"
  by (simp_all add: color_def input_and_console_def)

lemma input_and_console_trans: "input_and_console w w1 \<Longrightarrow> input_and_console w1 w2 \<Longrightarrow> input_and_console w w2"
  by (simp add: input_and_console_def)

lemma shell_prompt_full:
  assumes kb: "keyboard_line b full" and w: "shell_prompt b w = Some w'"
  shows "full (w_dev w') = full (w_dev w) \<and> input_and_console w w'"
proof -
  from w obtain w1 w2 w3 w4 where "print b (user_name (w_user w)) (color VGA_LIGHT_GREEN VGA_BLACK w) = Some w1" "putc b 64 w1 = Some w2"
    "print b (user_host (w_user w2)) w2 = Some w3" "print b (literal '' >> '') w3 = Some w4" "w' = color VGA_LIGHT_GREY VGA_BLACK w4"
    by (auto simp: shell_prompt_def split: bind_split_asm)
  note step = this
  note print_full [OF kb step(1)] putc_full [OF kb step(2)] print_full [OF kb step(3)] print_full [OF kb step(4)]
  then show ?thesis by (simp add: step(5) color_full input_and_console_def color_def)
qed

lemma typed_turn:
  assumes m: "machine b view" and kb: "keyboard_line b full" and w: "sound view w" "keyboard_slot (w_slots w)" "attended full w"
    and t: "printable t" "length t \<le> 255" and come: "keys_to_come full w = map sint t @ 10 # rest"
  obtains w1 w' where "shell_prompt b w = Some w1" "read_line b 0 w1 = Some (Returned w')" "turn b stack w = execute b stack w'"
    "sound view w'" "attended full w'" "keys_to_come full w' = rest" "text_of (w_line w') = t" "terminated (w_line w')"
    "input_and_console w w'" "shows_text b (t @ [10]) (w_vga w1) (w_vga w')"
proof -
  obtain w1 where w1: "shell_prompt b w = Some w1" "quiet view w w1"
    using shell_prompt_does [OF m w(1)] by (auto simp: does_def gives_def)
  note full = shell_prompt_full [OF kb w1(1)]
  have q: "sound view w1" "keyboard_slot (w_slots w1)" "attended full w1" "keys_to_come full w1 = map sint t @ 10 # rest"
    using w1(2) w come full by (simp_all add: quiet_def attended_def keys_to_come_def)
  have "length ([] :: bytes) \<le> 255" "take (length ([] :: bytes)) (w_line w1) = []" by simp_all
  from read_line_typed [OF m kb printable_keys [OF t(1)] q(1-3) this q(4)] printable_line [OF t(1), of "[]"] t(2) obtain w' where
    w': "read_line b 0 w1 = Some (Returned w')" "sound view w'" "attended full w'" "keys_to_come full w' = rest"
    "take (Suc (length t)) (w_line w') = t @ [0]" "input_and_console w1 w'" "shows_text b (t @ [10]) (w_vga w1) (w_vga w')" by auto
  have "w_line w' = t @ 0 # drop (Suc (length t)) (w_line w')"
    using append_take_drop_id [of "Suc (length t)" "w_line w'"] unfolding w'(5) by simp
  with text_of_append_zero [OF printable_nonzero [OF t(1)]] have line: "text_of (w_line w') = t" "terminated (w_line w')"
    by (metis, metis terminated_append terminated_simps(2))
  show ?thesis
    using w1(1) w'(1) by (intro that [OF w1(1) w'(1) _ w'(2-4) line _ w'(7)])
      (simp_all add: turn_def input_and_console_trans [OF conjunct2 [OF full] w'(6)])
qed

subsection \<open>A line that is a call of Fish\<close>

definition line_call :: "bytes \<Rightarrow> call option" where
  "line_call t = (case line_words t of (x, y) \<Rightarrow>
     case command_of x of None \<Rightarrow> None | Some r \<Rightarrow> if y = [] then None else shell_call (c_run r) y)"

text \<open>The same with the names of the commands as a table.\<close>

definition command_table :: "(bytes \<times> command_fn) list" where
  "command_table = map (\<lambda>r. (text_of (c_name r), c_run r)) commands"

lemma command_of_table: "map_option c_run (command_of x) = map_of command_table x"
proof -
  have "map_option c_run (find (\<lambda>r. text_of (c_name r) = x) rs) = map_of (map (\<lambda>r. (text_of (c_name r), c_run r)) rs) x" for rs
    by (induction rs) auto
  then show ?thesis by (simp add: command_of_def command_table_def)
qed

lemma command_names: "command_table = [
    (bytes_of ''help'', Cmd_help), (bytes_of ''neofetch'', Cmd_neofetch), (bytes_of ''clear'', Cmd_clear), (bytes_of ''echo'', Cmd_echo),
    (bytes_of ''about'', Cmd_about), (bytes_of ''ls'', Cmd_ls), (bytes_of ''cd'', Cmd_cd), (bytes_of ''pwd'', Cmd_pwd),
    (bytes_of ''mkdir'', Cmd_mkdir), (bytes_of ''touch'', Cmd_touch), (bytes_of ''cat'', Cmd_cat), (bytes_of ''write'', Cmd_write),
    (bytes_of ''append'', Cmd_append), (bytes_of ''rm'', Cmd_rm), (bytes_of ''save'', Cmd_save), (bytes_of ''load'', Cmd_load),
    (bytes_of ''format'', Cmd_format), (bytes_of ''disk'', Cmd_disk), (bytes_of ''color'', Cmd_color), (bytes_of ''whoami'', Cmd_whoami),
    (bytes_of ''user'', Cmd_user), (bytes_of ''hostname'', Cmd_hostname), (bytes_of ''uptime'', Cmd_uptime), (bytes_of ''ticks'', Cmd_ticks),
    (bytes_of ''sleep'', Cmd_sleep), (bytes_of ''reboot'', Cmd_reboot), (bytes_of ''halt'', Cmd_halt)]"
  by (simp add: command_table_def commands_def row_def text_of_literal)

lemma line_call_table: "line_call t = (let (x, y) = line_words t in
    case map_of command_table x of None \<Rightarrow> None | Some f \<Rightarrow> if y = [] then None else shell_call f y)"
  unfolding command_of_table [symmetric] by (simp add: line_call_def split: prod.split option.split)

lemma fish_fail_full:
  assumes kb: "keyboard_line b full" and w: "fish_fail b cmd r w = Some w'"
  shows "full (w_dev w') = full (w_dev w)"
  using w by (auto simp: fish_fail_def split: bind_split_asm dest!: print_full [OF kb] putc_full [OF kb])

lemma execute_call:
  assumes m: "machine b view" and kb: "keyboard_line b full" and w: "sound view w" and line: "terminated (w_line w)"
    and call: "line_call (text_of (w_line w)) = Some c"
  shows "\<exists>r w'. execute b stack w = Some (Returned w') \<and> sound view w' \<and> w_kbd w' = w_kbd w \<and> w_halts w' = w_halts w \<and>
    w_slots w' = w_slots w \<and> full (w_dev w') = full (w_dev w) \<and>
    spec_call c (volume_of (w_fish w)) = (r, volume_of (w_fish w'))"
proof -
  obtain x y where x: "line_words (text_of (w_line w)) = (x, y)" by fastforce
  with call obtain r where r: "command_of x = Some r" "y \<noteq> []" "shell_call (c_run r) y = Some c"
    by (auto simp: line_call_def split: option.splits if_splits)
  have "command_of [] = None" by (simp add: command_of_def commands_def row_def literal_def)
  with r(1) have ne: "x \<noteq> []" by auto
  from execute_eq(2) [OF line x ne, of b stack] r(1) obtain l arg where e: "length l = length (w_line w)" "terminated arg"
    "length arg \<le> length (w_line w)" "text_of arg = y" "execute b stack w = run_command b stack (c_run r) arg (w\<lparr>w_line := l\<rparr>)"
    by (auto simp: Let_def)
  let ?w = "w\<lparr>w_line := l\<rparr>"
  have w1: "sound view ?w" using w e(1) by (simp add: sound_def world_ok_def)
  have arg: "arg_ok arg" "text_of arg \<noteq> []" using e(2-4) soundD(6) [OF w] r(2) by (simp_all add: arg_ok_def)
  have "shell_call (c_run r) (text_of arg) = Some c" using r(3) e(4) by simp
  from command_report [OF m w1 arg this, of stack] obtain cmd call' r fs where c: "terminated cmd" "call' (w_fish ?w) = Some (r, fs)"
    "fish_ok fs" "spec_call c (volume_of (w_fish ?w)) = (r, volume_of fs)"
    "execute b stack w = map_option Returned (do { (r, w) \<leftarrow> on_fish call' ?w; if r < 0 then fish_fail b cmd r w else Some w })"
    unfolding e(5) by blast
  from report [where f = call', OF m w1 c(1-3)] obtain w' where w': "do { (r, w) \<leftarrow> on_fish call' ?w; if r < 0 then fish_fail b cmd r w else Some w } = Some w'"
    "quiet view ?w w'" "w_fish w' = fs" by blast
  have "full (w_dev w') = full (w_dev w)"
    using w'(1) c(2) fish_fail_full [OF kb] by (auto simp: on_fish_def split: if_splits)
  with w' c(4,5) show ?thesis by (intro exI [of _ r] exI [of _ w']) (auto simp: quiet_def)
qed

subsection \<open>Sessions\<close>

text \<open>What the specification makes of a list of calls.\<close>

definition spec_calls :: "call list \<Rightarrow> volume \<Rightarrow> volume" where
  "spec_calls = fold (\<lambda>c v. snd (spec_call c v))"

lemma session_prompts:
  assumes m: "machine b view" and kb: "keyboard_line b full"
  shows "sound view w \<Longrightarrow> keyboard_slot (w_slots w) \<Longrightarrow> attended full w \<Longrightarrow>
    keys_to_come full w = concat (map (\<lambda>t. map sint t @ [10]) ts) @ rest \<Longrightarrow>
    list_all (\<lambda>t. printable t \<and> length t \<le> 255) ts \<Longrightarrow> map line_call ts = map Some cs \<Longrightarrow>
    \<exists>w'. prompts b stack w w' \<and> sound view w' \<and> attended full w' \<and> keys_to_come full w' = rest \<and>
      volume_of (w_fish w') = spec_calls cs (volume_of (w_fish w))"
proof (induction ts arbitrary: w cs)
  case Nil
  then show ?case by (auto intro: prompts.here simp: spec_calls_def)
next
  case (Cons t ts)
  from Cons.prems(6) obtain c cs' where cs: "cs = c # cs'" "line_call t = Some c" "map line_call ts = map Some cs'"
    by (cases cs) auto
  have t: "printable t" "length t \<le> 255" using Cons.prems(5) by simp_all
  have come: "keys_to_come full w = map sint t @ 10 # concat (map (\<lambda>t. map sint t @ [10]) ts) @ rest"
    using Cons.prems(4) by simp
  from m kb Cons.prems(1-3) t come obtain w0 w1 where w1: "turn b stack w = execute b stack w1" "sound view w1" "attended full w1"
    "keys_to_come full w1 = concat (map (\<lambda>t. map sint t @ [10]) ts) @ rest" "text_of (w_line w1) = t" "terminated (w_line w1)"
    "input_and_console w w1" by (rule typed_turn [where stack = stack])
  from execute_call [OF m kb w1(2,6), of c stack] w1(5) cs(2) obtain r w2 where w2: "execute b stack w1 = Some (Returned w2)"
    "sound view w2" "w_kbd w2 = w_kbd w1" "w_halts w2 = w_halts w1" "w_slots w2 = w_slots w1" "full (w_dev w2) = full (w_dev w1)"
    "spec_call c (volume_of (w_fish w1)) = (r, volume_of (w_fish w2))" by blast
  have "keyboard_slot (w_slots w2)" "attended full w2" "keys_to_come full w2 = concat (map (\<lambda>t. map sint t @ [10]) ts) @ rest"
    using Cons.prems(2) w1 w2 by (simp_all add: input_and_console_def attended_def keys_to_come_def)
  from Cons.IH [OF w2(2) this _ cs(3)] Cons.prems(5) obtain w' where w': "prompts b stack w2 w'" "sound view w'" "attended full w'"
    "keys_to_come full w' = rest" "volume_of (w_fish w') = spec_calls cs' (volume_of (w_fish w2))" by auto
  have "prompts b stack w w'" using w1(1) w2(1) by (intro prompts_first [OF w'(1)]) simp
  moreover have "spec_calls cs (volume_of (w_fish w)) = spec_calls cs' (volume_of (w_fish w2))"
    using w2(7) w1(7) by (simp add: cs(1) spec_calls_def input_and_console_def)
  ultimately show ?case using w' by auto
qed

subsection \<open>Properties\<close>

lemma pc_bus_kbc: "kbc_wired pc_bus snd"
  by (auto simp: kbc_wired_def pc_bus_def split: list.splits)

lemma pc_bus_line: "keyboard_line pc_bus snd"
  using pc_bus_kbc by (auto simp: keyboard_line_def pc_bus_def)

text \<open>The machine with the bytes of some lines in its controller; the timer ticks between the keys.\<close>

definition typing_world :: "bytes list \<Rightarrow> (drive \<times> bytes) world" where
  "typing_world ts = (let bs = concat (map line_bytes ts) in
     demo_world [] (replicate (length bs) [at_vector 32, at_vector 33])\<lparr>w_dev := (demo_drive, bs)\<rparr>)"

lemma typing_world_ready:
  "sound fst (typing_world ts)" "keyboard_slot (w_slots (typing_world ts))" "attended snd (typing_world ts)"
  "pending (w_kbd (typing_world ts)) = []" "flags_of (w_kbd (typing_world ts)) = released"
  "snd (w_dev (typing_world ts)) = concat (map line_bytes ts)" "volume_of (w_fish (typing_world ts)) = empty_volume"
proof -
  let ?hs = "replicate (length (concat (map line_bytes ts))) [at_vector 32, at_vector 33]"
  have "hardware_irq (at_vector 32)" by (auto simp: hardware_irq_def at_vector_def intro!: exI [of _ 0])
  moreover have "hardware_irq (at_vector 33)" by (auto simp: hardware_irq_def at_vector_def intro!: exI [of _ 1])
  ultimately have w: "sound fst (demo_world [] ?hs)" "pending (w_kbd (demo_world [] ?hs)) = []"
    by (rule_tac [!] demo_world_sound) (simp_all add: list_all_iff)
  then show "sound fst (typing_world ts)" "pending (w_kbd (typing_world ts)) = []"
    by (simp_all add: typing_world_def Let_def sound_def world_ok_def demo_world_def)
  have "keys_in [at_vector 32, at_vector 33] = 1" by (simp add: keys_in_def at_vector_def)
  then show "attended snd (typing_world ts)"
    by (simp add: attended_def typing_world_def Let_def demo_world_def sum_list_replicate list_all_iff)
  show "keyboard_slot (w_slots (typing_world ts))"
    by (auto simp: keyboard_slot_def typing_world_def Let_def demo_world_def nth_Cons' nth_append)
  show "flags_of (w_kbd (typing_world ts)) = released" "snd (w_dev (typing_world ts)) = concat (map line_bytes ts)"
    by (simp_all add: typing_world_def Let_def demo_world_def flags_of_def keyboard_with_def released_def)
  show "volume_of (w_fish (typing_world ts)) = empty_volume"
    using fish_init_empty [of "\<lparr>nodes = [], current = 0\<rparr>"] by (auto simp: typing_world_def Let_def demo_world_def)
qed

text \<open>
  C13: A line typed at the keyboard is the line the shell executes. The bytes of the keys wait in the controller, each with its
  interrupt to come, mixed with any others and at most 127 in one halt; then after the prompt the shell reads
  exactly the text typed, printable and at most 255 characters, with nothing lost, doubled or reordered, the console shows
  the text and a new line, and what was typed behind Enter is still to come.
\<close>

theorem typed_line:
  assumes "machine b view" and "keyboard_line b full" and "sound view w" and "keyboard_slot (w_slots w)" and "attended full w"
    and "pending (w_kbd w) = []" and "flags_of (w_kbd w) = released" and "full (w_dev w) = line_bytes t @ rest"
    and "printable t" and "length t \<le> 255"
  shows "\<exists>w1 w'. shell_prompt b w = Some w1 \<and> read_line b 0 w1 = Some (Returned w') \<and> sound view w' \<and>
    text_of (w_line w') = t \<and> terminated (w_line w') \<and> w_fish w' = w_fish w \<and> w_user w' = w_user w \<and>
    keys_to_come full w' = snd (decode_all rest released) \<and> attended full w' \<and>
    (\<forall>d. \<exists>d'. vga_write b (t @ [10, 0]) (w_vga w1, d) = Some (w_vga w', d')) \<and>
    turn b stack w = execute b stack w'"
proof -
  have "keys_to_come full w = map sint t @ 10 # snd (decode_all rest released)"
    using assms(6-8) line_decode [OF assms(9)] decode_all_split(2) [of "line_bytes t" rest released] by (simp add: keys_to_come_def)
  with assms(1-5,9,10) obtain w1 w' where "shell_prompt b w = Some w1" "read_line b 0 w1 = Some (Returned w')"
    "turn b stack w = execute b stack w'" "sound view w'" "attended full w'" "keys_to_come full w' = snd (decode_all rest released)"
    "text_of (w_line w') = t" "terminated (w_line w')" "input_and_console w w'" "shows_text b (t @ [10]) (w_vga w1) (w_vga w')"
    by (rule typed_turn [where stack = stack])
  then show ?thesis by (intro exI [of _ w1] exI [of _ w']) (auto simp: input_and_console_def shows_text_def)
qed

theorem typed_line_witness:
  "\<exists>w1 w'. shell_prompt pc_bus (typing_world [bytes_of ''ls'']) = Some w1 \<and> read_line pc_bus 0 w1 = Some (Returned w') \<and>
     text_of (w_line w') = bytes_of ''ls''"
proof -
  note w = typing_world_ready [of "[bytes_of ''ls'']"]
  have "snd (w_dev (typing_world [bytes_of ''ls''])) = line_bytes (bytes_of ''ls'') @ []" unfolding w(6) by simp
  moreover have "printable (bytes_of ''ls'')" "length (bytes_of ''ls'') \<le> 255" by simp_all
  ultimately show ?thesis using typed_line [OF pc_bus_machine pc_bus_line w(1-5), of "bytes_of ''ls''" "[]"] by blast
qed

text \<open>
  C3: From the keyboard to the tree of paths. Whatever lines of file commands are typed, any number of them, with all the
  interrupts their keys raise and any others between, the shell reaches the prompt after the last one, and the volume is then
  what the specification makes of the calls that the lines name, one after the other, from what it was.
\<close>

theorem typed_session:
  assumes "machine b view" and "keyboard_line b full" and "sound view w" and "keyboard_slot (w_slots w)" and "attended full w"
    and "pending (w_kbd w) = []" and "flags_of (w_kbd w) = released" and "full (w_dev w) = concat (map line_bytes ts)"
    and "list_all (\<lambda>t. printable t \<and> length t \<le> 255) ts" and "map line_call ts = map Some cs"
  shows "\<exists>w'. prompts b stack w w' \<and> sound view w' \<and> keys_to_come full w' = [] \<and>
    volume_of (w_fish w') = fold (\<lambda>c v. snd (spec_call c v)) cs (volume_of (w_fish w))"
proof -
  have "list_all printable ts" using assms(9) by (simp add: list_all_iff)
  then have "keys_to_come full w = concat (map (\<lambda>t. map sint t @ [10]) ts) @ []"
    using assms(6-8) session_decode by (simp add: keys_to_come_def)
  from session_prompts [OF assms(1-5) this assms(9,10), of stack] show ?thesis by (auto simp: spec_calls_def)
qed

theorem typed_session_witness:
  "\<exists>w'. prompts pc_bus (replicate 512 0) (typing_world [bytes_of ''mkdir docs'', bytes_of ''cd docs'', bytes_of ''touch a'', bytes_of ''write a  Hi!'']) w' \<and>
     tree (volume_of (w_fish w')) [bytes_of ''docs'', bytes_of ''a''] = Some (File (bytes_of ''Hi!'')) \<and>
     cwd (volume_of (w_fish w')) = [bytes_of ''docs'']"
proof -
  let ?ts = "[bytes_of ''mkdir docs'', bytes_of ''cd docs'', bytes_of ''touch a'', bytes_of ''write a  Hi!'']"
  let ?cs = "[Mkdir (literal ''docs''), Chdir (literal ''docs''), Create (literal ''a''), Write (literal ''a'') (literal ''Hi!'')]"
  note w = typing_world_ready [of ?ts]
  have t: "list_all (\<lambda>t. printable t \<and> length t \<le> 255) ?ts" by simp
  have c: "map line_call ?ts = map Some ?cs"
    by (simp add: line_call_table command_names line_words_def Let_def literal_def file_word_def file_text_def)
  from typed_session [OF pc_bus_machine pc_bus_line w(1-6) t c, of "replicate 512 0"] obtain w' where
    w': "prompts pc_bus (replicate 512 0) (typing_world ?ts) w'"
    "volume_of (w_fish w') = fold (\<lambda>c v. snd (spec_call c v)) ?cs empty_volume" unfolding w(7) by blast
  have "fold (\<lambda>c v. snd (spec_call c v)) ?cs empty_volume =
      ([[] \<mapsto> Directory, [bytes_of ''docs''] \<mapsto> Directory, [bytes_of ''docs'', bytes_of ''a''] \<mapsto> File (bytes_of ''Hi!'')], [bytes_of ''docs''])"
    by (simp add: empty_volume_def spec_make_def spec_chdir_def spec_update_def legal_name_def text_of_literal fish_sizes blank_or_control_def)
  with w' show ?thesis by auto
qed

end
