(* ===== verification/Preempt.thy ===== *)
theory Preempt
  imports Shell_Props
begin

text \<open>
  Interrupts and commands. The model of the shell takes interrupts at \<open>hlt\<close>. Here it is shown how little depends on that: the
  handlers change the counter, the key buffer and the devices behind their own ports; such a change commutes with every call of
  a driver that the commands make, so a command ends the same with interrupts before it.
\<close>

subsection \<open>Changes the drivers do not see\<close>

text \<open>A change of the devices that commutes with every access to the ports of the disk and the console.\<close>

definition unseen :: "'d bus \<Rightarrow> ('d \<Rightarrow> 'd) \<Rightarrow> bool" where
  "unseen b g \<longleftrightarrow> ata_hom b b g \<and> (\<forall>d p v. p \<in> {CRTC_INDEX, CRTC_DATA} \<longrightarrow> g (port_out b d p v) = port_out b (g d) p v)"

text \<open>The devices of the handlers, the interrupt controllers and the keyboard, are apart from the disk and the console.\<close>

definition separate :: "'d bus \<Rightarrow> bool" where
  "separate b \<longleftrightarrow> (\<forall>v. unseen b (\<lambda>d. port_out b d 0x20 v)) \<and> (\<forall>v. unseen b (\<lambda>d. port_out b d 0xA0 v)) \<and>
     unseen b (\<lambda>d. snd (port_in b d KBD_DATA))"

lemma unseen_id: "unseen b (\<lambda>d. d)"
  by (simp add: unseen_def ata_hom_def id_def prod.map_ident)

lemma map_snd_comp: "map_prod id (\<lambda>d. f (g d)) x = map_prod id f (map_prod id g x)"
  by (cases x) simp

lemma unseen_comp: "unseen b f \<Longrightarrow> unseen b g \<Longrightarrow> unseen b (\<lambda>d. f (g d))"
  by (simp add: unseen_def ata_hom_def map_snd_comp)

text \<open>The state of the kernel with such a change, and another counter and keyboard.\<close>

definition after :: "('d \<Rightarrow> 'd) \<Rightarrow> ticks \<Rightarrow> keyboard \<Rightarrow> 'd world \<Rightarrow> 'd world" where
  "after g t k w = w\<lparr>w_ticks := t, w_kbd := k, w_dev := g (w_dev w)\<rparr>"

lemma after_fields [simp]:
  "w_vga (after g t k w) = w_vga w" "w_kbd (after g t k w) = k" "w_ticks (after g t k w) = t" "w_slots (after g t k w) = w_slots w"
  "w_user (after g t k w) = w_user w" "w_fish (after g t k w) = w_fish w" "w_present (after g t k w) = w_present w"
  "w_line (after g t k w) = w_line w" "w_dev (after g t k w) = g (w_dev w)" "w_halts (after g t k w) = w_halts w"
  by (simp_all add: after_def)

lemma after_after: "after g t k (after g' t' k' w) = after (\<lambda>d. g (g' d)) t k w"
  by (simp add: after_def)

text \<open>An interrupt is such a change, and leaves the drive as it is.\<close>

definition harmless :: "'d bus \<Rightarrow> ('d \<Rightarrow> drive) \<Rightarrow> ('d \<Rightarrow> 'd) \<Rightarrow> bool" where
  "harmless b view g \<longleftrightarrow> unseen b g \<and> (\<forall>d. view (g d) = view d)"

lemma harmless_comp: "harmless b view f \<Longrightarrow> harmless b view g \<Longrightarrow> harmless b view (\<lambda>d. f (g d))"
  by (simp add: harmless_def unseen_comp)

lemma end_of_irq_unseen: "separate b \<Longrightarrow> unseen b (end_of_irq b n)"
  unfolding end_of_irq_def [abs_def] outb_def separate_def by (cases "n \<ge> 8") (auto intro: unseen_comp)

lemma end_of_irq_harmless: "machine b view \<Longrightarrow> separate b \<Longrightarrow> harmless b view (end_of_irq b n)"
  by (simp add: harmless_def end_of_irq_unseen) (simp add: end_of_irq_def machine_quiet quiet_ports)

lemma interrupt_after:
  assumes m: "machine b view" and s: "separate b" and w: "length (w_slots w) = 16" and i: "hardware_irq regs" and v: "interrupt b regs w = Some v"
  shows "\<exists>g t k. harmless b view g \<and> v = after g t k w"
proof -
  from i obtain n where n: "n < 16" "int_no regs = 32 + of_nat n" by (auto simp: hardware_irq_def)
  let ?st = "((w_ticks w, w_kbd w), w_dev w)"
  note e = irq_handler_eq [OF w n, of b "handler_call b" ?st]
  note eoi = end_of_irq_harmless [OF m s, of n]
  show ?thesis
  proof (cases "w_slots w ! n")
    case None
    with v e have "v = after (end_of_irq b n) (w_ticks w) (w_kbd w) w" by (simp add: interrupt_def after_def)
    with eoi show ?thesis by blast
  next
    case (Some h)
    show ?thesis
    proof (cases h)
      case Timer_callback
      with Some v e have "v = after (end_of_irq b n) (timer_callback (w_ticks w)) (w_kbd w) w" by (simp add: interrupt_def after_def)
      with eoi show ?thesis by blast
    next
      case Keyboard_callback
      with Some v e obtain k where "v = after (\<lambda>d. end_of_irq b n (snd (inb b KBD_DATA d))) (w_ticks w) k w"
        by (auto simp: interrupt_def after_def keyboard_callback_def split: bind_split_asm prod.splits)
      moreover have "harmless b view (\<lambda>d. snd (inb b KBD_DATA d))"
        using s machine_quiet(2) [OF m quiet_ports(3)] by (simp add: harmless_def separate_def inb_def)
      note harmless_comp [OF eoi this]
      ultimately show ?thesis by blast
    qed
  qed
qed

lemma interrupts_after:
  assumes m: "machine b view" and s: "separate b"
  shows "length (w_slots w) = 16 \<Longrightarrow> list_all hardware_irq rs \<Longrightarrow> interrupts b rs w = Some v \<Longrightarrow>
    \<exists>g t k. harmless b view g \<and> v = after g t k w"
proof (induction rs arbitrary: w)
  case Nil
  then have "v = after (\<lambda>d. d) (w_ticks w) (w_kbd w) w" by (simp add: after_def)
  with unseen_id [of b] show ?case unfolding harmless_def by blast
next
  case (Cons r rs)
  then obtain w1 where w1: "interrupt b r w = Some w1" "interrupts b rs w1 = Some v" by (auto split: bind_split_asm)
  from interrupt_after [OF m s Cons.prems(1) _ w1(1)] Cons.prems(2) obtain g t k where
    a: "harmless b view g" "w1 = after g t k w" by auto
  from Cons.IH [OF _ _ w1(2)] Cons.prems a(2) obtain g' t' k' where "harmless b view g'" "v = after g' t' k' w1" by auto
  with a have "harmless b view (\<lambda>d. g' (g d))" "v = after (\<lambda>d. g' (g d)) t' k' w"
    by (simp_all add: harmless_comp after_after)
  then show ?case by blast
qed

subsection \<open>The drivers\<close>

text \<open>Moving a change of the state through the steps of a computation.\<close>

lemma bind_moves: "Option.bind (map_option h x) f = Option.bind x (\<lambda>y. f (h y))"
  by (cases x) simp_all

lemma map_option_moves: "map_option h (Option.bind x f) = Option.bind x (\<lambda>y. map_option h (f y))"
  by (cases x) simp_all

lemma map_option_if: "map_option h (if c then x else y) = (if c then map_option h x else map_option h y)"
  by simp

lemma map_option_option:
  "map_option h (case x of None \<Rightarrow> y | Some z \<Rightarrow> f z) = (case x of None \<Rightarrow> map_option h y | Some z \<Rightarrow> map_option h (f z))"
  by (simp split: option.split)

lemma map_option_prod: "map_option h (case q of (x, y) \<Rightarrow> f x y) = (case q of (x, y) \<Rightarrow> map_option h (f x y))"
  by (simp split: prod.split)

lemma map_prod_moves: "(case map_prod id h q of (x, y) \<Rightarrow> f x y) = (case q of (x, y) \<Rightarrow> f x (h y))"
  by (simp split: prod.split)

lemmas moving = bind_moves map_option_moves map_option_if map_option_option map_option_prod map_prod_moves

lemmas cases_cong = if_cong prod.case_cong option.case_cong

locale interference =
  fixes b :: "'d bus" and g :: "'d \<Rightarrow> 'd"
  assumes g: "unseen b g"
begin

lemma hom: "ata_hom b b g"
  using g by (simp add: unseen_def)

lemma update_cursor_g: "update_cursor b v (g d) = g (update_cursor b v d)"
  using g by (simp add: unseen_def update_cursor_def Let_def outb_def)

lemma putchar_g: "vga_putchar b c (v, g d) = map_option (map_prod id g) (vga_putchar b c (v, d))"
  by (simp add: vga_putchar_def update_cursor_g moving)

lemma write_g: "vga_write b s (v, g d) = map_option (map_prod id g) (vga_write b s (v, d))"
proof (induction s arbitrary: v d)
  case (Cons c s)
  show ?case by (cases "vga_putchar b c (v, d)") (auto simp: putchar_g Cons)
qed simp

lemma updates_after:
  "(after g t k w)\<lparr>w_fish := fs\<rparr> = after g t k (w\<lparr>w_fish := fs\<rparr>)"
  "(after g t k w)\<lparr>w_user := u\<rparr> = after g t k (w\<lparr>w_user := u\<rparr>)"
  "(after g t k w)\<lparr>w_vga := v\<rparr> = after g t k (w\<lparr>w_vga := v\<rparr>)"
  "(after g t k w)\<lparr>w_present := i\<rparr> = after g t k (w\<lparr>w_present := i\<rparr>)"
  "(after g t k w)\<lparr>w_dev := g d\<rparr> = after g t k (w\<lparr>w_dev := d\<rparr>)"
  by (cases w; simp add: after_def)+

lemma on_console_after:
  assumes "\<And>v d. f (v, g d) = map_option (map_prod id g) (f (v, d))"
  shows "on_console f (after g t k w) = map_option (after g t k) (on_console f w)"
  by (simp add: on_console_def assms updates_after moving cong: cases_cong)

lemma print_after: "print b s (after g t k w) = map_option (after g t k) (print b s w)"
  unfolding print_def by (rule on_console_after) (rule write_g)

lemma putc_after: "putc b c (after g t k w) = map_option (after g t k) (putc b c w)"
  unfolding putc_def by (rule on_console_after) (rule putchar_g)

lemma color_after: "color f h (after g t k w) = after g t k (color f h w)"
  by (simp add: color_def after_def)

lemma on_fish_after: "on_fish f (after g t k w) = map_option (map_prod id (after g t k)) (on_fish f w)"
  by (simp add: on_fish_def updates_after moving cong: cases_cong)

lemma on_user_after: "on_user f (after g t k w) = map_option (map_prod id (after g t k)) (on_user f w)"
  by (simp add: on_user_def updates_after moving cong: cases_cong)

lemma disk_after: "disk (after g t k w) = ata_view g (disk w)"
  by (simp add: disk_def ata_view_def)

lemma with_disk_after: "with_disk (ata_view g a) (after g t k w) = after g t k (with_disk a w)"
  by (simp add: with_disk_def ata_view_def updates_after)

lemmas steps_after = print_after putc_after color_after on_fish_after on_user_after disk_after with_disk_after
  updates_after moving

lemma present_g: "ata_present (ata_view g a) = ata_present a"
  by (simp add: ata_present_def ata_view_def)

lemma save_nodes_g: "save_nodes b n s i source (ata_view g a) = map_option (map_prod id (ata_view g)) (save_nodes b n s i source a)"
proof (induction n arbitrary: s i a)
  case (Suc n)
  then show ?case by (simp add: ata_write_view [OF hom] Let_def moving cong: cases_cong)
qed simp

lemma fish_save_g: "fish_save b fs (ata_view g a) = map_option (map_prod id (ata_view g)) (fish_save b fs a)"
  by (simp add: fish_save_def present_g ata_write_view [OF hom] save_nodes_g Let_def moving cong: cases_cong)

lemma load_nodes_g: "load_nodes b n s i sector dest (ata_view g a) =
    map_option (map_prod id (map_prod id (ata_view g))) (load_nodes b n s i sector dest a)"
proof (induction n arbitrary: s i sector dest a)
  case (Suc n)
  then show ?case by (simp add: ata_read_view [OF hom] Let_def moving cong: cases_cong)
qed simp

lemma load_finish_g: "load_finish c fs (ata_view g a) = map_option (map_prod id (map_prod id (ata_view g))) (load_finish c fs a)"
  by (simp add: load_finish_def Let_def moving cong: cases_cong)

lemma fish_load_g: "fish_load b stack fs (ata_view g a) = map_option (map_prod id (map_prod id (ata_view g))) (fish_load b stack fs a)"
  by (simp add: fish_load_def present_g ata_read_view [OF hom] load_nodes_g load_finish_g Let_def moving cong: cases_cong)

subsection \<open>The commands\<close>

lemma print_number_after: "print_number b n (after g t k w) = map_option (after g t k) (print_number b n w)"
  by (simp add: print_number_def steps_after cong: cases_cong)

lemma print_all_after: "print_all b ss (after g t k w) = map_option (after g t k) (print_all b ss w)"
  by (induction ss arbitrary: w) (simp_all add: steps_after cong: cases_cong)

lemma cat_loop_after: "cat_loop b n i data (after g t k w) = map_option (after g t k) (cat_loop b n i data w)"
  by (induction n arbitrary: i w) (simp_all add: steps_after cong: cases_cong)

lemma pad_after: "pad b n (after g t k w) = map_option (after g t k) (pad b n w)"
  by (induction n arbitrary: w) (simp_all add: steps_after cong: cases_cong)

lemma write_padded_after: "write_padded b nm args (after g t k w) = map_option (after g t k) (write_padded b nm args w)"
  by (cases "aget args 0 = Some 0"; cases "aget args 0") (simp_all add: write_padded_def pad_after steps_after cong: cases_cong)

lemma help_rows_after: "help_rows b rs (after g t k w) = map_option (after g t k) (help_rows b rs w)"
  by (induction rs arbitrary: w) (simp_all add: write_padded_after steps_after cong: cases_cong)

lemma help_page_after: "help_page b page (after g t k w) = map_option (after g t k) (help_page b page w)"
  by (simp add: help_page_def print_number_after help_rows_after Let_def steps_after cong: cases_cong)

lemma cmd_help_after: "cmd_help b arg (after g t k w) = map_option (after g t k) (cmd_help b arg w)"
  by (simp add: cmd_help_def help_page_after steps_after cong: cases_cong)

lemma fish_fail_after: "fish_fail b cmd code (after g t k w) = map_option (after g t k) (fish_fail b cmd code w)"
  by (simp add: fish_fail_def steps_after cong: cases_cong)

lemma save_names_after: "save_names (after g t k w) = map_option (after g t k) (save_names w)"
  by (simp add: save_names_def steps_after cong: cases_cong)

lemmas commands_after = steps_after print_number_after print_all_after cat_loop_after cmd_help_after fish_fail_after
  save_names_after fish_save_g fish_load_g present_g

lemma cmd_clear_after: "cmd_clear b (after g t k w) = map_option (after g t k) (cmd_clear b w)"
  unfolding cmd_clear_def by (rule on_console_after) (simp add: vga_clear_def update_cursor_g Let_def moving cong: cases_cong)

lemma cmd_about_after: "cmd_about b (after g t k w) = map_option (after g t k) (cmd_about b w)"
  by (simp add: cmd_about_def commands_after cong: cases_cong)

lemma cmd_cd_after: "cmd_cd b arg (after g t k w) = map_option (after g t k) (cmd_cd b arg w)"
  by (simp add: cmd_cd_def commands_after cong: cases_cong)

lemma fish_command_after:
  "fish_command b usage cmd call arg (after g t k w) = map_option (after g t k) (fish_command b usage cmd call arg w)"
  by (simp add: fish_command_def commands_after cong: cases_cong)

lemma write_common_after: "write_common b arg appending (after g t k w) = map_option (after g t k) (write_common b arg appending w)"
  by (simp add: write_common_def commands_after cong: cases_cong)

lemma cmd_cat_after: "cmd_cat b arg (after g t k w) = map_option (after g t k) (cmd_cat b arg w)"
  by (simp add: cmd_cat_def commands_after cong: cases_cong)

lemma cmd_color_after: "cmd_color b arg (after g t k w) = map_option (after g t k) (cmd_color b arg w)"
  by (simp add: cmd_color_def Let_def commands_after cong: cases_cong)

lemma cmd_user_after: "cmd_user b arg (after g t k w) = map_option (after g t k) (cmd_user b arg w)"
  by (simp add: cmd_user_def commands_after cong: cases_cong)

lemma cmd_hostname_after: "cmd_hostname b arg (after g t k w) = map_option (after g t k) (cmd_hostname b arg w)"
  by (simp add: cmd_hostname_def commands_after cong: cases_cong)

lemma cmd_save_after: "cmd_save b (after g t k w) = map_option (after g t k) (cmd_save b w)"
  by (simp add: cmd_save_def Let_def commands_after cong: cases_cong)

lemma cmd_load_after: "cmd_load b stack (after g t k w) = map_option (after g t k) (cmd_load b stack w)"
  by (simp add: cmd_load_def Let_def commands_after cong: cases_cong)

lemma cmd_format_after: "cmd_format b (after g t k w) = map_option (after g t k) (cmd_format b w)"
  by (simp add: cmd_format_def Let_def commands_after cong: cases_cong)

lemma ls_entries_after: "ls_entries b es (after g t k w) = map_option (after g t k) (ls_entries b es w)"
  by (induction es arbitrary: w) (simp_all add: ls_entry_def commands_after split_beta cong: cases_cong)

lemma cmd_ls_after:
  assumes "list_loop 65 fish_first (w_fish w) = Some es"
  shows "cmd_ls b (after g t k w) = map_option (after g t k) (cmd_ls b w)"
  using cmd_ls_eq [OF assms, of b] cmd_ls_eq [of "after g t k w" es b] assms
  by (simp add: ls_entries_after Let_def commands_after cong: cases_cong)

text \<open>The commands that show the time show the one the interrupts have made.\<close>

lemma print_unit_after: "print_unit b n word (after g t k w) = map_option (after g t k) (print_unit b n word w)"
  by (simp add: print_unit_def commands_after cong: cases_cong)

lemma cmd_uptime_after: "w_ticks w = t \<Longrightarrow> cmd_uptime b (after g t k w) = map_option (after g t k) (cmd_uptime b w)"
  by (cases "0 < timer_seconds t div 3600"; cases "0 < timer_seconds t div 60 mod 60")
    (simp_all add: cmd_uptime_def Let_def print_unit_after commands_after cong: cases_cong)

lemma cmd_ticks_after: "w_ticks w = t \<Longrightarrow> cmd_ticks b (after g t k w) = map_option (after g t k) (cmd_ticks b w)"
  by (simp add: cmd_ticks_def commands_after cong: cases_cong)

lemma run_command_after:
  assumes "list_loop 65 fish_first (w_fish w) = Some es" "f \<notin> {Cmd_uptime, Cmd_ticks, Cmd_sleep, Cmd_reboot}"
  shows "run_command b stack f arg (after g t k w) = map_option (map_outcome (after g t k)) (run_command b stack f arg w)"
  using assms(2)
  by (cases f)
    (simp_all add: option.map_comp o_def cmd_help_after cmd_clear_after cmd_about_after cmd_cd_after fish_command_after write_common_after
      cmd_cat_after cmd_color_after cmd_user_after cmd_hostname_after cmd_save_after cmd_load_after cmd_format_after
      cmd_ls_after [OF assms(1)] cmd_neofetch_def cmd_echo_def cmd_pwd_def cmd_mkdir_def cmd_touch_def cmd_write_def
      cmd_append_def cmd_rm_def cmd_disk_def cmd_whoami_def cmd_halt_def commands_after cong: cases_cong)

lemma run_clock_after:
  assumes "list_loop 65 fish_first (w_fish w) = Some es" "f \<notin> {Cmd_sleep, Cmd_reboot}"
  shows "run_command b stack f arg (after g t k w) = map_option (map_outcome (after g t k)) (run_command b stack f arg (w\<lparr>w_ticks := t\<rparr>))"
proof -
  let ?w = "w\<lparr>w_ticks := t\<rparr>"
  have v: "after g t k w = after g t k ?w" by (simp add: after_def)
  have l: "list_loop 65 fish_first (w_fish ?w) = Some es" using assms(1) by simp
  consider "f = Cmd_uptime" | "f = Cmd_ticks" | "f \<notin> {Cmd_uptime, Cmd_ticks, Cmd_sleep, Cmd_reboot}" using assms(2) by auto
  then show ?thesis unfolding v
    by cases (simp_all add: run_command_after [OF l] cmd_uptime_after cmd_ticks_after option.map_comp o_def)
qed

end

subsection \<open>Interrupts before a command\<close>

text \<open>The machine of \<open>Shell_Props\<close> keeps its devices apart.\<close>

lemma pc_bus_separate: "separate pc_bus"
proof -
  have "drive_out 0x20 v h = h" "drive_out 0xA0 v h = h" "drive_out CRTC_INDEX v h = h" "drive_out CRTC_DATA v h = h" for v h
    by (simp_all add: drive_out_def ata_ports CRTC_INDEX_def CRTC_DATA_def)
  then show ?thesis
    unfolding separate_def unseen_def ata_hom_def pc_bus_def
    by (auto simp: KBD_DATA_def ata_ports split: prod.splits list.splits)
qed

interpretation pc_acknowledged: interference pc_bus "end_of_irq pc_bus n" for n
  by unfold_locales (rule end_of_irq_unseen [OF pc_bus_separate])

interpretation pc_key: interference pc_bus "\<lambda>d. snd (port_in pc_bus d KBD_DATA)"
  by unfold_locales (use pc_bus_separate in \<open>simp add: separate_def\<close>)

text \<open>
  C18: Interrupts that arrive before a command, key presses and ticks in any number and order, are taken without a fault and
  do not disturb it. For every command but \<open>sleep\<close>, \<open>reboot\<close>, \<open>uptime\<close> and \<open>ticks\<close>: apart from the counter, the key buffer and what
  the handlers changed in their own devices, the command ends as it would have ended without them, with the same outcome, screen,
  files, names, disk and drive registers. \<open>uptime\<close> and \<open>ticks\<close> show the counter: they end as they would with
  nothing but the counter advanced. \<open>sleep\<close> waits for interrupts and \<open>reboot\<close> for the keyboard controller, so nothing is said of them.
\<close>

theorem commands_undisturbed:
  assumes "machine b view" "separate b" "sound view w" "list_all hardware_irq rs" "f \<notin> {Cmd_sleep, Cmd_reboot}"
  shows "\<exists>v g t k. interrupts b rs w = Some v \<and> harmless b view g \<and> v = after g t k w \<and>
    (f \<notin> {Cmd_uptime, Cmd_ticks} \<longrightarrow>
      run_command b stack f arg v = map_option (map_outcome (after g t k)) (run_command b stack f arg w)) \<and>
    run_command b stack f arg v = map_option (map_outcome (after g t k)) (run_command b stack f arg (w\<lparr>w_ticks := t\<rparr>))"
proof -
  obtain v where v: "interrupts b rs w = Some v"
    using interrupts_total [OF assms(1) sound_input_ready [OF assms(3)] assms(4)] by blast
  then obtain g t k where g: "harmless b view g" "v = after g t k w"
    using interrupts_after [OF assms(1,2) soundD(3) [OF assms(3)] assms(4)] by blast
  obtain es where es: "list_loop 65 fish_first (w_fish w) = Some es"
    using fish_listing [OF soundD(5) [OF assms(3)]] by blast
  have i: "interference b g" using g(1) by (simp add: interference_def harmless_def)
  have "run_command b stack f arg v = map_option (map_outcome (after g t k)) (run_command b stack f arg w)"
    if "f \<notin> {Cmd_uptime, Cmd_ticks}"
    using interference.run_command_after [OF i es, of f] that assms(5) g(2) by simp
  with interference.run_clock_after [OF i es assms(5)] g v show ?thesis by blast
qed

theorem commands_undisturbed_witness:
  "\<exists>v g t k. interrupts pc_bus [at_vector 32, at_vector 33] (demo_world [] []) = Some v \<and> harmless pc_bus fst g \<and>
    v = after g t k (demo_world [] []) \<and>
    run_command pc_bus [] Cmd_ls [0] v = map_option (map_outcome (after g t k)) (run_command pc_bus [] Cmd_ls [0] (demo_world [] []))"
proof -
  have s: "sound fst (demo_world [] [])" by (rule demo_world_sound(1)) simp_all
  have "hardware_irq (at_vector 32)" by (auto simp: hardware_irq_def at_vector_def intro!: exI [of _ 0])
  moreover have "hardware_irq (at_vector 33)" by (auto simp: hardware_irq_def at_vector_def intro!: exI [of _ 1])
  ultimately have "list_all hardware_irq [at_vector 32, at_vector 33]" by simp
  from commands_undisturbed [OF pc_bus_machine pc_bus_separate s this, of Cmd_ls "[]" "[0]"] show ?thesis by auto
qed

subsection \<open>Interrupts between the commands\<close>

text \<open>
  The steps of the running kernel in any order: an interrupt of the hardware, a call of \<open>keyboard_getchar\<close>, a command with an
  argument from the line. The state goes on from wherever a command left it.
\<close>

inductive kernel_step :: "'d bus \<Rightarrow> bytes \<Rightarrow> 'd world \<Rightarrow> 'd world \<Rightarrow> bool" for b :: "'d bus" and stack where
  on_interrupt: "hardware_irq regs \<Longrightarrow> interrupt b regs w = Some w' \<Longrightarrow> kernel_step b stack w w'"
| on_key: "keyboard_getchar (w_kbd w) = Some (key, k) \<Longrightarrow> kernel_step b stack w (w\<lparr>w_kbd := k\<rparr>)"
| on_command: "arg_ok arg \<Longrightarrow> run_command b stack f arg w = Some r \<Longrightarrow> kernel_step b stack w (final r)"

inductive_cases kernel_stepE: "kernel_step b stack w w'"

text \<open>Progress, and preservation of the invariant, for one step.\<close>

lemma sound_progress:
  assumes "machine b view" "accepts_commands b" "length stack = 512" "sound view w"
  shows "hardware_irq regs \<Longrightarrow> interrupt b regs w \<noteq> None" "keyboard_getchar (w_kbd w) \<noteq> None"
    "arg_ok arg \<Longrightarrow> \<not> color_overflow f arg \<Longrightarrow> run_command b stack f arg w \<noteq> None"
proof -
  show "hardware_irq regs \<Longrightarrow> interrupt b regs w \<noteq> None"
    using interrupt_total [OF assms(1) sound_input_ready [OF assms(4)]] by fastforce
  show "keyboard_getchar (w_kbd w) \<noteq> None" using keyboard_getchar_correct [OF soundD(2) [OF assms(4)]] by auto
  show "arg_ok arg \<Longrightarrow> \<not> color_overflow f arg \<Longrightarrow> run_command b stack f arg w \<noteq> None"
    using run_command_settles [OF assms, of arg f] by (auto simp: settles_def gives_def)
qed

lemma sound_preservation:
  assumes "machine b view" "accepts_commands b" "length stack = 512" "sound view w" "kernel_step b stack w w'"
  shows "sound view w'"
  using assms(5)
proof (rule kernel_stepE)
  fix regs assume "hardware_irq regs" "interrupt b regs w = Some w'"
  with interrupt_total [OF assms(1) sound_input_ready [OF assms(4)], of regs] input_onlyD [OF _ assms(4)] show ?thesis by auto
next
  fix key k assume g: "w' = w\<lparr>w_kbd := k\<rparr>" "keyboard_getchar (w_kbd w) = Some (key, k)"
  from keyboard_getchar_correct [OF soundD(2) [OF assms(4)]] g(2) have "keyboard_ok k" by auto
  with sound_input [OF assms(4), of k "w_line w"] soundD(6) [OF assms(4)] g(1) show ?thesis by simp
next
  fix arg f r assume "w' = final r" "arg_ok arg" "run_command b stack f arg w = Some r"
  moreover from this(2,3) have "\<not> color_overflow f arg" using color_overflow_undefined [OF arg_terminated, of arg f b stack w] by auto
  ultimately show ?thesis using run_command_settles [OF assms(1-4), of arg f] by (auto simp: settles_def gives_def)
qed

text \<open>
  C7: The invariant of the kernel is a type. From a sound state, every state that interrupts, reads of the keyboard and commands lead to,
  in any order and number, satisfies the invariant of every component again, and in every such state each of them can run on: no
  interrupt, no read and no command is undefined there. The one exception is \<open>color\<close> with an argument that starts with a
  number of \<open>2 ^ 31\<close> or more (\<open>color_overflow\<close>): that overflows an \<open>int\<close> and is undefined behaviour in every state.
\<close>

theorem kernel_state_typed:
  assumes "machine b view" and "accepts_commands b" and "length stack = 512" and "sound view w"
    and "rtranclp (kernel_step b stack) w w'"
  shows "sound view w' \<and> (\<forall>regs. hardware_irq regs \<longrightarrow> interrupt b regs w' \<noteq> None) \<and> keyboard_getchar (w_kbd w') \<noteq> None \<and>
    (\<forall>f arg. arg_ok arg \<longrightarrow> (run_command b stack f arg w' = None \<longleftrightarrow>
       f = Cmd_color \<and> 2 ^ 31 \<le> decimal 0 (takeWhile is_digit (text_of arg))))"
proof -
  from assms(5) have s: "sound view w'"
    by (induction rule: rtranclp_induct) (use assms(4) sound_preservation [OF assms(1-3)] in auto)
  have "run_command b stack f arg w' = None \<longleftrightarrow> color_overflow f arg" if "arg_ok arg" for f arg
    using sound_progress(3) [OF assms(1-3) s that, of f] color_overflow_undefined [OF arg_terminated [OF that], of f] by blast
  with s sound_progress(1,2) [OF assms(1-3) s] show ?thesis unfolding color_overflow_def by simp
qed

theorem kernel_state_typed_witness:
  "\<exists>w. kernel_step pc_bus (replicate 512 0) (demo_world [104] []) w \<and> w \<noteq> demo_world [104] [] \<and>
     run_command pc_bus (replicate 512 0) Cmd_ls (literal '''') w \<noteq> None"
proof -
  have keys: "length [104 :: int] < 128" "list_all is_key [104]" by (simp_all add: is_key_def)
  note w = demo_world_sound [OF keys, of "[]", simplified list.pred_inject(1), OF TrueI]
  obtain k where k: "keyboard_getchar (w_kbd (demo_world [104] [])) = Some (104, k)" "pending k = []"
    using keyboard_getchar_correct [OF soundD(2) [OF w(1)]] w(2) by auto
  let ?w = "demo_world [104] []\<lparr>w_kbd := k\<rparr>"
  have step: "kernel_step pc_bus (replicate 512 0) (demo_world [104] []) ?w" using k(1) by (rule on_key)
  have "w_kbd ?w \<noteq> w_kbd (demo_world [104] [])" using k(2) w(2) by auto
  then have "?w \<noteq> demo_world [104] []" by metis
  have path: "rtranclp (kernel_step pc_bus (replicate 512 0)) (demo_world [104] []) ?w" using step by (rule r_into_rtranclp)
  have "arg_ok (literal '''')" by (simp add: literal_arg)
  with kernel_state_typed [OF pc_bus_machine pc_bus_accepts length_replicate w(1) path]
  have "run_command pc_bus (replicate 512 0) Cmd_ls (literal '''') ?w \<noteq> None" by blast
  with step \<open>?w \<noteq> demo_world [104] []\<close> show ?thesis by blast
qed

end
