(* ===== verification/Boot.thy ===== *)
theory Boot
  imports Kernel_State
begin

text \<open>
  \<^verbatim>\<open>boot/*.s\<close>: the assembly around the kernel, on a small model of the processor: its registers and the stack as a memory
  of dwords (all its accesses are dwords at multiples of 4 from one another). The multiboot header and the entry
  point, \<open>gdt_flush\<close> and \<open>idt_flush\<close>, and the 48 interrupt stubs, which save the interrupted state as the
  \<open>struct registers\<close> the C handlers are given and restore it afterwards. Jumps between the pieces of a stub are
  concatenation; \<open>c_eip\<close> changes only where the processor itself saves or loads it.
\<close>

datatype seg = DS | ES | FS | GS | SS

record cpu =
  c_eax :: u32
  c_ecx :: u32
  c_edx :: u32
  c_ebx :: u32
  c_esp :: u32
  c_ebp :: u32
  c_esi :: u32
  c_edi :: u32
  c_seg :: "seg \<Rightarrow> u16"
  c_cs :: u16
  c_eip :: u32
  c_eflags :: u32
  c_gdtr :: u32
  c_idtr :: u32
  c_mem :: "u32 \<Rightarrow> u32"

datatype instr =
    Cli | Sti | Push_imm u32 | Push_eax | Push_esp | Pusha | Pop_eax | Popa | Mov_ds_ax | Mov_imm_ax u16 |
    Mov_ax_seg seg | Mov_imm_esp u32 | Add_esp u32 | Mov_arg_eax | Lgdt | Lidt | Ljmp u16 | Iret | Call

definition push :: "u32 \<Rightarrow> cpu \<Rightarrow> cpu" where
  "push x c = c\<lparr>c_esp := c_esp c - 4, c_mem := (c_mem c)(c_esp c - 4 := x)\<rparr>"

definition top :: "cpu \<Rightarrow> nat \<Rightarrow> u32" where
  "top c k = c_mem c (c_esp c + 4 * of_nat k)"

definition drop_words :: "nat \<Rightarrow> cpu \<Rightarrow> cpu" where
  "drop_words k c = c\<lparr>c_esp := c_esp c + 4 * of_nat k\<rparr>"

text \<open>The low half of a register is written, the high half kept.\<close>

definition set_low :: "u16 \<Rightarrow> u32 \<Rightarrow> u32" where
  "set_low x r = push_bit 16 (drop_bit 16 r) OR ucast x"

text \<open>\<open>f\<close> is what the called C function does, from the \<open>call\<close> to its return.\<close>

fun step :: "(cpu \<Rightarrow> cpu) \<Rightarrow> instr \<Rightarrow> cpu \<Rightarrow> cpu" where
  "step f Cli c = c\<lparr>c_eflags := unset_bit 9 (c_eflags c)\<rparr>"
| "step f Sti c = c\<lparr>c_eflags := set_bit 9 (c_eflags c)\<rparr>"
| "step f (Push_imm x) c = push x c"
| "step f Push_eax c = push (c_eax c) c"
| "step f Push_esp c = push (c_esp c) c"
| "step f Pusha c = push (c_edi c) (push (c_esi c) (push (c_ebp c) (push (c_esp c)
     (push (c_ebx c) (push (c_edx c) (push (c_ecx c) (push (c_eax c) c)))))))"
| "step f Pop_eax c = drop_words 1 (c\<lparr>c_eax := top c 0\<rparr>)"
| "step f Popa c = drop_words 8 (c\<lparr>c_edi := top c 0, c_esi := top c 1, c_ebp := top c 2, c_ebx := top c 4,
     c_edx := top c 5, c_ecx := top c 6, c_eax := top c 7\<rparr>)"
| "step f Mov_ds_ax c = c\<lparr>c_eax := set_low (c_seg c DS) (c_eax c)\<rparr>"
| "step f (Mov_imm_ax x) c = c\<lparr>c_eax := set_low x (c_eax c)\<rparr>"
| "step f (Mov_ax_seg s) c = c\<lparr>c_seg := (c_seg c)(s := ucast (c_eax c))\<rparr>"
| "step f (Mov_imm_esp x) c = c\<lparr>c_esp := x\<rparr>"
| "step f (Add_esp x) c = c\<lparr>c_esp := c_esp c + x\<rparr>"
| "step f Mov_arg_eax c = c\<lparr>c_eax := top c 1\<rparr>"
| "step f Lgdt c = c\<lparr>c_gdtr := c_eax c\<rparr>"
| "step f Lidt c = c\<lparr>c_idtr := c_eax c\<rparr>"
| "step f (Ljmp sel) c = c\<lparr>c_cs := sel\<rparr>"
| "step f Iret c = drop_words 3 (c\<lparr>c_eip := top c 0, c_cs := ucast (top c 1), c_eflags := top c 2\<rparr>)"
| "step f Call c = f c"

definition exec :: "(cpu \<Rightarrow> cpu) \<Rightarrow> instr list \<Rightarrow> cpu \<Rightarrow> cpu" where
  "exec f = fold (step f)"

subsection \<open>The programs\<close>

definition multiboot_header :: "u32 list" where
  "multiboot_header = (let flags = push_bit 0 1 OR push_bit 1 1; magic = 0x1BADB002 in [magic, flags, - (magic + flags)])"

text \<open>\<open>kernel_main\<close> does not return, so what follows the call is not reached.\<close>

definition start :: "u32 \<Rightarrow> instr list" where
  "start stack_bottom = [Mov_imm_esp (stack_bottom + 16384), Call]"

definition gdt_flush :: "instr list" where
  "gdt_flush = [Mov_arg_eax, Lgdt, Mov_imm_ax 0x10, Mov_ax_seg DS, Mov_ax_seg ES, Mov_ax_seg FS, Mov_ax_seg GS,
     Mov_ax_seg SS, Ljmp 0x08]"

definition idt_flush :: "instr list" where
  "idt_flush = [Mov_arg_eax, Lidt]"

text \<open>The stubs of the exceptions, those without an error code pushing a zero for it, and of the lines.\<close>

definition isr_err :: "nat list" where
  "isr_err = [8, 10, 11, 12, 13, 14, 17]"

definition isr_entry :: "nat \<Rightarrow> instr list" where
  "isr_entry n = (if n \<in> set isr_err then [Cli, Push_imm (of_nat n)] else [Cli, Push_imm 0, Push_imm (of_nat n)])"

definition irq_entry :: "nat \<Rightarrow> instr list" where
  "irq_entry n = [Cli, Push_imm 0, Push_imm (of_nat (32 + n))]"

definition save_registers :: "instr list" where
  "save_registers = [Pusha, Mov_ds_ax, Push_eax, Mov_imm_ax 0x10, Mov_ax_seg DS, Mov_ax_seg ES, Mov_ax_seg FS, Mov_ax_seg GS, Push_esp]"

definition restore_registers :: "instr list" where
  "restore_registers = [Add_esp 4, Pop_eax, Mov_ax_seg DS, Mov_ax_seg ES, Mov_ax_seg FS, Mov_ax_seg GS, Popa, Add_esp 8, Sti, Iret]"

text \<open>The two common stubs differ in the function they call alone.\<close>

definition stub_entry :: "nat \<Rightarrow> instr list" where
  "stub_entry v = (if v < 32 then isr_entry v else irq_entry (v - 32)) @ save_registers"

definition stub :: "nat \<Rightarrow> instr list" where
  "stub v = stub_entry v @ [Call] @ restore_registers"

subsection \<open>What the processor does at an interrupt\<close>

text \<open>
  As documented for an interrupt gate and no change of privilege: flags, code segment and instruction pointer are
  pushed, for some exceptions an error code \<open>e\<close>, interrupts are disabled, and the gate's target is entered.
\<close>

definition deliver :: "idt_entry list \<Rightarrow> nat \<Rightarrow> u32 option \<Rightarrow> cpu \<Rightarrow> cpu" where
  "deliver idt v e c =
     (let g = gate_bytes (idt ! v);
          c' = push (c_eip c) (push (ucast (c_cs c)) (push (c_eflags c) c));
          c' = (case e of None \<Rightarrow> c' | Some x \<Rightarrow> push x c')
      in c'\<lparr>c_eflags := unset_bit 9 (c_eflags c), c_cs := gate_selector g, c_eip := gate_target g\<rparr>)"

text \<open>
  The exceptions with an error code, as the manuals of the processors list them: those \<open>ISR_ERR\<close> names, and the three later
  ones that \<^verbatim>\<open>isr.c\<close> names too: control protection, VMM communication and security.
\<close>

definition error_vectors :: "nat set" where
  "error_vectors = {8, 10, 11, 12, 13, 14, 17, 21, 29, 30}"

text \<open>The structure at an address, as the C code declares it.\<close>

definition snapshot :: "(u32 \<Rightarrow> u32) \<Rightarrow> u32 \<Rightarrow> registers" where
  "snapshot m p = \<lparr>r_ds = m p, r_edi = m (p + 4), r_esi = m (p + 8), r_ebp = m (p + 12), r_esp = m (p + 16),
     r_ebx = m (p + 20), r_edx = m (p + 24), r_ecx = m (p + 28), r_eax = m (p + 32), int_no = m (p + 36),
     err_code = m (p + 40), r_eip = m (p + 44), r_cs = m (p + 48), r_eflags = m (p + 52),
     r_useresp = m (p + 56), r_ss = m (p + 60)\<rparr>"

text \<open>
  What a C function keeps by the calling convention, when it is called in a state, and a handler that only reads the structure
  it is given. It may write all other memory.
\<close>

definition keeps_registers :: "(cpu \<Rightarrow> cpu) \<Rightarrow> cpu \<Rightarrow> bool" where
  "keeps_registers f c \<longleftrightarrow> c_esp (f c) = c_esp c \<and> c_ebx (f c) = c_ebx c \<and> c_ebp (f c) = c_ebp c \<and>
     c_esi (f c) = c_esi c \<and> c_edi (f c) = c_edi c \<and> c_seg (f c) SS = c_seg c SS \<and> c_gdtr (f c) = c_gdtr c \<and>
     c_idtr (f c) = c_idtr c \<and> (\<forall>k \<in> {1..14}. top (f c) k = top c k)"

subsection \<open>The stack\<close>

lemma top_push:
  "top (push x c) 0 = x" "k < 1000 \<Longrightarrow> top (push x c) (Suc k) = top c k"
proof -
  show "top (push x c) 0 = x" by (simp add: top_def push_def)
  assume k: "k < 1000"
  have "4 * of_nat (Suc k) \<noteq> (0 :: u32)"
  proof
    assume "4 * of_nat (Suc k) = (0 :: u32)"
    then have "unat (of_nat (4 * Suc k) :: u32) = 0" by simp
    then show False using k by (simp only: unat_of_nat) simp
  qed
  then have "c_esp c + 4 * of_nat k \<noteq> c_esp c - 4" by (simp add: algebra_simps)
  then show "top (push x c) (Suc k) = top c k" by (simp add: top_def push_def algebra_simps)
qed

lemma top_other [simp]:
  "top (c\<lparr>c_eax := x\<rparr>) k = top c k" "top (c\<lparr>c_ecx := x\<rparr>) k = top c k" "top (c\<lparr>c_edx := x\<rparr>) k = top c k"
  "top (c\<lparr>c_ebx := x\<rparr>) k = top c k" "top (c\<lparr>c_ebp := x\<rparr>) k = top c k" "top (c\<lparr>c_esi := x\<rparr>) k = top c k"
  "top (c\<lparr>c_edi := x\<rparr>) k = top c k" "top (c\<lparr>c_seg := s\<rparr>) k = top c k" "top (c\<lparr>c_cs := h\<rparr>) k = top c k"
  "top (c\<lparr>c_eip := x\<rparr>) k = top c k" "top (c\<lparr>c_eflags := x\<rparr>) k = top c k"
  by (simp_all add: top_def)

lemma push_other [simp]:
  "c_eax (push x c) = c_eax c" "c_ecx (push x c) = c_ecx c" "c_edx (push x c) = c_edx c" "c_ebx (push x c) = c_ebx c"
  "c_esp (push x c) = c_esp c - 4" "c_ebp (push x c) = c_ebp c" "c_esi (push x c) = c_esi c" "c_edi (push x c) = c_edi c"
  "c_seg (push x c) = c_seg c" "c_cs (push x c) = c_cs c" "c_eip (push x c) = c_eip c" "c_eflags (push x c) = c_eflags c"
  "c_gdtr (push x c) = c_gdtr c" "c_idtr (push x c) = c_idtr c"
  by (simp_all add: push_def)

lemma top_drop [simp]: "top (drop_words j c) k = top c (j + k)"
  by (simp add: top_def drop_words_def algebra_simps)

lemma top_numeral: "k < 1000 \<Longrightarrow> 0 < k \<Longrightarrow> top (push x c) k = top c (k - 1)"
  using top_push(2) [of "k - 1" x c] by simp

lemma snapshot_top: "c_esp c' + 4 = p \<Longrightarrow> c_mem c' p = top c' 1"
  by (simp add: top_def)

lemma low_half: "ucast (set_low x r) = x" "drop_bit 16 (set_low x r) = drop_bit 16 r"
  unfolding set_low_def by (rule bit_word_eqI; auto simp: bit_simps dest: bit_imp_le_length; fail)+

lemma selector_word: "ucast (ucast (x :: u16) :: u32) = x"
  by (rule bit_word_eqI) (auto simp: bit_simps dest: bit_imp_le_length)

lemma exec_simps [simp]: "exec f [] c = c" "exec f (i # is) c = exec f is (step f i c)" "exec f (is @ js) c = exec f js (exec f is c)"
  by (simp_all add: exec_def)

lemma snapshot_frame:
  "snapshot (c_mem c) (c_esp c + 4) = \<lparr>r_ds = top c 1, r_edi = top c 2, r_esi = top c 3, r_ebp = top c 4, r_esp = top c 5,
     r_ebx = top c 6, r_edx = top c 7, r_ecx = top c 8, r_eax = top c 9, int_no = top c 10, err_code = top c 11,
     r_eip = top c 12, r_cs = top c 13, r_eflags = top c 14, r_useresp = top c 15, r_ss = top c 16\<rparr>"
  by (simp add: snapshot_def top_def add.assoc)


lemma words:
  "[1..<17] = [1, 2, 3, 4, 5, 6, 7, 8, 9, 10, 11, 12, 13, 14, 15, 16 :: nat]"
  "[1..<15] = [1, 2, 3, 4, 5, 6, 7, 8, 9, 10, 11, 12, 13, 14 :: nat]" "[0..<7] = [0, 1, 2, 3, 4, 5, 6 :: nat]"
  by code_simp+

text \<open>The stack at the common part: the same with and without an error code of the processor.\<close>

definition frame :: "nat \<Rightarrow> u32 option \<Rightarrow> cpu \<Rightarrow> cpu" where
  "frame v e c = push (of_nat v) (push (case e of None \<Rightarrow> 0 | Some x \<Rightarrow> x)
     (push (c_eip c) (push (ucast (c_cs c)) (push (c_eflags c) c))))"

lemma frame_other [simp]:
  "c_eax (frame v e c) = c_eax c" "c_ecx (frame v e c) = c_ecx c" "c_edx (frame v e c) = c_edx c" "c_ebx (frame v e c) = c_ebx c"
  "c_esp (frame v e c) = c_esp c - 20" "c_ebp (frame v e c) = c_ebp c" "c_esi (frame v e c) = c_esi c"
  "c_edi (frame v e c) = c_edi c" "c_seg (frame v e c) = c_seg c" "c_gdtr (frame v e c) = c_gdtr c" "c_idtr (frame v e c) = c_idtr c"
  by (simp_all add: frame_def)

lemma push_update: "push x (c\<lparr>c_eflags := a\<rparr>) = (push x c)\<lparr>c_eflags := a\<rparr>" "push x (c\<lparr>c_cs := h\<rparr>) = (push x c)\<lparr>c_cs := h\<rparr>"
  "push x (c\<lparr>c_eip := a\<rparr>) = (push x c)\<lparr>c_eip := a\<rparr>"
  by (simp_all add: push_def)

text \<open>
  The state at the common part, \<open>idt\<close> being the table in use. Where the processor pushes a code and the stub a zero nonetheless,
  there is a word more on the stack.
\<close>

definition entered :: "idt_entry list \<Rightarrow> nat \<Rightarrow> cpu \<Rightarrow> cpu \<Rightarrow> cpu" where
  "entered idt v c d = d\<lparr>c_cs := gate_selector (gate_bytes (idt ! v)), c_eip := gate_target (gate_bytes (idt ! v)),
     c_eflags := unset_bit 9 (c_eflags c)\<rparr>"

definition frame_astray :: "nat \<Rightarrow> u32 \<Rightarrow> cpu \<Rightarrow> cpu" where
  "frame_astray v x c = push (of_nat v) (push 0 (push x (push (c_eip c) (push (ucast (c_cs c)) (push (c_eflags c) c)))))"

lemma frame_astray_other [simp]:
  "c_eax (frame_astray v x c) = c_eax c" "c_ecx (frame_astray v x c) = c_ecx c" "c_edx (frame_astray v x c) = c_edx c"
  "c_ebx (frame_astray v x c) = c_ebx c" "c_esp (frame_astray v x c) = c_esp c - 24" "c_ebp (frame_astray v x c) = c_ebp c"
  "c_esi (frame_astray v x c) = c_esi c" "c_edi (frame_astray v x c) = c_edi c" "c_seg (frame_astray v x c) = c_seg c"
  by (simp_all add: frame_astray_def)

lemma entered_other [simp]:
  "c_eax (entered idt v c d) = c_eax d" "c_ecx (entered idt v c d) = c_ecx d" "c_edx (entered idt v c d) = c_edx d"
  "c_ebx (entered idt v c d) = c_ebx d" "c_esp (entered idt v c d) = c_esp d" "c_ebp (entered idt v c d) = c_ebp d"
  "c_esi (entered idt v c d) = c_esi d" "c_edi (entered idt v c d) = c_edi d" "c_seg (entered idt v c d) = c_seg d"
  "c_gdtr (entered idt v c d) = c_gdtr d" "c_idtr (entered idt v c d) = c_idtr d" "c_mem (entered idt v c d) = c_mem d"
  "c_eflags (entered idt v c d) = unset_bit 9 (c_eflags c)" "top (entered idt v c d) k = top d k"
  by (simp_all add: entered_def)

lemma unset_twice: "unset_bit 9 (unset_bit 9 (a :: u32)) = unset_bit 9 a"
  by (rule bit_eqI) (simp add: bit_simps)

lemma stub_frame:
  assumes v: "v < 48" and e: "e \<noteq> None \<longleftrightarrow> v \<in> error_vectors"
  shows "v \<notin> {21, 29, 30} \<Longrightarrow> exec f (stub_entry v) (deliver idt v e c) = exec f save_registers (entered idt v c (frame v e c))"
    and "v \<in> {21, 29, 30} \<Longrightarrow> exec f (stub_entry v) (deliver idt v e c) = exec f save_registers (entered idt v c (frame_astray v (the e) c))"
proof -
  have "stub_entry v = Cli # (if v \<in> error_vectors - {21, 29, 30} then [] else [Push_imm 0]) @ Push_imm (of_nat v) # save_registers"
    using v by (auto simp: stub_entry_def isr_entry_def irq_entry_def isr_err_def error_vectors_def)
  then show "v \<notin> {21, 29, 30} \<Longrightarrow> exec f (stub_entry v) (deliver idt v e c) = exec f save_registers (entered idt v c (frame v e c))"
    and "v \<in> {21, 29, 30} \<Longrightarrow> exec f (stub_entry v) (deliver idt v e c) = exec f save_registers (entered idt v c (frame_astray v (the e) c))"
    using e by (cases e; simp add: deliver_def Let_def frame_def frame_astray_def entered_def push_update unset_twice error_vectors_def)+
qed

lemma saved:
  fixes c :: cpu and f :: "cpu \<Rightarrow> cpu"
  defines "c1 \<equiv> exec f save_registers c"
  shows "top c1 0 = c_esp c1 + 4" "map (top c1) [1..<17] = set_low (c_seg c DS) (c_eax c) # c_edi c # c_esi c # c_ebp c # c_esp c #
      c_ebx c # c_edx c # c_ecx c # c_eax c # map (top c) [0..<7]"
    "c_seg c1 = (c_seg c)(DS := 0x10, ES := 0x10, FS := 0x10, GS := 0x10)" "c_esp c1 = c_esp c - 40"
  unfolding c1_def save_registers_def
  by (simp_all add: top_numeral top_push low_half upt_conv_Cons)

lemma saved_flags: "c_eflags (exec f save_registers c) = c_eflags c" "c_eip (exec f save_registers c) = c_eip c"
  "c_cs (exec f save_registers c) = c_cs c" "c_gdtr (exec f save_registers c) = c_gdtr c" "c_idtr (exec f save_registers c) = c_idtr c"
  by (simp_all add: save_registers_def)

lemma restored:
  "exec f restore_registers c = c\<lparr>c_eax := top c 9, c_ecx := top c 8, c_edx := top c 7, c_ebx := top c 6, c_ebp := top c 4,
     c_esi := top c 3, c_edi := top c 2, c_esp := c_esp c + 60, c_seg := (c_seg c)(DS := ucast (top c 1), ES := ucast (top c 1),
     FS := ucast (top c 1), GS := ucast (top c 1)), c_eip := top c 12, c_cs := ucast (top c 13), c_eflags := top c 14\<rparr>"
  by (cases c) (simp add: restore_registers_def drop_words_def top_def add.assoc)

lemma frame_top: "map (top (frame v e c)) [0..<7] =
   [of_nat v, case e of None \<Rightarrow> 0 | Some x \<Rightarrow> x, c_eip c, ucast (c_cs c), c_eflags c, top c 0, top c 1]"
  by (simp add: frame_def top_numeral top_push upt_conv_Cons)

lemma frame_astray_top: "map (top (frame_astray v x c)) [0..<7] =
   [of_nat v, 0, x, c_eip c, ucast (c_cs c), c_eflags c, top c 0]"
  by (simp add: frame_astray_def top_numeral top_push upt_conv_Cons)

text \<open>What the entry writes: the fifteen words under the interrupted stack pointer.\<close>

lemma push_mem: "c_mem (push x c) = (c_mem c)(c_esp c - 4 := x)"
  by (simp add: push_def)

lemma frame_mem:
  assumes "\<And>k. k \<in> {1..15} \<Longrightarrow> a \<noteq> c_esp c - 4 * of_nat k"
  shows "c_mem (exec f save_registers (entered idt v c (frame v e c))) a = c_mem c a"
proof -
  have "a \<noteq> c_esp c - 4 * of_nat k" if "k \<in> set [1, 2, 3, 4, 5, 6, 7, 8, 9, 10, 11, 12, 13, 14, 15 :: nat]" for k
    using that by (intro assms) auto
  then have a: "\<forall>k \<in> set [1, 2, 3, 4, 5, 6, 7, 8, 9, 10, 11, 12, 13, 14, 15 :: nat]. a \<noteq> c_esp c - 4 * of_nat k" by blast
  show ?thesis using a by (simp add: save_registers_def frame_def push_mem)
qed

subsection \<open>The tables\<close>

text \<open>The loader accepts the header; the flushes load what they are passed and select the kernel's segments.\<close>

lemma multiboot_checksum: "sum_list multiboot_header = 0" "hd multiboot_header = 0x1BADB002"
  by (simp_all add: multiboot_header_def Let_def)

lemma gdt_flush_loads:
  "c_gdtr (exec f gdt_flush c) = top c 1" "c_cs (exec f gdt_flush c) = GDT_KERNEL_CODE" "c_seg (exec f gdt_flush c) s = GDT_KERNEL_DATA"
  by (cases s; simp add: gdt_flush_def low_half gdt_selectors)+

lemma idt_flush_loads: "exec f idt_flush c = c\<lparr>c_eax := top c 1, c_idtr := top c 1\<rparr>"
  by (simp add: idt_flush_def)

subsection \<open>Properties\<close>

text \<open>
  C31: What the C handlers are given. At an interrupt with vector \<open>v\<close> below 48 the processor enters, through the table
  \<open>idt_init\<close> makes, the stub with that number; when the stub calls the C handler, interrupts are off, the kernel's data segment
  is selected, and the argument points to a \<^verbatim>\<open>struct registers\<close> with the vector in \<open>int_no\<close> and the general registers of
  the interrupted code in their fields, but \<open>esp\<close>: that is 20 less than the interrupted one, since \<open>pusha\<close> stores it after five pushes.
  Of \<open>ds\<close> the low half is the selector, the high half that of \<open>eax\<close>; \<open>useresp\<close> and \<open>ss\<close> are not pushed, since no change of
  privilege happens: they are the two words above on the interrupted stack. Instruction pointer, code segment and flags are the
  interrupted ones, and \<open>err_code\<close> is the processor's error code, or 0 where it has none, for every vector but 21, 29 and 30. For
  these three the processors push an error code as well, but the stub pushes its zero too: \<open>err_code\<close> is 0, and every field above
  it holds what belongs into the one before, so that \<open>eip\<close> is the error code. The lines are the hardware interrupts that
  \<open>irq_handler\<close> expects.
\<close>

theorem stub_snapshot:
  assumes "v < 48" and "e \<noteq> None \<longleftrightarrow> v \<in> error_vectors" and "idt_gates isr irq idt"
  shows "let c0 = deliver idt v e c; c1 = exec f (stub_entry v) c0; r = snapshot (c_mem c1) (top c1 0);
      pushed = \<lparr>r_ds = set_low (c_seg c DS) (c_eax c), r_edi = c_edi c, r_esi = c_esi c, r_ebp = c_ebp c, r_esp = c_esp c - 20,
        r_ebx = c_ebx c, r_edx = c_edx c, r_ecx = c_ecx c, r_eax = c_eax c, int_no = of_nat v,
        err_code = (case e of None \<Rightarrow> 0 | Some x \<Rightarrow> x), r_eip = c_eip c, r_cs = ucast (c_cs c), r_eflags = c_eflags c,
        r_useresp = top c 0, r_ss = top c 1\<rparr> in
    c_eip c0 = (if v < 32 then isr v else irq (v - 32)) \<and> c_cs c0 = GDT_KERNEL_CODE \<and>
    r = (if v \<in> {21, 29, 30} then pushed\<lparr>r_esp := c_esp c - 24, err_code := 0, r_eip := the e, r_cs := c_eip c,
           r_eflags := ucast (c_cs c), r_useresp := c_eflags c, r_ss := top c 0\<rparr>
         else pushed) \<and>
    \<not> bit (c_eflags c1) 9 \<and> c_seg c1 DS = GDT_KERNEL_DATA \<and> (32 \<le> v \<longrightarrow> hardware_irq r)"
proof -
  let ?g = "gate_bytes (idt ! v)"
  have g: "gate_target ?g = (if v < 32 then isr v else irq (v - 32))" "gate_selector ?g = GDT_KERNEL_CODE"
    using assms(1,3) by (auto simp: idt_gates_def Let_def)
  have d: "c_eip (deliver idt v e c) = gate_target ?g" "c_cs (deliver idt v e c) = gate_selector ?g"
    by (simp_all add: deliver_def Let_def)
  show ?thesis
  proof (cases "v \<in> {21, 29, 30}")
    case True
    let ?c = "entered idt v c (frame_astray v (the e) c)"
    let ?c1 = "exec f save_registers ?c"
    have "snapshot (c_mem ?c1) (top ?c1 0) = \<lparr>r_ds = set_low (c_seg c DS) (c_eax c), r_edi = c_edi c, r_esi = c_esi c,
        r_ebp = c_ebp c, r_esp = c_esp c - 24, r_ebx = c_ebx c, r_edx = c_edx c, r_ecx = c_ecx c, r_eax = c_eax c, int_no = of_nat v,
        err_code = 0, r_eip = the e, r_cs = c_eip c, r_eflags = ucast (c_cs c), r_useresp = c_eflags c, r_ss = top c 0\<rparr>"
      using saved(2) [of f ?c] frame_astray_top [of v "the e" c] unfolding saved(1) snapshot_frame words by simp
    moreover have "v < 32" using True by auto
    ultimately show ?thesis
      using True g d unfolding stub_frame(2) [OF assms(1,2) True] Let_def by (simp add: saved saved_flags bit_simps gdt_selectors)
  next
    case False
    let ?c = "entered idt v c (frame v e c)"
    let ?c1 = "exec f save_registers ?c"
    have r: "snapshot (c_mem ?c1) (top ?c1 0) = \<lparr>r_ds = set_low (c_seg c DS) (c_eax c), r_edi = c_edi c, r_esi = c_esi c,
        r_ebp = c_ebp c, r_esp = c_esp c - 20, r_ebx = c_ebx c, r_edx = c_edx c, r_ecx = c_ecx c, r_eax = c_eax c, int_no = of_nat v,
        err_code = (case e of None \<Rightarrow> 0 | Some x \<Rightarrow> x), r_eip = c_eip c, r_cs = ucast (c_cs c), r_eflags = c_eflags c,
        r_useresp = top c 0, r_ss = top c 1\<rparr>" (is "_ = ?r")
      using saved(2) [of f ?c] frame_top [of v e c] unfolding saved(1) snapshot_frame words by simp
    have "hardware_irq ?r" if "32 \<le> v"
      unfolding hardware_irq_def using that assms(1) by (intro exI [of _ "v - 32"]) (simp add: of_nat_diff)
    with r False g d show ?thesis
      unfolding stub_frame(1) [OF assms(1,2) False] Let_def by (simp add: saved saved_flags bit_simps gdt_selectors)
  qed
qed

text \<open>Code interrupted in the kernel, and a handler that uses the registers it may and counts in memory.\<close>

definition demo_cpu :: cpu where
  "demo_cpu = \<lparr>c_eax = 0xAAAA0001, c_ecx = 2, c_edx = 3, c_ebx = 4, c_esp = 0x9000, c_ebp = 6, c_esi = 7, c_edi = 8,
     c_seg = (\<lambda>_. 0x10), c_cs = 8, c_eip = 0x1234, c_eflags = 0x202, c_gdtr = 0x4000, c_idtr = 0x5000, c_mem = (\<lambda>a. a)\<rparr>"

definition demo_handler :: "cpu \<Rightarrow> cpu" where
  "demo_handler c = c\<lparr>c_eax := 77, c_ecx := 78, c_edx := 79, c_eflags := 0, c_mem := (c_mem c)(0x7000 := c_mem c 0x7000 + 1)\<rparr>"

theorem stub_snapshot_witness:
  "\<exists>idt. (let c0 = deliver idt 13 (Some 0x18) demo_cpu; c1 = exec demo_handler (stub_entry 13) c0; r = snapshot (c_mem c1) (top c1 0) in
     c_eip c0 = 0x10D0 \<and> int_no r = 13 \<and> err_code r = 0x18 \<and> r_eip r = 0x1234 \<and> r_ds r = 0xAAAA0010 \<and> r_ss r = 0x9004) \<and>
     (let c1 = exec demo_handler (stub_entry 21) (deliver idt 21 (Some 3) demo_cpu); r = snapshot (c_mem c1) (top c1 0) in
     int_no r = 21 \<and> err_code r = 0 \<and> r_eip r = 3 \<and> r_cs r = 0x1234)"
proof -
  have "length (replicate 256 (packed_gate 7 7 7)) = 256" by simp
  from idt_init_eq [OF this, of pic_bus "0x5000" "\<lambda>n. 0x1000 + 16 * of_nat n" "\<lambda>n. 0x2000 + 16 * of_nat n" demo_pics]
  obtain idt where i: "idt_gates (\<lambda>n. 0x1000 + 16 * of_nat n) (\<lambda>n. 0x2000 + 16 * of_nat n) idt" by blast
  have e: "(13 :: nat) < 48" "Some (0x18 :: u32) \<noteq> None \<longleftrightarrow> 13 \<in> error_vectors" by (simp_all add: error_vectors_def)
  have e': "(21 :: nat) < 48" "Some (3 :: u32) \<noteq> None \<longleftrightarrow> 21 \<in> error_vectors" by (simp_all add: error_vectors_def)
  have "set_low 0x10 0xAAAA0001 = 0xAAAA0010" by (simp add: set_low_def)
  with stub_snapshot [OF e i, of demo_cpu demo_handler] stub_snapshot [OF e' i, of demo_cpu demo_handler] show ?thesis
    by (intro exI [of _ idt]) (simp add: Let_def demo_cpu_def top_def)
qed

text \<open>
  C32: An interrupt is invisible to the code it interrupts. For every vector below 48 but 21, 29 and 30, with a handler that
  follows the calling convention and only reads its structure, the way from the delivery of the interrupt to the \<open>iret\<close> ends in
  the state before it: every general register, stack pointer, instruction pointer, flags and segments. The segments \<open>es\<close>, \<open>fs\<close> and \<open>gs\<close> are not saved: they come back as \<open>ds\<close>, so they are the old
  ones where all four agreed, as in this kernel. Memory is what the handler left; and what the handler finds is the interrupted
  memory but for the fifteen words under the interrupted stack pointer. So a word that the handler does not write, in the
  interrupted stack or anywhere else above or below these words, is unchanged.
\<close>

theorem stub_transparent:
  assumes "v < 48" and "e \<noteq> None \<longleftrightarrow> v \<in> error_vectors" and "v \<notin> {21, 29, 30}"
    and "keeps_registers f (exec f (stub_entry v) (deliver idt v e c))"
  shows "let c1 = exec f (stub_entry v) (deliver idt v e c) in
    exec f (stub v) (deliver idt v e c) =
      c\<lparr>c_seg := (c_seg c)(ES := c_seg c DS, FS := c_seg c DS, GS := c_seg c DS), c_mem := c_mem (f c1)\<rparr> \<and>
    (c_seg c ` {ES, FS, GS} = {c_seg c DS} \<longrightarrow> exec f (stub v) (deliver idt v e c) = c\<lparr>c_mem := c_mem (f c1)\<rparr>) \<and>
    (\<forall>a. (\<forall>k \<in> {1..15}. a \<noteq> c_esp c - 4 * of_nat k) \<longrightarrow> c_mem c1 a = c_mem c a)"
proof -
  let ?c = "entered idt v c (frame v e c)"
  let ?c1 = "exec f save_registers ?c"
  let ?segs = "(c_seg c)(ES := c_seg c DS, FS := c_seg c DS, GS := c_seg c DS)"
  note entry = stub_frame(1) [OF assms(1,2,3)]
  note kept = assms(4) [unfolded entry keeps_registers_def]
  have run: "exec f (stub v) (deliver idt v e c) = exec f restore_registers (f ?c1)"
    unfolding stub_def exec_simps entry by simp
  have "map (top (f ?c1)) [1..<15] = map (top ?c1) [1..<15]" using kept by simp
  with saved(2) [of f ?c] frame_top [of v e c]
  have top: "map (top (f ?c1)) [1..<15] = [set_low (c_seg c DS) (c_eax c), c_edi c, c_esi c, c_ebp c, c_esp c - 20, c_ebx c,
      c_edx c, c_ecx c, c_eax c, of_nat v, case e of None \<Rightarrow> 0 | Some x \<Rightarrow> x, c_eip c, ucast (c_cs c), c_eflags c]"
    unfolding words by simp
  have esp: "c_esp (f ?c1) = c_esp c - 60" using kept saved(4) [of f ?c] by simp
  have seg: "c_seg (f ?c1) SS = c_seg c SS" "c_gdtr (f ?c1) = c_gdtr c" "c_idtr (f ?c1) = c_idtr c"
    using kept by (simp_all add: saved saved_flags)
  have segs: "(c_seg (f ?c1))(DS := c_seg c DS, ES := c_seg c DS, FS := c_seg c DS, GS := c_seg c DS) = ?segs"
  proof (rule ext)
    show "((c_seg (f ?c1))(DS := c_seg c DS, ES := c_seg c DS, FS := c_seg c DS, GS := c_seg c DS)) s = ?segs s" for s
      using seg(1) by (cases s) simp_all
  qed
  have whole: "exec f restore_registers (f ?c1) = c\<lparr>c_seg := ?segs, c_mem := c_mem (f ?c1)\<rparr>"
    unfolding restored segs [symmetric] using top [unfolded words] esp seg(2,3)
    by (intro cpu.equality) (simp_all add: low_half selector_word)
  have flat: "c\<lparr>c_seg := ?segs, c_mem := m\<rparr> = c\<lparr>c_mem := m\<rparr>" if "c_seg c ` {ES, FS, GS} = {c_seg c DS}" for m
  proof -
    have "c_seg c ES = c_seg c DS" "c_seg c FS = c_seg c DS" "c_seg c GS = c_seg c DS" using that by auto
    then have "?segs = c_seg c" by (simp add: fun_upd_idem)
    then show ?thesis by (cases c) simp
  qed
  show ?thesis unfolding Let_def entry run whole using flat frame_mem by simp
qed

theorem stub_transparent_witness:
  "\<exists>m. exec demo_handler (stub 33) (deliver (replicate 256 (packed_gate 7 7 7)) 33 None demo_cpu) = demo_cpu\<lparr>c_mem := m\<rparr>"
proof -
  let ?d = "deliver (replicate 256 (packed_gate 7 7 7)) 33 None demo_cpu"
  have v: "(33 :: nat) < 48" "(None :: u32 option) \<noteq> None \<longleftrightarrow> 33 \<in> error_vectors" "(33 :: nat) \<notin> {21, 29, 30}"
    by (simp_all add: error_vectors_def)
  have "c_esp (exec demo_handler (stub_entry 33) ?d) = 0x9000 - 60"
    unfolding stub_frame(1) [OF v] by (simp add: saved(4) demo_cpu_def)
  then have "keeps_registers demo_handler (exec demo_handler (stub_entry 33) ?d)"
    unfolding keeps_registers_def by (simp add: demo_handler_def top_def atLeastAtMost_upt upt_conv_Cons)
  note t = stub_transparent [OF v this, unfolded Let_def]
  have "c_seg demo_cpu ` {ES, FS, GS} = {c_seg demo_cpu DS}" by (auto simp: demo_cpu_def)
  with t show ?thesis by blast
qed

text \<open>And what happens at the three others: the stub returns to the error code.\<close>

lemma stub_astray:
  assumes "e \<noteq> None" and "v \<in> {21, 29, 30}" and "keeps_registers f (exec f (stub_entry v) (deliver idt v e c))"
  shows "c_eip (exec f (stub v) (deliver idt v e c)) = the e"
proof -
  let ?c = "entered idt v c (frame_astray v (the e) c)"
  let ?c1 = "exec f save_registers ?c"
  have v: "v < 48" "e \<noteq> None \<longleftrightarrow> v \<in> error_vectors" using assms(1,2) by (auto simp: error_vectors_def)
  note entry = stub_frame(2) [OF v assms(2)]
  have "top (f ?c1) 12 = top ?c1 12" using assms(3) [unfolded entry] by (simp add: keeps_registers_def)
  also have "\<dots> = the e" using saved(2) [of f ?c] frame_astray_top [of v "the e" c] unfolding words by simp
  finally show ?thesis unfolding stub_def exec_simps entry by (simp add: restored)
qed

end
