(* ===== verification/Kernel.thy ===== *)
theory Kernel
  imports Shell Gdt
begin

text \<open>
  \<^verbatim>\<open>kernel/kernel.c\<close>: the start of the kernel, as the composition of the initialisers of all components. Besides
  the kernel's state there are the two descriptor tables; \<open>k_gdtr\<close> and \<open>k_idtr\<close> are what \<open>lgdt\<close> and \<open>lidt\<close> are
  given, and \<open>image\<close> holds the addresses that the linker chose. The interrupts that arrive between \<open>sti\<close> and the
  first \<open>hlt\<close>, \<open>early\<close>, are taken at the \<open>sti\<close>.
\<close>

record image =
  a_gdt :: u32
  a_idt :: u32
  a_isr :: "nat \<Rightarrow> u32"
  a_irq :: "nat \<Rightarrow> u32"

record 'd kernel =
  k_world :: "'d world"
  k_gdt :: "gdt_entry list"
  k_idt :: "idt_entry list"
  k_gdtr :: "gdt_pointer option"
  k_idtr :: "idt_pointer option"

definition boot_screen :: "'d bus \<Rightarrow> 'd world \<Rightarrow> 'd world option" where
  "boot_screen b w = do {
     w \<leftarrow> on_console (vga_init b) w;
     w \<leftarrow> print_all b [literal ''Yunix v0.1.2\<newline>'', literal ''Kernel: Seaweed v0.1\<newline>'']
       (color VGA_LIGHT_CYAN VGA_BLACK w);
     print b (literal ''A hobby operating system by Yavuz Selim\<newline>\<newline>'') (color VGA_LIGHT_GREY VGA_BLACK w) }"

definition boot_tables :: "'d bus \<Rightarrow> image \<Rightarrow> 'd kernel \<Rightarrow> 'd kernel option" where
  "boot_tables b im k = do {
     (gp, gdt) \<leftarrow> gdt_init (a_gdt im) (k_gdt k);
     w \<leftarrow> print b (literal ''[ ok ] GDT loaded\<newline>'') (color VGA_LIGHT_GREEN VGA_BLACK (k_world k));
     (ip, idt, d) \<leftarrow> idt_init b (a_idt im) (a_isr im) (a_irq im) (k_idt k, w_dev w);
     w \<leftarrow> print b (literal ''[ ok ] IDT loaded, PIC remapped to 32-47\<newline>'') (w\<lparr>w_dev := d\<rparr>);
     Some \<lparr>k_world = w, k_gdt = gdt, k_idt = idt, k_gdtr = Some gp, k_idtr = Some ip\<rparr> }"

definition boot_devices :: "'d bus \<Rightarrow> registers list \<Rightarrow> 'd world \<Rightarrow> 'd world option" where
  "boot_devices b early w = do {
     (slots, t, d) \<leftarrow> timer_init b (w_slots w) (w_ticks w, w_dev w);
     w \<leftarrow> print b (literal ''[ ok ] PIT running at 100 Hz on IRQ 0\<newline>'') (w\<lparr>w_slots := slots, w_ticks := t, w_dev := d\<rparr>);
     (slots, kb, d) \<leftarrow> keyboard_init b (w_slots w) (w_kbd w, w_dev w);
     w \<leftarrow> print b (literal ''[ ok ] Keyboard driver installed on IRQ 1\<newline>'') (w\<lparr>w_slots := slots, w_kbd := kb, w_dev := d\<rparr>);
     w \<leftarrow> interrupts b early w;
     print b (literal ''[ ok ] Interrupts enabled\<newline>'') w }"

definition boot_files :: "'d bus \<Rightarrow> bytes \<Rightarrow> 'd world \<Rightarrow> 'd world option" where
  "boot_files b stack w = do {
     let (found, a) = ata_init b (disk w);
     let w = with_disk a w;
     if found \<noteq> 0 then do {
       w \<leftarrow> print b (literal ''[ ok ] ATA disk found on the primary channel\<newline>'') (color VGA_LIGHT_GREEN VGA_BLACK w);
       (r, fs, a) \<leftarrow> fish_load b stack (w_fish w) (disk w);
       let w = with_disk a (w\<lparr>w_fish := fs\<rparr>);
       if r = FISH_OK then do {
         w \<leftarrow> print b (literal ''[ ok ] Fish filesystem restored from disk\<newline>'') w;
         (_, u, fs) \<leftarrow> user_load (w_user w) (w_fish w);
         Some (w\<lparr>w_user := u, w_fish := fs\<rparr>) }
       else print b (literal ''[ .. ] No saved filesystem. Type format to make one.\<newline>'') (color VGA_YELLOW VGA_BLACK w) }
     else print b (literal ''[ .. ] No disk found. Files will vanish on reboot.\<newline>'') (color VGA_YELLOW VGA_BLACK w) }"

text \<open>All of \<open>kernel_main\<close> up to the shell, and with it.\<close>

definition kernel_boot :: "'d bus \<Rightarrow> image \<Rightarrow> bytes \<Rightarrow> registers list \<Rightarrow> 'd kernel \<Rightarrow> 'd kernel option" where
  "kernel_boot b im stack early k = do {
     w \<leftarrow> boot_screen b (k_world k);
     k \<leftarrow> boot_tables b im (k\<lparr>k_world := w\<rparr>);
     w \<leftarrow> boot_devices b early (k_world k);
     w \<leftarrow> print b (literal ''\<newline>Type help for a list of commands.\<newline>\<newline>'') (color VGA_LIGHT_GREY VGA_BLACK w);
     u \<leftarrow> user_init (w_user w);
     fs \<leftarrow> fish_init (w_fish w);
     w \<leftarrow> boot_files b stack (w\<lparr>w_user := u, w_fish := fs\<rparr>);
     Some (k\<lparr>k_world := color VGA_LIGHT_GREY VGA_BLACK w\<rparr>) }"

definition kernel_main :: "'d bus \<Rightarrow> image \<Rightarrow> bytes \<Rightarrow> registers list \<Rightarrow> 'd kernel \<Rightarrow> 'd world outcome option" where
  "kernel_main b im stack early k = do {
     k \<leftarrow> kernel_boot b im stack early k;
     shell_run b stack (k_world k) }"

end
