(* ===== verification/Kernel_Props.thy ===== *)
theory Kernel_Props
  imports Kernel Typing
begin

text \<open>
  The start of the kernel is correct: from memory of which only the sizes of the arrays are known it reaches a
  sound state, with the tables, the handlers and the files it should have, and hands it to the shell. Then what
  was saved is there again after a restart.
\<close>

subsection \<open>Before the files are there\<close>

text \<open>Writing on the console, when nothing else is set up.\<close>

definition displays :: "('d \<Rightarrow> drive) \<Rightarrow> 'd world \<Rightarrow> 'd world option \<Rightarrow> bool" where
  "displays view w x \<longleftrightarrow> gives x (\<lambda>w'. vga_ok (w_vga w') \<and> console_only view w w')"

lemma displays_print: "machine b view \<Longrightarrow> terminated s \<Longrightarrow> vga_ok (w_vga w) \<Longrightarrow> displays view w (print b s w)"
  unfolding displays_def by (rule print_console)

lemma displays_obtain:
  assumes "displays view w x"
  obtains w' where "x = Some w'" "vga_ok (w_vga w')" "console_only view w w'"
  using assms by (auto simp: displays_def gives_def)

lemma displays_bind:
  assumes "displays view w x" "\<And>w'. vga_ok (w_vga w') \<Longrightarrow> displays view w' (f w')"
  shows "displays view w (Option.bind x f)"
  using assms(1)
proof (rule displays_obtain)
  fix w1
  assume w1: "x = Some w1" "vga_ok (w_vga w1)" "console_only view w w1"
  from assms(2) [OF w1(2)] w1(1) show ?thesis
    by (auto simp: displays_def gives_def intro: console_only_trans [OF w1(3)])
qed

lemma color_console:
  "vga_ok (w_vga (color fg bg w)) = vga_ok (w_vga w)" "console_only view w (color fg bg w)"
  by (cases w, simp add: color_def console_only_def vga_ok_def vga_set_color_def)+

lemma displays_color:
  assumes "displays view (color fg bg w) x"
  shows "displays view w x"
  using assms unfolding displays_def
  by (auto elim!: gives_mono intro: console_only_trans [OF color_console(2)])

lemma displays_Some: "vga_ok (w_vga w) \<Longrightarrow> displays view w (Some w)"
  by (simp add: displays_def)

lemma displays_all:
  "machine b view \<Longrightarrow> list_all terminated ss \<Longrightarrow> vga_ok (w_vga w) \<Longrightarrow> displays view w (print_all b ss w)"
  by (induction ss arbitrary: w) (auto intro: displays_bind displays_print displays_Some)

lemma displays_colored:
  "machine b view \<Longrightarrow> terminated s \<Longrightarrow> vga_ok (w_vga w) \<Longrightarrow> displays view w (print b s (color fg bg w))"
  "machine b view \<Longrightarrow> list_all terminated ss \<Longrightarrow> vga_ok (w_vga w) \<Longrightarrow> displays view w (print_all b ss (color fg bg w))"
  by (rule displays_color, rule displays_print displays_all, simp_all add: color_console(1))+

lemma boot_screen_displays:
  assumes m: "machine b view" and v: "length (v_cells (w_vga w)) = 2000"
  shows "displays view w (boot_screen b w)"
proof -
  have "displays view w (on_console (vga_init b) w)"
    using v view_update_cursor [OF m]
    by (auto simp: displays_def gives_def on_console_def vga_init_def vga_set_color_def vga_clear_eq Let_def
        vga_ok_def console_only_def)
  then show ?thesis unfolding boot_screen_def
    by (intro displays_bind displays_colored m) simp_all
qed

text \<open>The devices of the kernel's own start-up leave the drive alone.\<close>

lemma boot_ports: "PIC1_CMD \<notin> ata_port_set" "PIC1_DATA \<notin> ata_port_set" "PIC2_CMD \<notin> ata_port_set" "PIC2_DATA \<notin> ata_port_set"
  "0x80 \<notin> ata_port_set" "PIT_COMMAND \<notin> ata_port_set" "PIT_CHANNEL0 \<notin> ata_port_set"
  by (simp_all add: ata_port_set_def ata_ports PIC1_CMD_def PIC1_DATA_def PIC2_CMD_def PIC2_DATA_def
      PIT_COMMAND_def PIT_CHANNEL0_def)

lemma pic_remap_quiet:
  assumes m: "machine b view"
  shows "view (pic_remap b d) = view d"
proof -
  have q: "p \<notin> ata_port_set \<Longrightarrow> view (out_wait b p v d) = view d" for p v d
    by (simp add: out_wait_def io_wait_def machine_quiet [OF m] boot_ports)
  obtain m1 d1 where 1: "inb b PIC1_DATA d = (m1, d1)" by fastforce
  obtain m2 d2 where 2: "inb b PIC2_DATA d1 = (m2, d2)" by fastforce
  have "view d2 = view d"
    using machine_quiet(2) [OF m boot_ports(2), of d] machine_quiet(2) [OF m boot_ports(4), of d1] 1 2 by simp
  then show ?thesis by (simp add: pic_remap_def 1 2 q machine_quiet [OF m] boot_ports)
qed

lemma drain_quiet:
  assumes "drain b d = Some d'" "machine b view"
  shows "view d' = view d"
proof -
  have "machine b view \<longrightarrow> view d' = view d"
  proof (rule drain.raw_induct [where P = "\<lambda>b d d'. machine b view \<longrightarrow> view d' = view d", OF _ assms(1)], intro impI)
    fix f :: "'a bus \<Rightarrow> 'a \<Rightarrow> 'a option" and b d d'
    assume IH: "\<And>b d d'. f b d = Some d' \<Longrightarrow> machine b view \<longrightarrow> view d' = view d" and m: "machine b view"
      and f: "(let (status, d) = inb b KBD_STATUS d in
        if status AND 1 \<noteq> 0 then f b (snd (inb b KBD_DATA d)) else Some d) = Some d'"
    obtain st d1 where r: "inb b KBD_STATUS d = (st, d1)" by fastforce
    have v: "view d1 = view d" "view (snd (inb b KBD_DATA d1)) = view d1"
      using machine_quiet(2) [OF m quiet_ports(4), of d] machine_quiet(2) [OF m quiet_ports(3), of d1] r by simp_all
    with IH [of b "snd (inb b KBD_DATA d1)" d'] m f r show "view d' = view d" by (auto split: if_splits)
  qed
  with assms(2) show ?thesis by blast
qed

subsection \<open>The stages\<close>

lemma boot_tables_ok:
  assumes m: "machine b view" and v: "vga_ok (w_vga (k_world k))" and "length (k_gdt k) = 5" and "length (k_idt k) = 256"
  shows "\<exists>k' gp. boot_tables b im k = Some k' \<and> vga_ok (w_vga (k_world k')) \<and> console_only view (k_world k) (k_world k') \<and>
    gdt_init (a_gdt im) gdt_boot = Some (gp, k_gdt k') \<and> k_gdtr k' = Some gp \<and>
    k_idtr k' = Some \<lparr>ip_limit = 2047, ip_base = a_idt im\<rparr> \<and> idt_gates (a_isr im) (a_irq im) (k_idt k')"
proof -
  obtain gp gdt where g: "gdt_init (a_gdt im) gdt_boot = Some (gp, gdt)" using gdt_init_bytes [of "a_gdt im"] by auto
  obtain w1 where w1: "print b (literal ''[ ok ] GDT loaded\<newline>'') (color VGA_LIGHT_GREEN VGA_BLACK (k_world k)) = Some w1"
    "vga_ok (w_vga w1)" "console_only view (k_world k) w1"
    by (rule displays_obtain [OF displays_colored(1) [OF m _ v, of "literal ''[ ok ] GDT loaded\<newline>''"]]) simp
  obtain idt where i: "idt_init b (a_idt im) (a_isr im) (a_irq im) (k_idt k, w_dev w1) =
      Some (\<lparr>ip_limit = 2047, ip_base = a_idt im\<rparr>, idt, pic_remap b (w_dev w1))" "idt_gates (a_isr im) (a_irq im) idt"
    using idt_init_eq [OF assms(4), of b "a_idt im" "a_isr im" "a_irq im" "w_dev w1"] by blast
  let ?w = "w1\<lparr>w_dev := pic_remap b (w_dev w1)\<rparr>"
  have "console_only view w1 ?w" by (cases w1) (simp add: console_only_def pic_remap_quiet [OF m])
  note c = console_only_trans [OF w1(3) this]
  have "vga_ok (w_vga ?w)" using w1(2) by simp
  from displays_print [OF m _ this, of "literal ''[ ok ] IDT loaded, PIC remapped to 32-47\<newline>''"] obtain w2 where
    w2: "print b (literal ''[ ok ] IDT loaded, PIC remapped to 32-47\<newline>'') ?w = Some w2" "vga_ok (w_vga w2)" "console_only view ?w w2"
    by (auto elim: displays_obtain)
  from g w1 i w2 show ?thesis
    by (simp add: boot_tables_def gdt_init_start [OF assms(3)] console_only_trans [OF c w2(3)])
qed

text \<open>What the drivers' start-up does not touch.\<close>

definition same_files :: "('d \<Rightarrow> drive) \<Rightarrow> 'd world \<Rightarrow> 'd world \<Rightarrow> bool" where
  "same_files view w w' \<longleftrightarrow> w_user w' = w_user w \<and> w_fish w' = w_fish w \<and> w_present w' = w_present w \<and> w_line w' = w_line w \<and>
     w_halts w' = w_halts w \<and> view (w_dev w') = view (w_dev w)"

definition kernel_slots :: "irq_callback option list" where
  "kernel_slots = irq_handlers[0 := Some Timer_callback, 1 := Some Keyboard_callback]"

lemma kernel_slots_timer: "timer_slot kernel_slots" "length kernel_slots = 16"
  by (simp_all add: kernel_slots_def irq_handlers_def timer_slot_def nth_list_update)

lemma boot_devices_ok:
  assumes m: "machine b view" and kbc: "kbc_wired b full" and v: "vga_ok (w_vga w)" and slots: "w_slots w = irq_handlers"
    and k: "length (buffer (w_kbd w)) = 128" and early: "list_all hardware_irq early"
  shows "\<exists>w'. boot_devices b early w = Some w' \<and> vga_ok (w_vga w') \<and> keyboard_ok (w_kbd w') \<and> w_slots w' = kernel_slots \<and>
    w_ticks w' = of_nat (ticks_in early) \<and> (early = [] \<longrightarrow> pending (w_kbd w') = []) \<and> same_files view w w'"
proof -
  let ?s0 = "irq_handlers[0 := Some Timer_callback]"
  obtain d where t: "timer_init b (w_slots w) (w_ticks w, w_dev w) = Some (?s0, 0, d)" "view d = view (w_dev w)"
    using slots machine_quiet(1) [OF m] boot_ports
    by (auto simp: timer_init_def irq_install_handler_def aset_def irq_handlers_def Let_def)
  let ?w1 = "w\<lparr>w_slots := ?s0, w_ticks := 0, w_dev := d\<rparr>"
  have "vga_ok (w_vga ?w1)" using v by simp
  from displays_print [OF m _ this, of "literal ''[ ok ] PIT running at 100 Hz on IRQ 0\<newline>''"] obtain w2 where
    w2: "print b (literal ''[ ok ] PIT running at 100 Hz on IRQ 0\<newline>'') ?w1 = Some w2" "vga_ok (w_vga w2)" "console_only view ?w1 w2"
    by (auto elim: displays_obtain)
  note c2 = console_onlyD [OF w2(3)]
  have len: "length (buffer (w_kbd w2)) = 128" "length (w_slots w2) = 16" using k c2 by (simp_all add: irq_handlers_def)
  from keyboard_init_starts [OF kbc len, of "w_dev w2"] obtain kb d' where
    kb: "drain b (w_dev w2) = Some d'" "keyboard_ok kb" "pending kb = []" "keyboard_init b (w_slots w2) (w_kbd w2, w_dev w2) = Some (kernel_slots, kb, d')"
    using c2 by (auto simp: kernel_slots_def)
  let ?w3 = "w2\<lparr>w_slots := kernel_slots, w_kbd := kb, w_dev := d'\<rparr>"
  have "vga_ok (w_vga ?w3)" using w2(2) by simp
  from displays_print [OF m _ this, of "literal ''[ ok ] Keyboard driver installed on IRQ 1\<newline>''"] obtain w4 where
    w4: "print b (literal ''[ ok ] Keyboard driver installed on IRQ 1\<newline>'') ?w3 = Some w4" "vga_ok (w_vga w4)" "console_only view ?w3 w4"
    by (auto elim: displays_obtain)
  note c4 = console_onlyD [OF w4(3)]
  have "input_ready w4" "timer_slot (w_slots w4)" using c4 kb(2) kernel_slots_timer by (simp_all add: input_ready_def)
  from interrupts_ticks [OF m this early] obtain w5 where
    w5: "interrupts b early w4 = Some w5" "input_only view w4 w5" "w_ticks w5 = w_ticks w4 + of_nat (ticks_in early)" by blast
  have c5: "w_vga w5 = w_vga w4" "keyboard_ok (w_kbd w5)" "w_slots w5 = w_slots w4" "same_files view w4 w5"
    using w5(2) by (cases w4; cases w5, simp add: input_only_def same_files_def)+
  have "vga_ok (w_vga w5)" using w4(2) c5(1) by simp
  from displays_print [OF m _ this, of "literal ''[ ok ] Interrupts enabled\<newline>''"] obtain w6 where
    w6: "print b (literal ''[ ok ] Interrupts enabled\<newline>'') w5 = Some w6" "vga_ok (w_vga w6)" "console_only view w5 w6"
    by (auto elim: displays_obtain)
  note c6 = console_onlyD [OF w6(3)]
  have "boot_devices b early w = Some w6" using t(1) w2(1) kb(4) w4(1) w5(1) w6(1) by (simp add: boot_devices_def)
  moreover have "same_files view w w6"
    using c2 c4 c5(4) c6 t(2) drain_quiet [OF kb(1) m] by (simp add: same_files_def)
  moreover have "early = [] \<Longrightarrow> pending (w_kbd w5) = []" using w5(1) c4 kb(3) by simp
  ultimately show ?thesis using c2 c4 c5 c6 w5(3) w6(2) by auto
qed

text \<open>The files: those the disk holds, with the names saved among them.\<close>

definition names_in :: "volume \<Rightarrow> user \<Rightarrow> user" where
  "names_in v u = (case tree v config_path of Some (File t) \<Rightarrow> names_loaded t u | _ \<Rightarrow> u)"

definition files_found :: "(nat \<Rightarrow> bytes) \<Rightarrow> 'd world \<Rightarrow> 'd world \<Rightarrow> bool" where
  "files_found S w w' \<longleftrightarrow> (if superblock_ok (S 2048)
     then \<forall>g. fish_ok g \<longrightarrow> holds_image S g \<longrightarrow>
       volume_of (w_fish w') = volume_of g \<and> w_user w' = names_in (volume_of g) (w_user w)
     else volume_of (w_fish w') = volume_of (w_fish w) \<and> w_user w' = w_user w)"

lemma user_load_names:
  assumes "user_ok u" "fish_ok fs"
  obtains r fs' where "user_load u fs = Some (r, names_in (volume_of fs) u, fs')" "fish_ok fs'" "volume_of fs' = volume_of fs"
    "user_ok (names_in (volume_of fs) u)"
proof -
  from user_load_correct [OF assms] obtain r u' fs' where l: "user_load u fs = Some (r, u', fs')" "fish_ok fs'"
    "volume_of fs' = volume_of fs" "user_ok u'"
    "case tree (volume_of fs) config_path of Some (File t) \<Rightarrow> r = 1 \<and> u' = names_loaded t u | _ \<Rightarrow> r = 0 \<and> u' = u" by blast
  from l(5) have "u' = names_in (volume_of fs) u" by (auto simp: names_in_def split: option.splits entry.splits)
  with l(1-4) that show thesis by blast
qed

lemma quiet_printed: "sound view w \<Longrightarrow> console_only view w w' \<Longrightarrow> vga_ok (w_vga w') \<Longrightarrow> quiet view w w'"
  using quiet_console [of view w w'] world_ok_console [of view w w'] by (simp add: sound_def)

lemma print_message:
  assumes "machine b view" "terminated s" "sound view w"
  obtains w' where "print b s w = Some w'" "quiet view w w'" "console_only view w w'"
  using displays_print [OF assms(1,2) soundD(1) [OF assms(3)]] assms(3)
  by (auto elim!: displays_obtain intro: quiet_printed)

lemma print_colored:
  assumes "machine b view" "terminated s" "sound view w"
  obtains w' where "print b s (color fg bg w) = Some w'" "quiet view w w'" "console_only view w w'"
  using displays_colored(1) [OF assms(1,2) soundD(1) [OF assms(3)], of fg bg] assms(3)
  by (auto elim!: displays_obtain intro: quiet_printed)

lemma boot_files_absent:
  assumes m: "machine b view" and w: "sound view w" and none: "no_drive b"
  shows "\<exists>w'. boot_files b stack w = Some w' \<and> quiet view w w' \<and> w_present w' = 0 \<and> w_fish w' = w_fish w \<and> w_user w' = w_user w"
proof -
  let ?none = "literal ''[ .. ] No disk found. Files will vanish on reboot.\<newline>''"
  obtain d where a: "ata_init b (disk w) = (0, \<lparr>present = 0, dev = d\<rparr>)" by (rule ata_init_absent [OF none])
  let ?w1 = "w\<lparr>w_present := 0, w_dev := d\<rparr>"
  have q: "quiet view w ?w1" using w by (simp add: quiet_def sound_def world_ok_def)
  then have "sound view ?w1" by (simp add: quiet_def)
  from print_colored [OF m _ this, of ?none VGA_YELLOW VGA_BLACK] obtain w2 where
    w2: "print b ?none (color VGA_YELLOW VGA_BLACK ?w1) = Some w2" "quiet view ?w1 w2" "console_only view ?w1 w2" by auto
  have "boot_files b stack w = Some w2" using a w2(1) by (simp add: boot_files_def with_disk_def)
  then show ?thesis using quiet_trans [OF q w2(2)] console_onlyD [OF w2(3)] by simp
qed

text \<open>A drive that the kernel can use: if it does not listen while it is busy, then it is done with what it did before the start.\<close>

definition drive_ready :: "drive \<Rightarrow> bool" where
  "drive_ready h \<longleftrightarrow> drive_ok h \<and> length (identity h) = 256 \<and> disk_sound h \<and> (deaf h \<longrightarrow> busy h \<le> 5)"

lemma boot_files_ok:
  assumes m: "machine b view" and w: "sound view w" and h: "drive_ready (view (w_dev w))"
    and stack: "length stack = 512"
  shows "\<exists>w'. boot_files b stack w = Some w' \<and> quiet view w w' \<and> w_present w' \<noteq> 0 \<and>
    same_media (view (w_dev w)) (view (w_dev w')) \<and> files_found (sector_bytes (view (w_dev w))) w w'"
proof -
  let ?S = "sector_bytes (view (w_dev w))"
  let ?found = "literal ''[ ok ] ATA disk found on the primary channel\<newline>''"
    and ?restored = "literal ''[ ok ] Fish filesystem restored from disk\<newline>''"
    and ?none = "literal ''[ .. ] No saved filesystem. Type format to make one.\<newline>''"
  have h: "drive_ok (view (w_dev w))" "length (identity (view (w_dev w))) = 256" "disk_sound (view (w_dev w))"
    "deaf (view (w_dev w)) \<Longrightarrow> busy (view (w_dev w)) \<le> 5"
    using h by (simp_all add: drive_ready_def)
  have bus: "drive_bus b view" using m h(1) by (auto simp: machine_def)
  have dev: "dev (disk w) = w_dev w" for w :: "'a world" by (simp add: disk_def)
  from ata_init_good [OF bus, of "disk w"] h(1,2,4) obtain a where
    a: "ata_init b (disk w) = (1, a)" "ata_present a = 1" "ata_good b view a" "same_media (view (w_dev w)) (view (dev a))"
    unfolding dev by blast
  let ?w1 = "with_disk a w"
  have q1: "quiet view w ?w1"
    using w a(3) h(3) disk_sound_media [OF a(4)] by (simp add: quiet_def sound_def world_ok_def with_disk_def ata_good_def)
  then have "sound view ?w1" by (simp add: quiet_def)
  from print_colored [OF m _ this, of ?found VGA_LIGHT_GREEN VGA_BLACK] obtain w2 where
    w2: "print b ?found (color VGA_LIGHT_GREEN VGA_BLACK ?w1) = Some w2" "quiet view ?w1 w2" "console_only view ?w1 w2" by auto
  have c2: "w_present w2 = 1" "view (w_dev w2) = view (dev a)" "w_fish w2 = w_fish w" "w_user w2 = w_user w"
    using console_onlyD [OF w2(3)] a(2) by (simp_all add: with_disk_def ata_present_def)
  have s2: "sound view w2" using w2(2) by (simp add: quiet_def)
  have S: "sector_bytes (view (w_dev w2)) = ?S" using same_media_bytes [OF a(4)] c2(2) by simp
  have p2: "w_present w2 \<noteq> 0" using c2(1) by simp
  from fish_load_disk [OF disk_good [OF m s2 p2] fish_ok_shape [OF soundD(5) [OF s2]] stack] soundD(8) [OF s2 p2]
  obtain r fs a3 where l: "fish_load b stack (w_fish w2) (disk w2) = Some (r, fs, a3)" "ata_good b view a3"
    "same_media (view (w_dev w2)) (view (dev a3))"
    "if superblock_ok (?S 2048) then r = FISH_OK \<and> fish_ok fs \<and> (\<forall>g. fish_ok g \<longrightarrow> holds_image ?S g \<longrightarrow> fs = g)
     else r = FISH_ERR_FORMAT \<and> fs = w_fish w2" unfolding dev S by blast
  let ?w3 = "with_disk a3 (w2\<lparr>w_fish := fs\<rparr>)"
  have fs: "fish_ok fs" using l(4) soundD(5) [OF s2] by (auto split: if_splits)
  have q3: "quiet view w2 ?w3"
    using s2 l(2) fs disk_sound_media [OF l(3)] soundD(8) [OF s2 p2] by (simp add: quiet_def sound_def world_ok_def with_disk_def ata_good_def)
  have c3: "w_present ?w3 \<noteq> 0" "view (w_dev ?w3) = view (dev a3)" "w_fish ?w3 = fs" "w_user ?w3 = w_user w"
    using l(2) c2(4) by (simp_all add: with_disk_def ata_good_def)
  have media: "same_media (view (w_dev w)) (view (dev a3))" using a(4) l(3) c2(2) by (simp add: same_media_def)
  note q = quiet_trans [OF q1 quiet_trans [OF w2(2) q3]]
  have s3: "sound view ?w3" using q3 by (simp add: quiet_def)
  show ?thesis
  proof (cases "superblock_ok (?S 2048)")
    case True
    from print_message [OF m _ s3, of ?restored] obtain w4 where
      w4: "print b ?restored ?w3 = Some w4" "quiet view ?w3 w4" "console_only view ?w3 w4" by auto
    note c4 = console_onlyD [OF w4(3)]
    have s4: "sound view w4" using w4(2) by (simp add: quiet_def)
    from user_load_names [OF soundD(4) [OF s4] soundD(5) [OF s4]] obtain r5 fs5 where u: "user_load (w_user w4) (w_fish w4) =
        Some (r5, names_in (volume_of fs) (w_user w), fs5)" "fish_ok fs5" "volume_of fs5 = volume_of fs"
      "user_ok (names_in (volume_of fs) (w_user w))" using c4 c3 by metis
    let ?w5 = "w4\<lparr>w_user := names_in (volume_of fs) (w_user w), w_fish := fs5\<rparr>"
    have "boot_files b stack w = Some ?w5"
      using True a(1) w2(1) l(1,4) w4(1) u(1) by (simp add: boot_files_def)
    moreover have "quiet view w4 ?w5" using s4 u(2,4) by (simp add: quiet_def sound_def world_ok_def)
    then have "quiet view w ?w5" by (rule quiet_trans [OF quiet_trans [OF q w4(2)]])
    moreover have "files_found ?S w ?w5" using True l(4) u(3) by (auto simp: files_found_def)
    ultimately show ?thesis using c4 c3 media by (intro exI [of _ ?w5]) simp
  next
    case False
    from print_colored [OF m _ s3, of ?none VGA_YELLOW VGA_BLACK] obtain w4 where
      w4: "print b ?none (color VGA_YELLOW VGA_BLACK ?w3) = Some w4" "quiet view ?w3 w4" "console_only view ?w3 w4" by auto
    note c4 = console_onlyD [OF w4(3)]
    have "boot_files b stack w = Some w4"
      using False a(1) w2(1) l(1,4) w4(1) by (simp add: boot_files_def fish_codes)
    moreover have "files_found ?S w w4" using False l(4) c2 c3 c4 by (simp add: files_found_def)
    ultimately show ?thesis using c4 c3 media quiet_trans [OF q w4(2)] by (intro exI [of _ w4]) simp
  qed
qed

subsection \<open>The whole start\<close>

text \<open>
  What the boot loader leaves: arrays of their declared sizes with any contents, the handler slots empty; and a
  working drive, or none.
\<close>

definition power_on :: "'d bus \<Rightarrow> ('d \<Rightarrow> drive) \<Rightarrow> 'd kernel \<Rightarrow> bool" where
  "power_on b view k \<longleftrightarrow> length (k_gdt k) = 5 \<and> length (k_idt k) = 256 \<and> (let w = k_world k; h = view (w_dev w) in
     length (v_cells (w_vga w)) = 2000 \<and> w_slots w = irq_handlers \<and> length (buffer (w_kbd w)) = 128 \<and>
     length (u_name (w_user w)) = 32 \<and> length (u_host (w_user w)) = 32 \<and> length (w_line w) = 256 \<and>
     list_all (list_all hardware_irq) (w_halts w) \<and> w_present w = 0 \<and> (no_drive b \<or> drive_ready h))"

text \<open>What the shell is started with.\<close>

definition started :: "'d bus \<Rightarrow> ('d \<Rightarrow> drive) \<Rightarrow> image \<Rightarrow> registers list \<Rightarrow> 'd kernel \<Rightarrow> 'd kernel \<Rightarrow> bool" where
  "started b view im early k k' \<longleftrightarrow> (let w = k_world k; w' = k_world k'; S = sector_bytes (view (w_dev w)) in
     sound view w' \<and> w_slots w' = kernel_slots \<and> w_ticks w' = of_nat (ticks_in early) \<and> w_halts w' = w_halts w \<and>
     (early = [] \<longrightarrow> pending (w_kbd w') = []) \<and>
     (\<exists>gp. gdt_init (a_gdt im) gdt_boot = Some (gp, k_gdt k') \<and> k_gdtr k' = Some gp) \<and>
     k_idtr k' = Some \<lparr>ip_limit = 2047, ip_base = a_idt im\<rparr> \<and> idt_gates (a_isr im) (a_irq im) (k_idt k') \<and>
     (w_present w' = 0 \<longleftrightarrow> no_drive b) \<and> (\<not> no_drive b \<longrightarrow> same_media (view (w_dev w)) (view (w_dev w'))) \<and>
     (\<exists>u. user_ok u \<and> text_of (user_name u) = bytes_of ''user'' \<and> text_of (user_host u) = bytes_of ''yunix'' \<and>
       (if \<not> no_drive b \<and> superblock_ok (S 2048)
        then \<forall>g. fish_ok g \<longrightarrow> holds_image S g \<longrightarrow> volume_of (w_fish w') = volume_of g \<and> w_user w' = names_in (volume_of g) u
        else volume_of (w_fish w') = empty_volume \<and> w_user w' = u)))"

lemma user_init_names:
  assumes "length (u_name u) = 32" "length (u_host u) = 32"
  obtains u' where "user_init u = Some u'" "user_ok u'" "text_of (user_name u') = bytes_of ''user''"
    "text_of (user_host u') = bytes_of ''yunix''"
proof -
  have t: "terminated (literal ''user'')" "text_of (literal ''user'') = bytes_of ''user''"
    "terminated (literal ''yunix'')" "text_of (literal ''yunix'') = bytes_of ''yunix''" by (simp_all add: literal_def)
  let ?n = "bytes_of ''user'' @ 0 # drop (Suc (length (bytes_of ''user''))) (u_name u)"
    and ?h = "bytes_of ''yunix'' @ 0 # drop (Suc (length (bytes_of ''yunix''))) (u_host u)"
  have "user_init u = Some (u\<lparr>u_name := ?n, u_host := ?h\<rparr>)"
    using assms strcpy_eq [OF t(1), of "u_name u"] strcpy_eq [OF t(3), of "u_host u"] unfolding t
    by (simp add: user_init_def)
  moreover have "field_ok ?n" "field_ok ?h" "text_of ?n = bytes_of ''user''" "text_of ?h = bytes_of ''yunix''"
    using assms by (simp_all add: field_ok_def USER_NAME_MAX_def visible_name_def blank_or_control_def)
  ultimately show ?thesis using that [of "u\<lparr>u_name := ?n, u_host := ?h\<rparr>"]
    by (simp add: user_ok_def user_name_def user_host_def)
qed

lemma kernel_boot_starts:
  assumes m: "machine b view" and kbc: "kbc_wired b full" and on: "power_on b view k" and stack: "length stack = 512"
    and early: "list_all hardware_irq early"
  shows "\<exists>k'. kernel_boot b im stack early k = Some k' \<and> started b view im early k k'"
proof -
  let ?w0 = "k_world k" and ?ready = "literal ''\<newline>Type help for a list of commands.\<newline>\<newline>''"
  have p: "length (v_cells (w_vga ?w0)) = 2000" "w_slots ?w0 = irq_handlers" "length (buffer (w_kbd ?w0)) = 128"
    "length (u_name (w_user ?w0)) = 32" "length (u_host (w_user ?w0)) = 32" "length (w_line ?w0) = 256"
    "list_all (list_all hardware_irq) (w_halts ?w0)" "w_present ?w0 = 0" "no_drive b \<or> drive_ready (view (w_dev ?w0))"
    "length (k_gdt k) = 5" "length (k_idt k) = 256"
    using on by (simp_all add: power_on_def Let_def)
  from boot_screen_displays [OF m p(1)] obtain w1 where
    w1: "boot_screen b ?w0 = Some w1" "vga_ok (w_vga w1)" "console_only view ?w0 w1" by (rule displays_obtain)
  have "vga_ok (w_vga (k_world (k\<lparr>k_world := w1\<rparr>)))" using w1(2) by simp
  from boot_tables_ok [OF m this, of im] p(10,11) obtain k2 gp where
    k2: "boot_tables b im (k\<lparr>k_world := w1\<rparr>) = Some k2" "vga_ok (w_vga (k_world k2))" "console_only view w1 (k_world k2)"
    "gdt_init (a_gdt im) gdt_boot = Some (gp, k_gdt k2)" "k_gdtr k2 = Some gp"
    "k_idtr k2 = Some \<lparr>ip_limit = 2047, ip_base = a_idt im\<rparr>" "idt_gates (a_isr im) (a_irq im) (k_idt k2)" by auto
  note c2 = console_onlyD [OF console_only_trans [OF w1(3) k2(3)]]
  from boot_devices_ok [OF m kbc k2(2) _ _ early] c2 p(2,3) obtain w3 where
    w3: "boot_devices b early (k_world k2) = Some w3" "vga_ok (w_vga w3)" "keyboard_ok (w_kbd w3)" "w_slots w3 = kernel_slots"
    "w_ticks w3 = of_nat (ticks_in early)" "same_files view (k_world k2) w3" "early = [] \<longrightarrow> pending (w_kbd w3) = []" by auto
  have "terminated ?ready" by simp
  from displays_colored(1) [OF m this w3(2), of VGA_LIGHT_GREY VGA_BLACK] obtain w4 where
    w4: "print b ?ready (color VGA_LIGHT_GREY VGA_BLACK w3) = Some w4" "vga_ok (w_vga w4)" "console_only view w3 w4"
    by (rule displays_obtain)
  note c4 = console_onlyD [OF w4(3)]
  from user_init_names [of "w_user w4"] p(4,5) c2 c4 w3(6) obtain u where u: "user_init (w_user w4) = Some u" "user_ok u"
    "text_of (user_name u) = bytes_of ''user''" "text_of (user_host u) = bytes_of ''yunix''" by (auto simp: same_files_def)
  obtain fs where fs: "fish_init (w_fish w4) = Some fs" "fish_ok fs" "volume_of fs = empty_volume" using fish_init_empty by blast
  let ?w5 = "w4\<lparr>w_user := u, w_fish := fs\<rparr>"
  have dev: "view (w_dev ?w5) = view (w_dev ?w0)" using c2 c4 w3(6) by (simp add: same_files_def)
  have s5: "sound view ?w5"
    using p(6-8) c2 c4 w3(2-4,6) w4(2) u(2) fs(2) kernel_slots_timer(2) by (simp add: sound_def world_ok_def same_files_def)
  obtain w6 where w6: "boot_files b stack ?w5 = Some w6" "quiet view ?w5 w6" "w_present w6 = 0 \<longleftrightarrow> no_drive b"
    "if no_drive b then w_fish w6 = fs \<and> w_user w6 = u
     else same_media (view (w_dev ?w0)) (view (w_dev w6)) \<and> files_found (sector_bytes (view (w_dev ?w0))) ?w5 w6"
  proof (cases "no_drive b")
    case True
    from boot_files_absent [OF m s5 True, of stack] True that show thesis by auto
  next
    case False
    with p(9) have "drive_ready (view (w_dev ?w5))" unfolding dev by simp
    from boot_files_ok [OF m s5 this stack] False that show thesis unfolding dev by auto
  qed
  let ?k = "k2\<lparr>k_world := color VGA_LIGHT_GREY VGA_BLACK w6\<rparr>"
  have "kernel_boot b im stack early k = Some ?k"
    using w1(1) k2(1) w3(1) w4(1) u(1) fs(1) w6(1) by (simp add: kernel_boot_def)
  moreover have "started b view im early k ?k"
    using w6(2-4) sound_color [of view w6 VGA_LIGHT_GREY VGA_BLACK] k2(4-7) c2 c4 w3(4-7) u(2-4) fs(3)
    by (auto simp: started_def Let_def quiet_def same_files_def files_found_def color_def split: if_splits)
  ultimately show ?thesis by blast
qed

subsection \<open>Saving\<close>

lemma image_superblock: "holds_image S g \<Longrightarrow> fish_shape g \<Longrightarrow> superblock_ok (S 2048)"
  using holds_image_contents(1) [of S g] superblock_ok_image(1) [of g] by simp

text \<open>
  \<open>save\<close> leaves on the disk the filesystem it leaves in memory: the old one with the names in it, or if they cannot be written,
  the old one.
\<close>

definition with_names :: "user \<Rightarrow> volume \<Rightarrow> volume" where
  "with_names u v = (if config_writable v
     then ((tree v)(config_path \<mapsto> File (config_content (text_of (user_name u)) (text_of (user_host u)))), cwd v) else v)"

lemma cmd_save_saves:
  assumes m: "machine b view" and w: "sound view w" and p: "w_present w \<noteq> 0"
  shows "\<exists>w'. cmd_save b w = Some w' \<and> quiet view w w' \<and> w_present w' \<noteq> 0 \<and>
    holds_image (sector_bytes (view (w_dev w'))) (w_fish w') \<and>
    volume_of (w_fish w') = with_names (w_user w) (volume_of (w_fish w))"
proof -
  let ?done = "literal ''Filesystem written to disk.\<newline>''"
  from user_save_correct [OF soundD(4,5) [OF w]] obtain r fs where
    fs: "user_save (w_user w) (w_fish w) = Some (r, fs)" "fish_ok fs" "volume_of fs = with_names (w_user w) (volume_of (w_fish w))"
    by (auto simp: with_names_def user_name_def user_host_def split: if_splits)
  let ?w1 = "w\<lparr>w_fish := fs\<rparr>"
  have s1: "sound view ?w1" using w fs(2) by (simp add: sound_def world_ok_def)
  have dev: "dev (disk ?w1) = w_dev w" by (simp add: disk_def)
  from fish_save_total [OF disk_good [OF m s1] fish_ok_shape [OF fs(2)]] p soundD(8) [OF w p] obtain a where
    a: "fish_save b fs (disk ?w1) = Some (FISH_OK, a)" "ata_good b view a" "faulty (view (dev a)) = faulty (view (w_dev w))"
    "sector_bytes (view (dev a)) = overlay (sector_bytes (view (w_dev w))) 2048 (fish_image fs)"
    unfolding dev by (auto simp: disk_sound_def)
  let ?w2 = "with_disk a ?w1"
  have "disk_sound (view (dev a))" using soundD(8) [OF w p] a(3,4) overlay_image fs(2) by (auto simp: disk_sound_def)
  then have q: "quiet view w ?w2" using w a(2) fs(2) by (simp add: quiet_def sound_def world_ok_def with_disk_def ata_good_def)
  then have s2: "sound view ?w2" by (simp add: quiet_def)
  from print_message [OF m _ s2, of ?done] obtain w3 where w3: "print b ?done ?w2 = Some w3" "quiet view ?w2 w3" "console_only view ?w2 w3"
    by auto
  note c3 = console_onlyD [OF w3(3)]
  have "cmd_save b w = Some w3" using fs(1) a(1) w3(1) by (simp add: cmd_save_def save_names_def on_fish_def FISH_OK_def)
  moreover have "w_fish w3 = fs" "w_present w3 \<noteq> 0" "sector_bytes (view (w_dev w3)) = sector_bytes (view (dev a))"
    using c3 a(2) by (simp_all add: with_disk_def ata_good_def)
  ultimately show ?thesis using quiet_trans [OF q w3(2)] a(4) overlay_image fs(3) by auto
qed

text \<open>What a start makes of the saved names.\<close>

lemma saved_names:
  assumes "user_ok u" "user_ok u0" "tree v config_path = Some (File (config_content (text_of (user_name u)) (text_of (user_host u))))"
  shows "text_of (user_name (names_in v u0)) = text_of (user_name u)" "text_of (user_host (names_in v u0)) = text_of (user_host u)"
  using loaded_config [of "text_of (u_name u)" "text_of (u_host u)" u0] assms
  by (auto simp: names_in_def user_ok_def field_ok_def USER_NAME_MAX_def user_name_def user_host_def)

lemma names_restored:
  assumes "user_ok u" "user_ok u0"
  shows "config_writable v \<Longrightarrow> text_of (user_name (names_in (with_names u v) u0)) = text_of (user_name u) \<and>
      text_of (user_host (names_in (with_names u v) u0)) = text_of (user_host u)"
    and "\<not> config_writable v \<Longrightarrow> names_in (with_names u v) u0 = u0"
proof -
  assume "config_writable v"
  then have "tree (with_names u v) config_path = Some (File (config_content (text_of (user_name u)) (text_of (user_host u))))"
    by (simp add: with_names_def del: bytes_of_Cons)
  from saved_names [OF assms this]
  show "text_of (user_name (names_in (with_names u v) u0)) = text_of (user_name u) \<and>
      text_of (user_host (names_in (with_names u v) u0)) = text_of (user_host u)" by blast
next
  show "\<not> config_writable v \<Longrightarrow> names_in (with_names u v) u0 = u0"
    by (simp add: config_writable_def names_in_def with_names_def split: option.splits entry.splits)
qed

subsection \<open>A machine to start\<close>

lemma pc_bus_drive: "\<not> no_drive pc_bus"
proof -
  have "fst (port_in pc_bus (demo_drive, []) ATA_STATUS) = STATUS_BSY"
    by (simp add: pc_bus_def ata_ports drive_in_def status_byte_def demo_drive_def)
  moreover have "STATUS_BSY \<notin> {0xFF, 0}" by (simp add: ata_status)
  ultimately show ?thesis unfolding no_drive_def by metis
qed

text \<open>Memory with anything in it, and a drive with the given sectors; a key was pressed during the start.\<close>

definition demo_image :: image where
  "demo_image = \<lparr>a_gdt = 0x4000, a_idt = 0x5000, a_isr = \<lambda>n. 0x1000 + 16 * of_nat n, a_irq = \<lambda>n. 0x2000 + 16 * of_nat n\<rparr>"

definition demo_start :: "drive \<Rightarrow> registers list list \<Rightarrow> (drive \<times> bytes) kernel" where
  "demo_start h halts = \<lparr>k_world = \<lparr>w_vga = demo_vga\<lparr>v_row := 77, v_col := 99\<rparr>, w_kbd = keyboard_with [5]\<lparr>head := 7\<rparr>, w_ticks = 3,
       w_slots = irq_handlers, w_user = \<lparr>u_name = replicate 32 9, u_host = replicate 32 9\<rparr>,
       w_fish = \<lparr>nodes = [], current = 0\<rparr>, w_present = 0, w_line = replicate 256 9,
       w_dev = (demo_drive\<lparr>sectors := sectors h, faulty := faulty h\<rparr>, [0x1E]), w_halts = halts\<rparr>,
     k_gdt = gdt_boot, k_idt = replicate 256 (packed_gate 0 0 0), k_gdtr = None, k_idtr = None\<rparr>"

lemma demo_start_media: "same_media h (fst (w_dev (k_world (demo_start h halts))))"
  by (simp add: same_media_def demo_start_def)

lemma demo_start_on:
  assumes "drive_ok h" "disk_sound h" "list_all (list_all hardware_irq) halts"
  shows "power_on pc_bus fst (demo_start h halts)"
proof -
  have "disk_sound (fst (w_dev (k_world (demo_start h halts))))"
    using disk_sound_media [OF demo_start_media] assms(2) by blast
  then show ?thesis
    using assms(1,3) by (simp add: power_on_def drive_ready_def demo_start_def gdt_boot_def Let_def demo_vga_def keyboard_with_def demo_drive_def drive_ok_def)
qed

text \<open>Without keys and interrupts the first prompt is the last.\<close>

lemma idle_prompts:
  assumes "machine b view" "sound view w" "w_halts w = []" "pending (w_kbd w) = []" "prompts b stack w w'"
  shows "w' = w"
  using assms(5,1-4) by (induction rule: prompts.induct) (auto dest: idle_turn(2))

subsection \<open>Properties\<close>



text \<open>A machine with nothing but a keyboard controller starts too.\<close>

definition dead_drive :: drive where
  "dead_drive = demo_drive\<lparr>busy := 1000000\<rparr>"

lemma kbc_bus_machine: "machine kbc_bus (\<lambda>_. dead_drive)" "no_drive kbc_bus"
  by (simp_all add: machine_def dead_drive_def drive_ok_def no_drive_def kbc_bus_def ata_ports)

lemma kernel_boots_without_drive:
  assumes "power_on kbc_bus (\<lambda>_. dead_drive) k"
  shows "\<exists>k'. kernel_boot kbc_bus im (replicate 512 0) [] k = Some k' \<and> sound (\<lambda>_. dead_drive) (k_world k') \<and>
    w_present (k_world k') = 0 \<and> volume_of (w_fish (k_world k')) = empty_volume"
  using kernel_boot_starts [OF kbc_bus_machine(1) kbc_bus_wired assms length_replicate, of "[]" im 0] kbc_bus_machine(2)
  by (auto simp: started_def Let_def)

text \<open>
  C1: The whole kernel never breaks. On a machine with a keyboard controller that takes commands, and with no drive or a drive that works
  and whose sectors of Fish, if they hold a volume, hold a sound one: from power-on, with any keys and any interrupts, the kernel
  starts and then serves its user without undefined behaviour, until it is stopped or the known interrupts end, with the
  invariant of every component intact. This holds for every input of which no line that is read is \<open>color\<close> with a number of \<open>2 ^ 31\<close> or
  more: such a line overflows an \<open>int\<close>, which is undefined behaviour.
\<close>

theorem kernel_never_breaks:
  assumes "machine b view" and "kbc_wired b full" and "accepts_commands b" and "power_on b view k" and "length stack = 512"
    and "list_all hardware_irq early"
    and "\<forall>k' w t. kernel_boot b im stack early k = Some k' \<longrightarrow> prompts b stack (k_world k') w \<longrightarrow> line_read b w t \<longrightarrow> \<not> overflowing t"
  shows "\<exists>w'. (kernel_main b im stack early k = Some (Halted w') \<or> kernel_main b im stack early k = Some (Waiting w')) \<and> sound view w'"
proof -
  from kernel_boot_starts [OF assms(1,2,4,5,6), of im] obtain k' where
    k': "kernel_boot b im stack early k = Some k'" "sound view (k_world k')" by (auto simp: started_def Let_def)
  have "gives (shell_run b stack (k_world k')) (\<lambda>r. sound view (final r) \<and> (\<forall>w'. r \<noteq> Returned w'))"
    using assms(7) k'(1) by (intro shell_run_ends [OF assms(1,3,5) k'(2)]) blast
  then obtain r where r: "shell_run b stack (k_world k') = Some r" "sound view (final r)" "\<forall>w'. r \<noteq> Returned w'"
    unfolding gives_def by blast
  with k'(1) show ?thesis by (cases r) (auto simp: kernel_main_def)
qed

theorem kernel_never_breaks_witness:
  "\<exists>w'. (kernel_main pc_bus demo_image (replicate 512 7) [] (demo_start demo_drive []) = Some (Halted w') \<or>
     kernel_main pc_bus demo_image (replicate 512 7) [] (demo_start demo_drive []) = Some (Waiting w')) \<and> sound fst w'"
proof -
  have on: "power_on pc_bus fst (demo_start demo_drive [])"
    using demo_start_on [OF demo_drive_ok demo_disk(2), of "[]"] by simp
  have irq: "list_all hardware_irq []" by simp
  have "\<forall>k' w t. kernel_boot pc_bus demo_image (replicate 512 7) [] (demo_start demo_drive []) = Some k' \<longrightarrow>
      prompts pc_bus (replicate 512 7) (k_world k') w \<longrightarrow> line_read pc_bus w t \<longrightarrow> \<not> overflowing t"
  proof (intro allI impI)
    fix k' w t
    assume k': "kernel_boot pc_bus demo_image (replicate 512 7) [] (demo_start demo_drive []) = Some k'"
      and w: "prompts pc_bus (replicate 512 7) (k_world k') w" and t: "line_read pc_bus w t"
    from kernel_boot_starts [OF pc_bus_machine pc_bus_kbc on length_replicate irq, of demo_image 7] k'
    have s: "sound fst (k_world k')" "w_halts (k_world k') = []" "pending (w_kbd (k_world k')) = []"
      by (auto simp: started_def Let_def demo_start_def)
    with idle_prompts [OF pc_bus_machine s w] t idle_turn(1) [OF pc_bus_machine s] show "\<not> overflowing t" by blast
  qed
  from kernel_never_breaks [OF pc_bus_machine pc_bus_kbc pc_bus_accepts on length_replicate irq this] show ?thesis .
qed

text \<open>
  C2: What was saved is there after a restart. If \<open>save\<close> is given with a working drive, then every later start of the kernel, on any
  machine, with a drive of the same contents brings back the same tree of files and directories and the same current
  directory. If \<^verbatim>\<open>/ys.conf\<close> is a file, or is free and there is a free node for it, then the tree has the names in
  \<^verbatim>\<open>/ys.conf\<close> and the user and host names are back too. Otherwise they could not be saved: the start then has the default
  names, although \<open>save\<close> does not tell.
\<close>

theorem kernel_remembers:
  assumes "machine b view" and "sound view w" and "w_present w \<noteq> 0"
    and "machine b2 view2" and "kbc_wired b2 full" and "\<not> no_drive b2" and "length stack = 512" and "list_all hardware_irq early"
  shows "\<exists>w'. cmd_save b w = Some w' \<and>
    (\<forall>k. power_on b2 view2 k \<longrightarrow> same_media (view (w_dev w')) (view2 (w_dev (k_world k))) \<longrightarrow>
      (\<exists>k'. kernel_boot b2 im stack early k = Some k' \<and>
        (if config_writable (volume_of (w_fish w))
         then volume_of (w_fish (k_world k')) = ((tree (volume_of (w_fish w)))([bytes_of ''ys.conf''] \<mapsto>
             File (config_content (text_of (user_name (w_user w))) (text_of (user_host (w_user w))))), cwd (volume_of (w_fish w))) \<and>
           text_of (user_name (w_user (k_world k'))) = text_of (user_name (w_user w)) \<and>
           text_of (user_host (w_user (k_world k'))) = text_of (user_host (w_user w))
         else volume_of (w_fish (k_world k')) = volume_of (w_fish w) \<and>
           text_of (user_name (w_user (k_world k'))) = bytes_of ''user'' \<and>
           text_of (user_host (w_user (k_world k'))) = bytes_of ''yunix'')))"
proof -
  let ?v = "volume_of (w_fish w)"
  from cmd_save_saves [OF assms(1-3)] obtain w' where w': "cmd_save b w = Some w'" "quiet view w w'"
    "holds_image (sector_bytes (view (w_dev w'))) (w_fish w')" "volume_of (w_fish w') = with_names (w_user w) ?v" by blast
  have ok: "fish_ok (w_fish w')" using w'(2) soundD(5) [of view w'] by (simp add: quiet_def)
  have "\<exists>k'. kernel_boot b2 im stack early k = Some k' \<and> volume_of (w_fish (k_world k')) = with_names (w_user w) ?v \<and>
      (if config_writable ?v
       then text_of (user_name (w_user (k_world k'))) = text_of (user_name (w_user w)) \<and>
         text_of (user_host (w_user (k_world k'))) = text_of (user_host (w_user w))
       else text_of (user_name (w_user (k_world k'))) = bytes_of ''user'' \<and>
         text_of (user_host (w_user (k_world k'))) = bytes_of ''yunix'')"
    if on: "power_on b2 view2 k" and media: "same_media (view (w_dev w')) (view2 (w_dev (k_world k)))" for k
  proof -
    have image: "holds_image (sector_bytes (view2 (w_dev (k_world k)))) (w_fish w')"
      using w'(3) same_media_bytes [OF media] by simp
    note sb = image_superblock [OF image fish_ok_shape [OF ok]]
    from kernel_boot_starts [OF assms(4,5) on assms(7,8), of im] obtain k' u where
      k': "kernel_boot b2 im stack early k = Some k'" "user_ok u" "text_of (user_name u) = bytes_of ''user''"
      "text_of (user_host u) = bytes_of ''yunix''" "volume_of (w_fish (k_world k')) = with_names (w_user w) ?v"
      "w_user (k_world k') = names_in (with_names (w_user w) ?v) u"
      using sb ok image assms(6) unfolding w'(4) [symmetric] by (auto simp: started_def Let_def)
    have "w_user (k_world k') = u" if "\<not> config_writable ?v"
      using names_restored(2) [OF soundD(4) [OF assms(2)] k'(2) that] k'(6) by simp
    with names_restored(1) [OF soundD(4) [OF assms(2)] k'(2), of ?v] k' show ?thesis by (intro exI [of _ k']) simp
  qed
  then have "\<exists>k'. kernel_boot b2 im stack early k = Some k' \<and>
        (if config_writable ?v
         then volume_of (w_fish (k_world k')) = ((tree ?v)([bytes_of ''ys.conf''] \<mapsto>
             File (config_content (text_of (user_name (w_user w))) (text_of (user_host (w_user w))))), cwd ?v) \<and>
           text_of (user_name (w_user (k_world k'))) = text_of (user_name (w_user w)) \<and>
           text_of (user_host (w_user (k_world k'))) = text_of (user_host (w_user w))
         else volume_of (w_fish (k_world k')) = ?v \<and>
           text_of (user_name (w_user (k_world k'))) = bytes_of ''user'' \<and>
           text_of (user_host (w_user (k_world k'))) = bytes_of ''yunix'')"
    if "power_on b2 view2 k" "same_media (view (w_dev w')) (view2 (w_dev (k_world k)))" for k
    using that unfolding with_names_def by (cases "config_writable ?v") (simp_all del: bytes_of_Cons bytes_of_Nil)
  with w'(1) show ?thesis by blast
qed

theorem kernel_remembers_witness:
  "\<exists>w' k'. cmd_save pc_bus (demo_world [] []\<lparr>w_user := demo_user\<lparr>u_name := literal ''ada'' @ replicate 28 0\<rparr>\<rparr>) = Some w' \<and>
     kernel_boot pc_bus demo_image (replicate 512 7) [] (demo_start (fst (w_dev w')) []) = Some k' \<and>
     text_of (user_name (w_user (k_world k'))) = bytes_of ''ada''"
proof -
  let ?u = "demo_user\<lparr>u_name := literal ''ada'' @ replicate 28 0\<rparr>"
  let ?w = "demo_world [] []\<lparr>w_user := ?u\<rparr>"
  have t: "text_of (user_name ?u) = bytes_of ''ada''" by (simp add: user_name_def literal_def)
  have "user_ok ?u" using demo_user_ok
    by (simp add: user_ok_def field_ok_def visible_name_def USER_NAME_MAX_def literal_def blank_or_control_def)
  moreover have "sound fst (demo_world [] [])" by (rule demo_world_sound(1)) simp_all
  ultimately have w: "sound fst ?w" by (simp add: sound_def world_ok_def)
  have p: "w_present ?w \<noteq> 0" by (simp add: demo_world_def)
  have room: "config_writable (volume_of (w_fish ?w))"
  proof -
    obtain fs where "fish_init \<lparr>nodes = [], current = 0\<rparr> = Some fs" "volume_of fs = empty_volume"
      using fish_init_empty by blast
    then show ?thesis by (simp add: demo_world_def config_writable_def empty_volume_def FISH_MAX_NODES_def)
  qed
  have irq: "list_all hardware_irq []" by simp
  from kernel_remembers [OF pc_bus_machine w p pc_bus_machine pc_bus_kbc pc_bus_drive length_replicate irq, of demo_image 7] room obtain w' where
    w': "cmd_save pc_bus ?w = Some w'" "\<And>k. power_on pc_bus fst k \<Longrightarrow> same_media (fst (w_dev w')) (fst (w_dev (k_world k))) \<Longrightarrow>
      \<exists>k'. kernel_boot pc_bus demo_image (replicate 512 7) [] k = Some k' \<and>
        text_of (user_name (w_user (k_world k'))) = text_of (user_name (w_user ?w))" unfolding if_P [OF room] by blast
  have s: "sound fst w'" "w_present w' \<noteq> 0" using cmd_save_saves [OF pc_bus_machine w p] w'(1) by (auto simp: quiet_def)
  have "power_on pc_bus fst (demo_start (fst (w_dev w')) [])"
    using demo_start_on [OF soundD(7) [OF s] soundD(8) [OF s], of "[]"] by simp
  from w'(2) [OF this demo_start_media] w'(1) t show ?thesis by auto
qed

end
