(* ===== verification/Spec2Isabelle.thy ===== *)
theory Spec2Isabelle
  imports CString_Props Heap Gdt Fish_Disk_Props Interrupts Keyboard_Props Timer User Shell_Props Shell_Screen Typing Preempt Boot Kernel_Props
begin

text \<open>
  A verification of Yunix (the repository YS-OS), a small 32-bit x86 operating system: its kernel Seaweed in C and the
  assembly that starts it. All of the C code and the assembly is modelled, function by function.

  \<^bold>\<open>The program.\<close> GRUB enters \<^verbatim>\<open>boot/boot.s\<close>, which calls \<open>kernel_main\<close> (\<^verbatim>\<open>kernel/kernel.c\<close>). It sets up the text
  console (\<^verbatim>\<open>drivers/vga.c\<close>), the descriptor tables (\<^verbatim>\<open>kernel/gdt.c\<close>, \<^verbatim>\<open>kernel/idt.c\<close>, with the stubs of \<^verbatim>\<open>boot/isr.s\<close>), the timer and the
  keyboard (\<^verbatim>\<open>drivers/timer.c\<close>, \<^verbatim>\<open>drivers/keyboard.c\<close>), whose handlers \<^verbatim>\<open>kernel/isr.c\<close> calls at an interrupt, the user and
  host names (\<^verbatim>\<open>kernel/user.c\<close>), the filesystem Fish (\<^verbatim>\<open>fs/fish.c\<close>) and the disk (\<^verbatim>\<open>drivers/ata.c\<close>), from which it loads the
  files, and then runs the shell (\<^verbatim>\<open>kernel/shell.c\<close>) for ever. \<^verbatim>\<open>lib/string.c\<close> serves all of them; the heap
  (\<^verbatim>\<open>kernel/heap.c\<close>) is there but not yet used.

  \<^bold>\<open>How the code is modelled.\<close> A C function is a function on the state it uses. Static variables are the fields of a
  record per file (\<open>vga\<close>, \<open>keyboard\<close>, \<open>ticks\<close>, \<open>user\<close>, \<open>fish\<close>, \<open>heap\<close>, \<open>ata\<close>), and \<open>world\<close> (\<^theory_text>\<open>Kernel_State\<close>) puts those together for the shell.
  A structure is a record, an enumeration a datatype, an integer a word of its width with C's wrap-around; an \<open>int\<close> whose
  overflow would be undefined is an \<open>int\<close> with that written out. A byte array is a list with checked access, a string the part of an
  array from the pointer on. \<^const>\<open>None\<close> is undefined behaviour (and, for a partial function, a loop without end), so a
  theorem that a function returns \<open>Some\<close> says that it is memory safe and ends. Error codes are values, as in C. The ports are a parameter: a
  \<open>bus\<close> on a state \<open>'d\<close> of all devices. Names are the source's; a loop that is a function of its own has \<open>_loop\<close>,
  \<open>_from\<close> or a describing name.

  \<^bold>\<open>The theories\<close>, each for a file of the source unless it says otherwise:
  \<^item> \<open>Prelude\<close>: bytes, words, strings and checked arrays; \<open>PortIO\<close>: \<^verbatim>\<open>include/io.h\<close>, the bus.
  \<^item> \<open>CString\<close>: \<^verbatim>\<open>lib/string.c\<close> on arrays, for its callers; \<open>CMemory\<close>: the same on the flat 4 GiB memory with pointers and
    overlap, and the agreement of the two; \<open>CString_Props\<close>: copying, comparing, printing of numbers.
  \<^item> \<open>Allocator\<close>: the contract of an allocator, a locale, and any client of it; \<open>Heap\<close>: \<^verbatim>\<open>kernel/heap.c\<close>, its refinement of first fit on a list
    of blocks, and the interpretation.
  \<^item> \<open>Gdt\<close>; \<open>Interrupts\<close>: \<^verbatim>\<open>kernel/idt.c\<close> and \<^verbatim>\<open>kernel/isr.c\<close>, with what the processor reads in a gate and what the
    interrupt controllers do; \<open>Boot\<close>: the assembly, on a small processor.
  \<^item> \<open>Vga\<close>: \<^verbatim>\<open>drivers/vga.c\<close>, and the terminal of 25 lines that it is.
  \<^item> \<open>Bounded_Queue\<close>: the contract of the key buffer, a locale; \<open>Keyboard\<close>: \<^verbatim>\<open>drivers/keyboard.c\<close> and the interpretation;
    \<open>Keyboard_Props\<close>: runs, preemption between the accesses of \<open>keyboard_getchar\<close>, typing.
  \<^item> \<open>Timer\<close>: the counter, sleeping, the rate.
  \<^item> \<open>Fish\<close>: \<^verbatim>\<open>fs/fish.c\<close> in memory; \<open>Tree_Spec\<close>: the specification, a tree of paths; \<open>Fish_Tree\<close>: the invariant of the node
    array and the tree it stands for; \<open>Fish_Ops\<close>: each operation against the specification; \<open>File_System\<close>: the interface for
    clients, two locales; \<open>Fish_Props\<close>: their interpretations, runs, listing, paths.
  \<^item> \<open>Ata\<close>: \<^verbatim>\<open>drivers/ata.c\<close>; \<open>Ata_Drive\<close>: the protocol of a drive, and the driver on it; \<open>Ata_Props\<close>; \<open>Sector_Store\<close>: what the
    filesystem needs of a disk, a locale interpreted on the driver; \<open>Fish_Disk\<close>, \<open>Fish_Disk_Props\<close>: saving and loading.
  \<^item> \<open>User\<close>: the names, and their file \<^verbatim>\<open>/ys.conf\<close>.
  \<^item> \<open>Kernel_State\<close>: the state of the kernel, interrupts at a \<open>hlt\<close>, the console in it; \<open>Shell\<close>: \<^verbatim>\<open>kernel/shell.c\<close>; \<open>Shell_Safe\<close>: every
    command is defined and keeps the invariant \<open>sound\<close>; \<open>Shell_Loop\<close>: lines, dispatch and the endless loop; \<open>Shell_Props\<close>;
    \<open>Shell_Screen\<close>: what the commands show on the screen; \<open>Preempt\<close>: interrupts commute with the drivers and the commands, a locale
    interpreted on what the handlers do to the devices, and the invariant under commands and interrupts in any order.
  \<^item> \<open>Typing\<close>: from the scancodes in the keyboard controller, through interrupt, driver, queue, line editor, dispatch and command, to
    the tree of paths, for sessions of any length.
  \<^item> \<open>Kernel\<close>: \<^verbatim>\<open>kernel/kernel.c\<close>; \<open>Kernel_Props\<close>: the start, the whole run, and what survives a restart.

  \<^bold>\<open>What is shown.\<close> From power-on the kernel starts and then serves any input for ever without undefined behaviour
  (\<open>kernel_never_breaks\<close>), with one exception that a user can cause, a number too large for \<open>color\<close>; what it saves is
  back after a restart (\<open>kernel_remembers\<close>); and any session of file commands typed at the keyboard leaves the tree of paths that the
  lines say (\<open>typed_session\<close>). Below that, each component does what its header file promises: Fish
  implements a tree of paths, its image on the disk is read back as it was written, the driver reads and writes the sectors it is asked
  for and reports faults, the console is a terminal and commands show on it what they should, keys are queued in order under interrupts,
  interrupts reach their handlers and leave no trace, sleeping up to 11.9 hours lasts as long as it should, the heap is first fit and hands
  out disjoint blocks, the segments are flat, and the string routines
  compute what their names say. The other theorems show where code and comments part: wrapping sizes and durations,
  indices from the disk that are not checked, a cut file name, names that \<open>save\<close> silently loses, a drive that is not waited for, and
  the exceptions 21, 29 and 30, whose error code the stubs do not expect.

  \<^bold>\<open>Hypotheses\<close> on what is not code of the repository. \<open>drive_bus\<close>: the drive follows the ATA protocol, with any delays that its bounded polls allow,
  losing what is written to it while it is busy or not, its status invalid for up to 400 ns between sectors, and any faulty sectors; \<open>machine\<close>: that, and other ports do not disturb the drive, or there is none; \<open>no_drive\<close>: nothing
  answers; \<open>separate\<close>: the devices of the handlers are not those of the disk and the console; \<open>pic_wired\<close>, \<open>pit_wired\<close>, \<open>kbc_wired\<close>: the interrupt controllers, the timer and the keyboard controller answer as
  their data sheets say; \<open>keyboard_line\<close>: that, and other ports take nothing from the keyboard; \<open>attended\<close>: each byte typed
  raises one interrupt, at most 127 of them in a halt; \<open>accepts_commands\<close>: the keyboard controller takes the command of \<open>reboot\<close> in the end;
  \<open>keeps_registers\<close>: the calling convention of the compiler; \<open>error_vectors\<close>: the exceptions with an error code by the manuals of the processors. \<open>disk_sound\<close> is the trust the loader needs: Fish's sectors are
  readable, and if they carry its superblock they hold an image of a possible state. Each is met by a concrete bus in a witness.

  \<^bold>\<open>Bounds.\<close> The driver's polls have the bound of the code, 1000000. The listing loop gets 65 rounds, one more than there are nodes, and
  \<open>fish_list_complete\<close> shows that it ends within them. Interrupts are given as lists, one for each \<open>hlt\<close> to come; the shell
  with all of them used up is \<open>Waiting\<close>. Loops that could run for ever (strings, the block list, the shell) are partial
  functions, and the theorems show that they return, or for the shell that it stops only there.

  \<^bold>\<open>Not modelled.\<close> Interrupts are taken at \<open>hlt\<close> and at \<open>sti\<close>, the points at which the kernel waits for them, and not between any two
  instructions; the one place where that matters for shared data, \<open>keyboard_getchar\<close>, has them between its accesses
  (\<open>keyboard_preemption\<close>). That a command does not notice interrupts that come before it is \<open>commands_undisturbed\<close>, and
  the lemmas of \<open>Preempt\<close> say the same of each call of a driver. The buffer that \<open>fish_load\<close> leaves uninitialised is the parameter
  \<open>stack\<close>, the same at every load. The halt loops after \<open>halt\<close>, \<open>reboot\<close> and a panic are the end of the run. The stack is deep
  enough. The build files and the disk image hold no program logic.
\<close>

end
